(* ===== verification/Prelude.thy ===== *)
theory Prelude
  imports Main "HOL-Library.Word"
begin

text \<open>
  The vocabulary the component theories of the dwater development share.

  \<^item> \<open>fault\<close> and \<open>'a result\<close>: what a C++ operation of the library can do other than return. A
    failed \<open>assert\<close> (the asserts are compiled in: no build file of the repository defines
    \<open>NDEBUG\<close>), a \<open>LOG_FATAL\<close> or \<open>LOG_SYSFATAL\<close>, an exception of the standard library and an access
    outside an object are values of \<open>fault\<close>; an operation that can do one of them returns a
    \<open>result\<close>. \<open>bindr\<close> sequences such operations, \<open>c_assert\<close> is the \<open>assert\<close> statement.
  \<^item> \<open>size_t\<close> arithmetic on \<open>nat\<close> with the wrap-around at 64 bits written out.
  \<^item> The standard algorithms the sources call on character ranges: \<open>std::find\<close>, \<open>std::search\<close>,
    \<open>memchr\<close>, \<open>std::copy\<close> into a vector, \<open>std::vector::resize\<close>.
  \<^item> Integers in memory: the little-endian byte sequence of a number and back.
  \<^item> Truncating division and remainder of C++ on \<open>int\<close>.
\<close>

section \<open>Results and faults\<close>

datatype fault =
    Assert_failed
  | Log_fatal
  | Length_error
  | Bad_access
  | Bad_function_call
  | Bad_alloc

type_synonym 'a result = "fault + 'a"

definition bindr :: "'a result \<Rightarrow> ('a \<Rightarrow> 'b result) \<Rightarrow> 'b result" where
  "bindr m f = (case m of Inl e \<Rightarrow> Inl e | Inr x \<Rightarrow> f x)"

definition c_assert :: "bool \<Rightarrow> 'a result \<Rightarrow> 'a result" where
  "c_assert b k = (if b then k else Inl Assert_failed)"

primrec ok :: "'a result \<Rightarrow> bool" where
  "ok (Inl e) = False"
| "ok (Inr x) = True"

section \<open>Machine arithmetic\<close>

definition size_limit :: nat where
  "size_limit = 2 ^ 64"

definition max_vector :: nat where
  "max_vector = 2 ^ 63 - 1"

definition szadd :: "nat \<Rightarrow> nat \<Rightarrow> nat" where
  "szadd a b = (a + b) mod size_limit"

definition szsub :: "nat \<Rightarrow> nat \<Rightarrow> nat" where
  "szsub a b = (a + size_limit - b) mod size_limit"

definition cdiv :: "int \<Rightarrow> int \<Rightarrow> int" where
  "cdiv a b = (if 0 \<le> a then a div b else - ((- a) div b))"

definition to_int32 :: "int \<Rightarrow> int" where
  "to_int32 x = (x + 2 ^ 31) mod 2 ^ 32 - 2 ^ 31"

definition to_size :: "int \<Rightarrow> nat" where
  "to_size x = nat (x mod 2 ^ 64)"

definition cmod :: "int \<Rightarrow> int \<Rightarrow> int" where
  "cmod a b = a - cdiv a b * b"

section \<open>Algorithms on character ranges\<close>

definition find_idx :: "'a \<Rightarrow> 'a list \<Rightarrow> nat" where
  "find_idx c xs = length (takeWhile (\<lambda>x. x \<noteq> c) xs)"

fun find_sub :: "'a list \<Rightarrow> 'a list \<Rightarrow> nat" where
  "find_sub p [] = 0"
| "find_sub p (x # xs) = (if take (length p) (x # xs) = p then 0 else Suc (find_sub p xs))"

definition memchr_idx :: "'a \<Rightarrow> 'a list \<Rightarrow> nat option" where
  "memchr_idx c xs = (if c \<in> set xs then Some (find_idx c xs) else None)"

definition overwrite :: "'a list \<Rightarrow> nat \<Rightarrow> 'a list \<Rightarrow> 'a list" where
  "overwrite xs i ys = take i xs @ ys @ drop (i + length ys) xs"

definition slice :: "'a list \<Rightarrow> nat \<Rightarrow> nat \<Rightarrow> 'a list" where
  "slice xs i j = take (j - i) (drop i xs)"

definition vresize :: "char list \<Rightarrow> nat \<Rightarrow> char list result" where
  "vresize xs n = (if max_vector < n then Inl Length_error
                   else Inr (take n xs @ replicate (n - length xs) (CHR 0x00)))"

section \<open>Integers in memory\<close>

primrec le_bytes :: "nat \<Rightarrow> nat \<Rightarrow> char list" where
  "le_bytes 0 k = []"
| "le_bytes (Suc n) k = char_of k # le_bytes n (k div 256)"

primrec le_val :: "char list \<Rightarrow> nat" where
  "le_val [] = 0"
| "le_val (c # cs) = of_char c + 256 * le_val cs"

section \<open>Lemmas\<close>

named_theorems res_simps "sequencing of results"
named_theorems size_simps "size_t arithmetic within range"
named_theorems char_range "algorithms on character ranges"

subsection \<open>Results\<close>

lemma bindr_Inl [simp]: "bindr (Inl e) f = Inl e"
  by (simp add: bindr_def)

lemma bindr_Inr [simp]: "bindr (Inr x) f = f x"
  by (simp add: bindr_def)

lemma bindr_return [simp]: "bindr m Inr = m"
  by (cases m) (simp_all add: bindr_def)

lemma c_assert_True [simp]: "c_assert True k = k"
  by (simp add: c_assert_def)

lemma c_assert_False [simp]: "c_assert False k = Inl Assert_failed"
  by (simp add: c_assert_def)

lemma bindr_eq_Inr [res_simps]: "bindr m f = Inr y \<longleftrightarrow> (\<exists>x. m = Inr x \<and> f x = Inr y)"
  by (cases m) (simp_all add: bindr_def)

lemma c_assert_eq_Inr [res_simps]: "c_assert b k = Inr y \<longleftrightarrow> b \<and> k = Inr y"
  by (simp add: c_assert_def)

lemma ok_iff [res_simps]: "ok m \<longleftrightarrow> (\<exists>x. m = Inr x)"
  by (cases m) simp_all

lemma bindr_assoc: "bindr (bindr m f) g = bindr m (\<lambda>x. bindr (f x) g)"
  by (cases m) (simp_all add: bindr_def)

subsection \<open>size_t\<close>

lemma max_vector_lt_limit [simp]: "max_vector < size_limit"
  by (simp add: max_vector_def size_limit_def)

lemma two_max_vector_lt_limit: "a \<le> max_vector \<Longrightarrow> b \<le> max_vector \<Longrightarrow> a + b < size_limit"
  by (simp add: max_vector_def size_limit_def)

lemma szadd_in_range [size_simps]: "a + b < size_limit \<Longrightarrow> szadd a b = a + b"
  by (simp add: szadd_def)

lemma szsub_in_range [size_simps]: "b \<le> a \<Longrightarrow> a < size_limit \<Longrightarrow> szsub a b = a - b"
proof -
  assume "b \<le> a" and "a < size_limit"
  then have "a + size_limit - b = (a - b) + size_limit" by simp
  moreover have "a - b < size_limit" using \<open>a < size_limit\<close> by simp
  ultimately show ?thesis unfolding szsub_def by (simp only: mod_add_self2 mod_less)
qed

lemma to_int32_in_range [size_simps]: "- (2 ^ 31) \<le> x \<Longrightarrow> x < 2 ^ 31 \<Longrightarrow> to_int32 x = x"
  by (simp add: to_int32_def)

lemma to_int32_bounds: "- (2 ^ 31) \<le> to_int32 x" "to_int32 x < 2 ^ 31"
  using pos_mod_bound [of "2 ^ 32" "x + 2 ^ 31"] by (simp_all add: to_int32_def)

lemma to_size_in_range [size_simps]: "0 \<le> x \<Longrightarrow> x < 2 ^ 64 \<Longrightarrow> to_size x = nat x"
  by (simp add: to_size_def)

subsection \<open>Truncating division\<close>

lemma cdiv_nonneg: "0 \<le> a \<Longrightarrow> cdiv a b = a div b"
  by (simp add: cdiv_def)

lemma cmod_nonneg: "0 \<le> a \<Longrightarrow> cmod a b = a mod b"
  by (simp add: cmod_def cdiv_def minus_div_mult_eq_mod)

lemma cdiv_cmod: "cdiv a b * b + cmod a b = a"
  by (simp add: cmod_def)

lemma cmod_neg: "a < 0 \<Longrightarrow> cmod a b = - ((- a) mod b)"
proof -
  assume "a < 0"
  have "(- a) div b * b + (- a) mod b = - a" by (rule div_mult_mod_eq)
  moreover have "cmod a b = a + (- a) div b * b" using \<open>a < 0\<close> by (simp add: cmod_def cdiv_def)
  ultimately show ?thesis by linarith
qed

lemma cmod_bounds:
  assumes "0 < b"
  shows "- b < cmod a b" and "cmod a b < b"
  using assms pos_mod_bound [of b a] pos_mod_sign [of b a]
    pos_mod_bound [of b "- a"] pos_mod_sign [of b "- a"]
  by (cases "0 \<le> a"; simp add: cmod_nonneg cmod_neg; linarith)+

subsection \<open>Ranges\<close>

lemma find_idx_le [char_range]: "find_idx c xs \<le> length xs"
  by (simp add: find_idx_def length_takeWhile_le)

lemma find_idx_less_iff [char_range]: "find_idx c xs < length xs \<longleftrightarrow> c \<in> set xs"
  by (induction xs) (auto simp: find_idx_def)

lemma find_idx_append_in [char_range]: "c \<in> set xs \<Longrightarrow> find_idx c (xs @ ys) = find_idx c xs"
  by (simp add: find_idx_def takeWhile_append1)

lemma find_idx_append_notin [char_range]:
  "c \<notin> set xs \<Longrightarrow> find_idx c (xs @ ys) = length xs + find_idx c ys"
  by (induction xs) (auto simp: find_idx_def)

lemma find_idx_here [char_range]: "c \<notin> set xs \<Longrightarrow> find_idx c (xs @ c # ys) = length xs"
  by (simp add: find_idx_append_notin) (simp add: find_idx_def)

lemma find_idx_notin [char_range]: "c \<notin> set xs \<Longrightarrow> find_idx c xs = length xs"
  using find_idx_le [of c xs] find_idx_less_iff [of c xs] by simp

lemma find_sub_le: "find_sub p xs \<le> length xs"
  by (induction xs) auto

lemma find_sub_found:
  "find_sub p xs < length xs \<Longrightarrow> take (length p) (drop (find_sub p xs) xs) = p"
  by (induction xs) (auto split: if_splits)

lemma find_sub_first:
  "i < find_sub p xs \<Longrightarrow> take (length p) (drop i xs) \<noteq> p"
proof (induction xs arbitrary: i)
  case (Cons x xs)
  then show ?case by (cases i) (auto split: if_splits)
qed simp

lemma find_sub_leI:
  "p \<noteq> [] \<Longrightarrow> take (length p) (drop i xs) = p \<Longrightarrow> find_sub p xs \<le> i"
  by (rule leI) (auto dest: find_sub_first)

lemma find_sub_append:
  assumes "p \<noteq> []" and "find_sub p xs \<noteq> length xs"
  shows "find_sub p (xs @ ys) = find_sub p xs"
  using assms(2)
proof (induction xs)
  case (Cons x xs)
  show ?case
  proof (cases "take (length p) (x # xs) = p")
    case True
    then have "length p \<le> length (x # xs)" by (metis length_take min.cobounded1)
    then have "take (length p) ((x # xs) @ ys) = take (length p) (x # xs)" by (subst take_append) simp
    with True show ?thesis by simp
  next
    case False
    with Cons.prems have later: "find_sub p xs \<noteq> length xs" by simp
    then have "find_sub p xs < length xs" using find_sub_le [of p xs] by simp
    from find_sub_found [OF this] have "length p \<le> length xs"
      by (metis length_take length_drop diff_le_self min.cobounded1 le_trans)
    then have "take (length p) ((x # xs) @ ys) = take (length p) (x # xs)" by (subst take_append) simp
    with False Cons.IH [OF later] show ?thesis by simp
  qed
qed simp

lemma length_overwrite [simp]: "i + length ys \<le> length xs \<Longrightarrow> length (overwrite xs i ys) = length xs"
  by (simp add: overwrite_def)

lemma length_slice [simp]: "i \<le> j \<Longrightarrow> j \<le> length xs \<Longrightarrow> length (slice xs i j) = j - i"
  by (simp add: slice_def)

lemma slice_overwrite_same:
  "i + length ys \<le> length xs \<Longrightarrow> slice (overwrite xs i ys) i (i + length ys) = ys"
  by (simp add: slice_def overwrite_def)

lemma slice_append_overwrite:
  "i \<le> j \<Longrightarrow> j + length ys \<le> length xs \<Longrightarrow>
   slice (overwrite xs j ys) i (j + length ys) = slice xs i j @ ys"
  by (simp add: slice_def overwrite_def drop_take)

lemma slice_prepend_overwrite:
  assumes "length ys \<le> i" and "i \<le> j" and "j \<le> length xs"
  shows "slice (overwrite xs (i - length ys) ys) (i - length ys) j = ys @ slice xs i j"
  using assms by (simp add: slice_def overwrite_def)

lemma drop_slice: "drop n (slice xs i j) = slice xs (i + n) j"
  by (simp add: slice_def drop_take add.commute)

lemma take_slice: "n \<le> j - i \<Longrightarrow> take n (slice xs i j) = slice xs i (i + n)"
  by (simp add: slice_def min_def)

lemma slice_split: "i \<le> k \<Longrightarrow> k \<le> j \<Longrightarrow> slice xs i k @ slice xs k j = slice xs i j"
proof -
  assume "i \<le> k" and "k \<le> j"
  then have "slice xs i j = take ((k - i) + (j - k)) (drop i xs)" by (simp add: slice_def)
  also have "\<dots> = take (k - i) (drop i xs) @ take (j - k) (drop (k - i) (drop i xs))"
    by (rule take_add)
  finally show ?thesis using \<open>i \<le> k\<close> by (simp add: slice_def)
qed

lemma slice_append_left: "j \<le> length xs \<Longrightarrow> slice (xs @ ys) i j = slice xs i j"
  by (cases "i \<le> length xs") (auto simp: slice_def)

lemma slice_self [simp]: "slice xs i i = []"
  by (simp add: slice_def)

subsection \<open>Bytes of integers\<close>

lemma length_le_bytes [simp]: "length (le_bytes n k) = n"
  by (induction n arbitrary: k) simp_all

lemma of_char_lt_256: "of_char c < (256 :: nat)"
  by simp

lemma le_val_bound: "le_val bs < 256 ^ length bs"
proof (induction bs)
  case (Cons c cs)
  have "of_char c + 256 * le_val cs < 256 + 256 * le_val cs"
    using of_char_lt_256 by simp
  also have "\<dots> \<le> 256 * 256 ^ length cs" using Cons.IH by simp
  finally show ?case by simp
qed simp

lemma le_bytes_le_val: "length bs = n \<Longrightarrow> le_bytes n (le_val bs) = bs"
proof (induction bs arbitrary: n)
  case (Cons c cs)
  have "char_of (of_char c + 256 * le_val cs) = (char_of (of_char c :: nat) :: char)"
    by (metis char_of_mod_256 mod_mult_self2)
  then have "char_of (of_char c + 256 * le_val cs) = c" by simp
  moreover have "(of_char c + 256 * le_val cs) div 256 = le_val cs"
    using of_char_lt_256 [of c] by simp
  ultimately show ?case using Cons by auto
qed simp

lemma le_val_le_bytes: "le_val (le_bytes n k) = k mod 256 ^ n"
proof (induction n arbitrary: k)
  case (Suc n)
  have "of_char (char_of k :: char) = k mod 256" by simp
  moreover have "k mod (256 * 256 ^ n) = k mod 256 + 256 * (k div 256 mod 256 ^ n)"
    by (simp add: mod_mult2_eq)
  ultimately show ?case by (simp add: Suc.IH)
qed simp

end
