(* ===== verification/StringPiece.thy ===== *)
theory StringPiece
  imports Prelude "HOL-Library.Char_ord" "HOL-Library.List_Lexorder"
begin

text \<open>
  \<open>dwater/base/string_piece.h\<close>: a non-owning view of a character range. A \<open>const char*\<close> is the
  memory it points into, from the pointer to the end of the object (\<open>None\<close> is \<open>NULL\<close>); the
  length is the C++ \<open>int\<close>. A \<open>memcmp\<close> or a copy that reads past the end of the object is the
  fault \<open>Bad_access\<close>. \<open>memcmp\<close> is specified up to the sign of its result, which is what the
  model returns. The lemmas show that on valid views the comparison operators are the
  lexicographic order of the viewed strings by unsigned character code and that \<open>Compare\<close> agrees
  with them.
\<close>

section \<open>Data and operations\<close>

record string_piece =
  sp_ptr :: "char list option"
  sp_length :: int

definition StringPiece_default :: string_piece where
  "StringPiece_default = \<lparr>sp_ptr = None, sp_length = 1\<rparr>"

definition strlen :: "char list \<Rightarrow> nat" where
  "strlen mem = find_idx (CHR 0x00) mem"

definition StringPiece_cstr :: "char list \<Rightarrow> string_piece" where
  "StringPiece_cstr mem = \<lparr>sp_ptr = Some mem, sp_length = to_int32 (int (strlen mem))\<rparr>"

definition StringPiece_string :: "string \<Rightarrow> string_piece" where
  "StringPiece_string s = \<lparr>sp_ptr = Some s, sp_length = to_int32 (int (length s))\<rparr>"

definition StringPiece_range :: "char list \<Rightarrow> int \<Rightarrow> string_piece" where
  "StringPiece_range mem len = \<lparr>sp_ptr = Some mem, sp_length = len\<rparr>"

definition StringPiece_Empty :: "string_piece \<Rightarrow> bool" where
  "StringPiece_Empty p \<longleftrightarrow> sp_length p = 0"

definition StringPiece_Clear :: "string_piece \<Rightarrow> string_piece" where
  "StringPiece_Clear p = p\<lparr>sp_ptr := None, sp_length := 0\<rparr>"

definition StringPiece_Set :: "char list \<Rightarrow> int \<Rightarrow> string_piece \<Rightarrow> string_piece" where
  "StringPiece_Set mem len p = p\<lparr>sp_ptr := Some mem, sp_length := len\<rparr>"

definition StringPiece_index :: "string_piece \<Rightarrow> int \<Rightarrow> char result" where
  "StringPiece_index p i =
     (case sp_ptr p of
        None \<Rightarrow> Inl Bad_access
      | Some mem \<Rightarrow> if 0 \<le> i \<and> nat i < length mem then Inr (mem ! nat i) else Inl Bad_access)"

definition StringPiece_RemovePrefix :: "int \<Rightarrow> string_piece \<Rightarrow> string_piece result" where
  "StringPiece_RemovePrefix n p =
     (case sp_ptr p of
        None \<Rightarrow> if n = 0 then Inr p else Inl Bad_access
      | Some mem \<Rightarrow> if 0 \<le> n \<and> nat n \<le> length mem
                    then Inr (p\<lparr>sp_ptr := Some (drop (nat n) mem), sp_length := sp_length p - n\<rparr>)
                    else Inl Bad_access)"

definition StringPiece_RemoveSuffix :: "int \<Rightarrow> string_piece \<Rightarrow> string_piece" where
  "StringPiece_RemoveSuffix n p = p\<lparr>sp_length := sp_length p - n\<rparr>"

fun memcmp_sign :: "char list \<Rightarrow> char list \<Rightarrow> int" where
  "memcmp_sign (x # xs) (y # ys) =
     (if x = y then memcmp_sign xs ys else if x < y then -1 else 1)"
| "memcmp_sign _ _ = 0"

definition ptr_read :: "char list option \<Rightarrow> int \<Rightarrow> char list result" where
  "ptr_read p n =
     (if n = 0 then Inr []
      else case p of
        None \<Rightarrow> Inl Bad_access
      | Some mem \<Rightarrow> if to_size n \<le> length mem then Inr (take (to_size n) mem) else Inl Bad_access)"

definition memcmp :: "char list option \<Rightarrow> char list option \<Rightarrow> int \<Rightarrow> int result" where
  "memcmp p q n = bindr (ptr_read p n) (\<lambda>a. bindr (ptr_read q n) (\<lambda>b. Inr (memcmp_sign a b)))"

definition StringPiece_eq :: "string_piece \<Rightarrow> string_piece \<Rightarrow> bool result" where
  "StringPiece_eq x y =
     (if sp_length x = sp_length y
      then bindr (memcmp (sp_ptr x) (sp_ptr y) (sp_length x)) (\<lambda>r. Inr (r = 0))
      else Inr False)"

definition StringPiece_neq :: "string_piece \<Rightarrow> string_piece \<Rightarrow> bool result" where
  "StringPiece_neq x y = bindr (StringPiece_eq x y) (\<lambda>b. Inr (\<not> b))"

definition min_length :: "string_piece \<Rightarrow> string_piece \<Rightarrow> int" where
  "min_length x y = (if sp_length x < sp_length y then sp_length x else sp_length y)"

definition StringPiece_binary_predicate ::
  "(int \<Rightarrow> int \<Rightarrow> bool) \<Rightarrow> (int \<Rightarrow> int \<Rightarrow> bool) \<Rightarrow> string_piece \<Rightarrow> string_piece \<Rightarrow> bool result" where
  "StringPiece_binary_predicate cmp auxcmp x y =
     bindr (memcmp (sp_ptr x) (sp_ptr y) (min_length x y))
       (\<lambda>r. Inr (auxcmp r 0 \<or> (r = 0 \<and> cmp (sp_length x) (sp_length y))))"

definition StringPiece_less :: "string_piece \<Rightarrow> string_piece \<Rightarrow> bool result" where
  "StringPiece_less = StringPiece_binary_predicate (<) (<)"

definition StringPiece_le :: "string_piece \<Rightarrow> string_piece \<Rightarrow> bool result" where
  "StringPiece_le = StringPiece_binary_predicate (\<le>) (<)"

definition StringPiece_ge :: "string_piece \<Rightarrow> string_piece \<Rightarrow> bool result" where
  "StringPiece_ge = StringPiece_binary_predicate (\<ge>) (>)"

definition StringPiece_greater :: "string_piece \<Rightarrow> string_piece \<Rightarrow> bool result" where
  "StringPiece_greater = StringPiece_binary_predicate (>) (>)"

definition StringPiece_Compare :: "string_piece \<Rightarrow> string_piece \<Rightarrow> int result" where
  "StringPiece_Compare x y =
     bindr (memcmp (sp_ptr x) (sp_ptr y) (min_length x y))
       (\<lambda>r. Inr (if r = 0
                 then (if sp_length x < sp_length y then -1
                       else if sp_length x > sp_length y then r + 1 else r)
                 else r))"

definition StringPiece_AsString :: "string_piece \<Rightarrow> string result" where
  "StringPiece_AsString p = ptr_read (sp_ptr p) (sp_length p)"

definition StringPiece_CopyToString :: "string_piece \<Rightarrow> string result" where
  "StringPiece_CopyToString p = ptr_read (sp_ptr p) (sp_length p)"

definition StringPiece_StartWith :: "string_piece \<Rightarrow> string_piece \<Rightarrow> bool result" where
  "StringPiece_StartWith p x =
     (if sp_length p \<ge> sp_length x
      then bindr (memcmp (sp_ptr p) (sp_ptr x) (sp_length x)) (\<lambda>r. Inr (r = 0))
      else Inr False)"

section \<open>Valid views\<close>

definition sp_valid :: "string_piece \<Rightarrow> bool" where
  "sp_valid p \<longleftrightarrow> 0 \<le> sp_length p \<and> sp_length p < 2 ^ 31 \<and>
     (case sp_ptr p of None \<Rightarrow> sp_length p = 0 | Some mem \<Rightarrow> nat (sp_length p) \<le> length mem)"

definition sp_view :: "string_piece \<Rightarrow> string" where
  "sp_view p = (case sp_ptr p of None \<Rightarrow> [] | Some mem \<Rightarrow> take (nat (sp_length p)) mem)"

section \<open>Lemmas\<close>

lemma length_sp_view: "sp_valid p \<Longrightarrow> int (length (sp_view p)) = sp_length p"
  by (auto simp: sp_valid_def sp_view_def split: option.splits)

lemma ptr_read_view:
  "sp_valid p \<Longrightarrow> 0 \<le> n \<Longrightarrow> n \<le> sp_length p \<Longrightarrow> ptr_read (sp_ptr p) n = Inr (take (nat n) (sp_view p))"
  by (auto simp: sp_valid_def sp_view_def ptr_read_def to_size_in_range min_def split: option.splits)

lemma memcmp_view:
  "sp_valid x \<Longrightarrow> sp_valid y \<Longrightarrow> 0 \<le> n \<Longrightarrow> n \<le> sp_length x \<Longrightarrow> n \<le> sp_length y \<Longrightarrow>
   memcmp (sp_ptr x) (sp_ptr y) n = Inr (memcmp_sign (take (nat n) (sp_view x)) (take (nat n) (sp_view y)))"
  by (simp add: memcmp_def ptr_read_view)

lemma memcmp_sign_eq_0: "length a = length b \<Longrightarrow> memcmp_sign a b = 0 \<longleftrightarrow> a = b"
  by (induction a b rule: memcmp_sign.induct) auto

text \<open>The comparison of the common prefix and then of the lengths is the lexicographic order.\<close>

definition prefix_cmp :: "string \<Rightarrow> string \<Rightarrow> int" where
  "prefix_cmp a b = (let n = min (length a) (length b) in memcmp_sign (take n a) (take n b))"

lemma Nil_less_string [simp]: "[] < (b :: string) \<longleftrightarrow> b \<noteq> []"
  by (cases b) simp_all

lemma prefix_cmp_lex:
  "prefix_cmp a b < 0 \<or> (prefix_cmp a b = 0 \<and> length a < length b) \<longleftrightarrow> a < b"
  "prefix_cmp a b > 0 \<or> (prefix_cmp a b = 0 \<and> length b < length a) \<longleftrightarrow> b < a"
  "prefix_cmp a b = 0 \<and> length a = length b \<longleftrightarrow> a = b"
  unfolding prefix_cmp_def Let_def
  by (induction a b rule: memcmp_sign.induct) (auto split: if_splits)

lemma min_length_view:
  assumes "sp_valid x" and "sp_valid y"
  shows "memcmp (sp_ptr x) (sp_ptr y) (min_length x y) = Inr (prefix_cmp (sp_view x) (sp_view y))"
proof -
  have "0 \<le> min_length x y" "min_length x y \<le> sp_length x" "min_length x y \<le> sp_length y"
    using assms by (auto simp: min_length_def sp_valid_def)
  moreover have "nat (min_length x y) = min (length (sp_view x)) (length (sp_view y))"
    using length_sp_view [OF assms(1)] length_sp_view [OF assms(2)] by (auto simp: min_length_def)
  ultimately show ?thesis using assms by (simp add: memcmp_view prefix_cmp_def Let_def)
qed

lemma view_lengths:
  assumes "sp_valid x" and "sp_valid y"
  shows "sp_length x < sp_length y \<longleftrightarrow> length (sp_view x) < length (sp_view y)"
    and "sp_length x = sp_length y \<longleftrightarrow> length (sp_view x) = length (sp_view y)"
    and "sp_length x \<le> sp_length y \<longleftrightarrow> length (sp_view x) \<le> length (sp_view y)"
  using length_sp_view [OF assms(1)] length_sp_view [OF assms(2)] by auto

lemma sp_less_view:
  assumes "sp_valid x" and "sp_valid y"
  shows "StringPiece_less x y = Inr (sp_view x < sp_view y)"
    and "StringPiece_le x y = Inr (sp_view x \<le> sp_view y)"
    and "StringPiece_greater x y = Inr (sp_view y < sp_view x)"
    and "StringPiece_ge x y = Inr (sp_view y \<le> sp_view x)"
proof -
  note defs = StringPiece_less_def StringPiece_le_def StringPiece_greater_def StringPiece_ge_def
    StringPiece_binary_predicate_def min_length_view [OF assms] bindr_Inr
    view_lengths [OF assms] view_lengths [OF assms(2) assms(1)]
  note lex = prefix_cmp_lex [of "sp_view x" "sp_view y"]
  show "StringPiece_less x y = Inr (sp_view x < sp_view y)"
    by (simp only: defs lex(1))
  show "StringPiece_greater x y = Inr (sp_view y < sp_view x)"
    by (simp only: defs lex(2))
  show "StringPiece_le x y = Inr (sp_view x \<le> sp_view y)"
    unfolding defs le_less lex(1) [symmetric] lex(3) [symmetric] by auto
  show "StringPiece_ge x y = Inr (sp_view y \<le> sp_view x)"
    unfolding defs le_less lex(2) [symmetric] eq_commute [of "sp_view y"] lex(3) [symmetric] by auto
qed

lemma sp_eq_view:
  assumes "sp_valid x" and "sp_valid y"
  shows "StringPiece_eq x y = Inr (sp_view x = sp_view y)"
proof (cases "sp_length x = sp_length y")
  case True
  then have "memcmp (sp_ptr x) (sp_ptr y) (sp_length x) = Inr (memcmp_sign (sp_view x) (sp_view y))"
    using memcmp_view [OF assms, of "sp_length x"] assms length_sp_view [OF assms(1)]
      length_sp_view [OF assms(2)] by (simp add: sp_valid_def)
  then show ?thesis using True view_lengths [OF assms]
    by (simp add: StringPiece_eq_def memcmp_sign_eq_0)
next
  case False
  then show ?thesis using view_lengths [OF assms] by (auto simp: StringPiece_eq_def)
qed

lemma sp_compare_view:
  assumes "sp_valid x" and "sp_valid y"
  obtains r where "StringPiece_Compare x y = Inr r"
    and "r < 0 \<longleftrightarrow> sp_view x < sp_view y" and "r > 0 \<longleftrightarrow> sp_view y < sp_view x"
proof -
  define m where "m = prefix_cmp (sp_view x) (sp_view y)"
  let ?r = "if m = 0 then (if sp_length x < sp_length y then -1
                       else if sp_length y < sp_length x then m + 1 else m) else m"
  have "StringPiece_Compare x y = Inr ?r"
    by (simp add: StringPiece_Compare_def min_length_view [OF assms] m_def)
  moreover have "?r < 0 \<longleftrightarrow> sp_view x < sp_view y" "?r > 0 \<longleftrightarrow> sp_view y < sp_view x"
    using view_lengths(1) [OF assms] view_lengths(1) [OF assms(2) assms(1)]
    unfolding prefix_cmp_lex(1) [of "sp_view x" "sp_view y", symmetric]
      prefix_cmp_lex(2) [where a = "sp_view x" and b = "sp_view y", symmetric] m_def [symmetric]
    by auto
  ultimately show ?thesis by (rule that)
qed

lemma sp_AsString_view: "sp_valid p \<Longrightarrow> StringPiece_AsString p = Inr (sp_view p)"
  using ptr_read_view [of p "sp_length p"] length_sp_view [of p]
  by (simp add: StringPiece_AsString_def sp_valid_def)

lemma sp_string_valid:
  assumes "length s < 2 ^ 31"
  shows "sp_valid (StringPiece_string s)" and "sp_view (StringPiece_string s) = s"
  using assms by (simp_all add: sp_valid_def sp_view_def StringPiece_string_def to_int32_in_range)

end
