(* ===== verification/Buffer.thy ===== *)
theory Buffer
  imports StringPiece
begin

unbundle bit_operations_syntax

text \<open>
  \<open>dwater/net/endian.h\<close>, \<open>dwater/net/buffer.h\<close> and \<open>dwater/net/buffer.cc\<close>: the byte buffer of a
  connection. A pointer into \<open>buffer_\<close> is the index it points at; \<open>size_t\<close> is \<open>nat\<close> with the
  wrap-around of the additions and subtractions written out (\<open>szadd\<close>, \<open>szsub\<close>); every \<open>assert\<close> of
  the class is an \<open>Assert_failed\<close> branch. The host is little-endian, so the conversions of
  \<open>endian.h\<close> swap bytes.

  \<open>readv\<close> is the outcome the kernel gives it: an error number, or the bytes it stored, which
  \<open>Buffer_ReadFd\<close> spreads over the writable part of the buffer and the 64 KiB stack area.

  The locale \<open>byte_queue\<close> is what the clients (the TCP connection, the HTTP parser) rely on: the
  readable bytes form a queue. The lemmas show that no assert of the class fails on a
  well-formed buffer with room for the data, that every operation keeps the buffer well formed
  and what it does to the readable bytes.
\<close>

section \<open>Byte order\<close>

definition bswap :: "nat \<Rightarrow> nat \<Rightarrow> nat" where
  "bswap n k = le_val (rev (le_bytes n k))"

definition HostToNetwork64 :: "64 word \<Rightarrow> 64 word" where
  "HostToNetwork64 w = of_nat (bswap 8 (unat w))"

definition HostToNetwork32 :: "32 word \<Rightarrow> 32 word" where
  "HostToNetwork32 w = of_nat (bswap 4 (unat w))"

definition HostToNetwork16 :: "16 word \<Rightarrow> 16 word" where
  "HostToNetwork16 w = of_nat (bswap 2 (unat w))"

definition NetworkToHost64 :: "64 word \<Rightarrow> 64 word" where
  "NetworkToHost64 w = of_nat (bswap 8 (unat w))"

definition NetworkToHost32 :: "32 word \<Rightarrow> 32 word" where
  "NetworkToHost32 w = of_nat (bswap 4 (unat w))"

definition NetworkToHost16 :: "16 word \<Rightarrow> 16 word" where
  "NetworkToHost16 w = of_nat (bswap 2 (unat w))"

section \<open>The buffer\<close>

definition kcheap_prepend :: nat where
  "kcheap_prepend = 8"

definition kinitial_size :: nat where
  "kinitial_size = 1024"

definition kCRLF :: string where
  "kCRLF = [CHR 0x0D, CHR 0x0A]"

record buffer =
  buf_buffer :: "char list"
  buf_reader_index :: nat
  buf_writer_index :: nat

definition Buffer_ReadableBytes :: "buffer \<Rightarrow> nat" where
  "Buffer_ReadableBytes b = szsub (buf_writer_index b) (buf_reader_index b)"

definition Buffer_WritableBytes :: "buffer \<Rightarrow> nat" where
  "Buffer_WritableBytes b = szsub (length (buf_buffer b)) (buf_writer_index b)"

definition Buffer_PrependableBytes :: "buffer \<Rightarrow> nat" where
  "Buffer_PrependableBytes b = buf_reader_index b"

definition Buffer_new :: "nat \<Rightarrow> buffer result" where
  "Buffer_new initialSize =
     bindr (vresize [] (szadd kcheap_prepend initialSize))
       (\<lambda>v. let b = \<lparr>buf_buffer = v, buf_reader_index = kcheap_prepend,
                     buf_writer_index = kcheap_prepend\<rparr>
            in c_assert (Buffer_ReadableBytes b = 0)
                (c_assert (Buffer_WritableBytes b = initialSize)
                  (c_assert (Buffer_PrependableBytes b = kcheap_prepend) (Inr b))))"

definition Buffer_Swap :: "buffer \<Rightarrow> buffer \<Rightarrow> buffer \<times> buffer" where
  "Buffer_Swap b rhs =
     (b\<lparr>buf_buffer := buf_buffer rhs, buf_reader_index := buf_reader_index rhs,
        buf_writer_index := buf_writer_index rhs\<rparr>,
      rhs\<lparr>buf_buffer := buf_buffer b, buf_reader_index := buf_reader_index b,
        buf_writer_index := buf_writer_index b\<rparr>)"

definition Buffer_Peek :: "buffer \<Rightarrow> nat" where
  "Buffer_Peek b = buf_reader_index b"

definition Buffer_BeginWrite :: "buffer \<Rightarrow> nat" where
  "Buffer_BeginWrite b = buf_writer_index b"

definition Buffer_FindCRLF_from :: "nat \<Rightarrow> buffer \<Rightarrow> nat option" where
  "Buffer_FindCRLF_from start b =
     (let crlf = start + find_sub kCRLF (slice (buf_buffer b) start (Buffer_BeginWrite b))
      in if crlf = Buffer_BeginWrite b then None else Some crlf)"

definition Buffer_FindCRLF :: "buffer \<Rightarrow> nat option" where
  "Buffer_FindCRLF b = Buffer_FindCRLF_from (Buffer_Peek b) b"

definition Buffer_FindCRLF_at :: "nat \<Rightarrow> buffer \<Rightarrow> nat option result" where
  "Buffer_FindCRLF_at start b =
     c_assert (Buffer_Peek b \<le> start)
       (c_assert (start \<le> Buffer_BeginWrite b) (Inr (Buffer_FindCRLF_from start b)))"

definition Buffer_FindEOL :: "buffer \<Rightarrow> nat option" where
  "Buffer_FindEOL b =
     map_option (\<lambda>i. Buffer_Peek b + i)
       (memchr_idx (CHR 0x0A) (take (Buffer_ReadableBytes b) (drop (Buffer_Peek b) (buf_buffer b))))"

definition Buffer_FindEOL_at :: "nat \<Rightarrow> buffer \<Rightarrow> nat option result" where
  "Buffer_FindEOL_at start b =
     c_assert (Buffer_Peek b \<le> start)
       (c_assert (start \<le> Buffer_BeginWrite b)
         (Inr (map_option (\<lambda>i. start + i)
                (memchr_idx (CHR 0x0A) (slice (buf_buffer b) start (Buffer_BeginWrite b))))))"

definition Buffer_RetrieveAll :: "buffer \<Rightarrow> buffer" where
  "Buffer_RetrieveAll b =
     b\<lparr>buf_reader_index := kcheap_prepend, buf_writer_index := kcheap_prepend\<rparr>"

definition Buffer_Retrieve :: "nat \<Rightarrow> buffer \<Rightarrow> buffer result" where
  "Buffer_Retrieve len b =
     c_assert (len \<le> Buffer_ReadableBytes b)
       (if len < Buffer_ReadableBytes b
        then Inr (b\<lparr>buf_reader_index := szadd (buf_reader_index b) len\<rparr>)
        else Inr (Buffer_RetrieveAll b))"

definition Buffer_RetrieveUntil :: "nat \<Rightarrow> buffer \<Rightarrow> buffer result" where
  "Buffer_RetrieveUntil e b =
     c_assert (Buffer_Peek b \<le> e)
       (c_assert (e \<le> Buffer_BeginWrite b) (Buffer_Retrieve (e - Buffer_Peek b) b))"

definition Buffer_RetrieveInt64 :: "buffer \<Rightarrow> buffer result" where
  "Buffer_RetrieveInt64 = Buffer_Retrieve 8"

definition Buffer_RetrieveInt32 :: "buffer \<Rightarrow> buffer result" where
  "Buffer_RetrieveInt32 = Buffer_Retrieve 4"

definition Buffer_RetrieveInt16 :: "buffer \<Rightarrow> buffer result" where
  "Buffer_RetrieveInt16 = Buffer_Retrieve 2"

definition Buffer_RetrieveInt8 :: "buffer \<Rightarrow> buffer result" where
  "Buffer_RetrieveInt8 = Buffer_Retrieve 1"

definition Buffer_RetrieveAsString :: "nat \<Rightarrow> buffer \<Rightarrow> (string \<times> buffer) result" where
  "Buffer_RetrieveAsString len b =
     c_assert (len \<le> Buffer_ReadableBytes b)
       (let res = take len (drop (Buffer_Peek b) (buf_buffer b))
        in bindr (Buffer_Retrieve len b) (\<lambda>b'. Inr (res, b')))"

definition Buffer_RetrieveAllAsString :: "buffer \<Rightarrow> (string \<times> buffer) result" where
  "Buffer_RetrieveAllAsString b = Buffer_RetrieveAsString (Buffer_ReadableBytes b) b"

definition Buffer_toStringPiece :: "buffer \<Rightarrow> string_piece" where
  "Buffer_toStringPiece b =
     StringPiece_range (drop (Buffer_Peek b) (buf_buffer b)) (to_int32 (int (Buffer_ReadableBytes b)))"

definition Buffer_MakeSpace :: "nat \<Rightarrow> buffer \<Rightarrow> buffer result" where
  "Buffer_MakeSpace len b =
     (if szadd (Buffer_WritableBytes b) (Buffer_PrependableBytes b) < szadd len kcheap_prepend
      then bindr (vresize (buf_buffer b) (szadd (buf_writer_index b) len))
             (\<lambda>v. Inr (b\<lparr>buf_buffer := v\<rparr>))
      else c_assert (kcheap_prepend < buf_reader_index b)
        (let readable = Buffer_ReadableBytes b;
             b' = b\<lparr>buf_buffer := overwrite (buf_buffer b) kcheap_prepend
                      (slice (buf_buffer b) (buf_reader_index b) (buf_writer_index b)),
                    buf_reader_index := kcheap_prepend,
                    buf_writer_index := szadd kcheap_prepend readable\<rparr>
         in c_assert (readable = Buffer_ReadableBytes b') (Inr b')))"

definition Buffer_EnsureWritableBytes :: "nat \<Rightarrow> buffer \<Rightarrow> buffer result" where
  "Buffer_EnsureWritableBytes len b =
     bindr (if Buffer_WritableBytes b < len then Buffer_MakeSpace len b else Inr b)
       (\<lambda>b'. c_assert (Buffer_WritableBytes b' \<ge> len) (Inr b'))"

definition Buffer_hasWritten :: "nat \<Rightarrow> buffer \<Rightarrow> buffer result" where
  "Buffer_hasWritten len b =
     c_assert (len \<le> Buffer_WritableBytes b)
       (Inr (b\<lparr>buf_writer_index := szadd (buf_writer_index b) len\<rparr>))"

definition Buffer_unwrite :: "nat \<Rightarrow> buffer \<Rightarrow> buffer result" where
  "Buffer_unwrite len b =
     c_assert (len \<le> Buffer_ReadableBytes b)
       (Inr (b\<lparr>buf_writer_index := szsub (buf_writer_index b) len\<rparr>))"

text \<open>\<open>Append(const char* data, size_t len)\<close>: \<open>data\<close> is the memory behind the pointer.\<close>

definition Buffer_Append :: "char list \<Rightarrow> nat \<Rightarrow> buffer \<Rightarrow> buffer result" where
  "Buffer_Append data len b =
     bindr (Buffer_EnsureWritableBytes len b)
       (\<lambda>b'. if length data < len then Inl Bad_access
             else Buffer_hasWritten len
                    (b'\<lparr>buf_buffer := overwrite (buf_buffer b') (Buffer_BeginWrite b') (take len data)\<rparr>))"

definition Buffer_Append_piece :: "string_piece \<Rightarrow> buffer \<Rightarrow> buffer result" where
  "Buffer_Append_piece str b =
     Buffer_Append (case sp_ptr str of None \<Rightarrow> [] | Some mem \<Rightarrow> mem) (to_size (sp_length str)) b"

definition Buffer_AppendInt64 :: "64 word \<Rightarrow> buffer \<Rightarrow> buffer result" where
  "Buffer_AppendInt64 x = (let be64 = HostToNetwork64 x in Buffer_Append (le_bytes 8 (unat be64)) 8)"

definition Buffer_AppendInt32 :: "32 word \<Rightarrow> buffer \<Rightarrow> buffer result" where
  "Buffer_AppendInt32 x = (let be32 = HostToNetwork32 x in Buffer_Append (le_bytes 4 (unat be32)) 4)"

definition Buffer_AppendInt16 :: "16 word \<Rightarrow> buffer \<Rightarrow> buffer result" where
  "Buffer_AppendInt16 x = (let be16 = HostToNetwork16 x in Buffer_Append (le_bytes 2 (unat be16)) 2)"

definition Buffer_AppendInt8 :: "8 word \<Rightarrow> buffer \<Rightarrow> buffer result" where
  "Buffer_AppendInt8 x = Buffer_Append (le_bytes 1 (unat x)) 1"

definition Buffer_PeekInt64 :: "buffer \<Rightarrow> 64 word result" where
  "Buffer_PeekInt64 b =
     c_assert (Buffer_ReadableBytes b \<ge> 8)
       (let be64 = of_nat (le_val (take 8 (drop (Buffer_Peek b) (buf_buffer b))))
        in Inr (NetworkToHost64 be64))"

definition Buffer_PeekInt32 :: "buffer \<Rightarrow> 32 word result" where
  "Buffer_PeekInt32 b =
     c_assert (Buffer_ReadableBytes b \<ge> 4)
       (let be32 = of_nat (le_val (take 4 (drop (Buffer_Peek b) (buf_buffer b))))
        in Inr (NetworkToHost32 be32))"

definition Buffer_PeekInt16 :: "buffer \<Rightarrow> 16 word result" where
  "Buffer_PeekInt16 b =
     c_assert (Buffer_ReadableBytes b \<ge> 2)
       (let be16 = of_nat (le_val (take 2 (drop (Buffer_Peek b) (buf_buffer b))))
        in Inr (NetworkToHost16 be16))"

definition Buffer_PeekInt8 :: "buffer \<Rightarrow> 8 word result" where
  "Buffer_PeekInt8 b =
     c_assert (Buffer_ReadableBytes b \<ge> 1)
       (Inr (of_nat (le_val (take 1 (drop (Buffer_Peek b) (buf_buffer b))))))"

definition Buffer_ReadInt64 :: "buffer \<Rightarrow> (64 word \<times> buffer) result" where
  "Buffer_ReadInt64 b =
     bindr (Buffer_PeekInt64 b) (\<lambda>r. bindr (Buffer_RetrieveInt64 b) (\<lambda>b'. Inr (r, b')))"

definition Buffer_ReadInt32 :: "buffer \<Rightarrow> (32 word \<times> buffer) result" where
  "Buffer_ReadInt32 b =
     bindr (Buffer_PeekInt32 b) (\<lambda>r. bindr (Buffer_RetrieveInt32 b) (\<lambda>b'. Inr (r, b')))"

definition Buffer_ReadInt16 :: "buffer \<Rightarrow> (16 word \<times> buffer) result" where
  "Buffer_ReadInt16 b =
     bindr (Buffer_PeekInt16 b) (\<lambda>r. bindr (Buffer_RetrieveInt16 b) (\<lambda>b'. Inr (r, b')))"

definition Buffer_ReadInt8 :: "buffer \<Rightarrow> (8 word \<times> buffer) result" where
  "Buffer_ReadInt8 b =
     bindr (Buffer_PeekInt8 b) (\<lambda>r. bindr (Buffer_RetrieveInt8 b) (\<lambda>b'. Inr (r, b')))"

definition Buffer_Prepend :: "char list \<Rightarrow> buffer \<Rightarrow> buffer result" where
  "Buffer_Prepend data b =
     c_assert (length data \<le> Buffer_PrependableBytes b)
       (let b' = b\<lparr>buf_reader_index := szsub (buf_reader_index b) (length data)\<rparr>
        in Inr (b'\<lparr>buf_buffer := overwrite (buf_buffer b') (buf_reader_index b') data\<rparr>))"

definition Buffer_PrependInt64 :: "64 word \<Rightarrow> buffer \<Rightarrow> buffer result" where
  "Buffer_PrependInt64 x = (let be64 = HostToNetwork64 x in Buffer_Prepend (le_bytes 8 (unat be64)))"

definition Buffer_PrependInt32 :: "32 word \<Rightarrow> buffer \<Rightarrow> buffer result" where
  "Buffer_PrependInt32 x = (let be32 = HostToNetwork32 x in Buffer_Prepend (le_bytes 4 (unat be32)))"

definition Buffer_PrependInt16 :: "16 word \<Rightarrow> buffer \<Rightarrow> buffer result" where
  "Buffer_PrependInt16 x = (let be16 = HostToNetwork16 x in Buffer_Prepend (le_bytes 2 (unat be16)))"

definition Buffer_PrependInt8 :: "8 word \<Rightarrow> buffer \<Rightarrow> buffer result" where
  "Buffer_PrependInt8 x = Buffer_Prepend (le_bytes 1 (unat x))"

definition Buffer_Shrink :: "nat \<Rightarrow> buffer \<Rightarrow> buffer result" where
  "Buffer_Shrink reserve b =
     bindr (Buffer_new kinitial_size) (\<lambda>other0.
     bindr (Buffer_EnsureWritableBytes (szadd (Buffer_ReadableBytes b) reserve) other0) (\<lambda>other1.
     bindr (Buffer_Append_piece (Buffer_toStringPiece b) other1) (\<lambda>other2.
     Inr (fst (Buffer_Swap b other2)))))"

definition extrabuf_size :: nat where
  "extrabuf_size = 65536"

definition readv_capacity :: "buffer \<Rightarrow> nat" where
  "readv_capacity b =
     (let writable = Buffer_WritableBytes b
      in if writable < extrabuf_size then writable + extrabuf_size else writable)"

definition Buffer_ReadFd :: "int + char list \<Rightarrow> buffer \<Rightarrow> (int \<times> int option \<times> buffer) result" where
  "Buffer_ReadFd readv b =
     (let writable = Buffer_WritableBytes b
      in case readv of
           Inl err \<Rightarrow> Inr (-1, Some err, b)
         | Inr data \<Rightarrow>
             let n = length data;
                 b' = b\<lparr>buf_buffer := overwrite (buf_buffer b) (buf_writer_index b) (take writable data)\<rparr>
             in if n \<le> writable
                then Inr (int n, None, b'\<lparr>buf_writer_index := szadd (buf_writer_index b) n\<rparr>)
                else bindr (Buffer_Append (drop writable data) (n - writable)
                             (b'\<lparr>buf_writer_index := length (buf_buffer b')\<rparr>))
                       (\<lambda>b''. Inr (int n, None, b'')))"

section \<open>The contract of a byte queue\<close>

datatype queue_op = Put "char list" | Get nat

fun queue_run ::
  "(char list \<Rightarrow> 'b \<Rightarrow> 'b result) \<Rightarrow> (nat \<Rightarrow> 'b \<Rightarrow> 'b result) \<Rightarrow> queue_op list \<Rightarrow> 'b \<Rightarrow> 'b result"
where
  "queue_run put get [] b = Inr b"
| "queue_run put get (Put d # ops) b = bindr (put d b) (queue_run put get ops)"
| "queue_run put get (Get n # ops) b = bindr (get n b) (queue_run put get ops)"

fun puts :: "queue_op list \<Rightarrow> char list" where
  "puts [] = []"
| "puts (Put d # ops) = d @ puts ops"
| "puts (Get n # ops) = puts ops"

fun gets :: "queue_op list \<Rightarrow> nat" where
  "gets [] = 0"
| "gets (Put d # ops) = gets ops"
| "gets (Get n # ops) = n + gets ops"

text \<open>\<open>queue_fits n ops\<close>: with \<open>n\<close> bytes in the queue, no \<open>Get\<close> of the run asks for more than there is.\<close>

fun queue_fits :: "nat \<Rightarrow> queue_op list \<Rightarrow> bool" where
  "queue_fits n [] \<longleftrightarrow> True"
| "queue_fits n (Put d # ops) \<longleftrightarrow> queue_fits (n + length d) ops"
| "queue_fits n (Get k # ops) \<longleftrightarrow> k \<le> n \<and> queue_fits (n - k) ops"

locale byte_queue =
  fixes invar :: "'b \<Rightarrow> bool"
    and content :: "'b \<Rightarrow> char list"
    and room :: "nat \<Rightarrow> 'b \<Rightarrow> bool"
    and put :: "char list \<Rightarrow> 'b \<Rightarrow> 'b result"
    and get :: "nat \<Rightarrow> 'b \<Rightarrow> 'b result"
  assumes put_ok: "invar b \<Longrightarrow> room (length d) b \<Longrightarrow>
      \<exists>b'. put d b = Inr b' \<and> invar b' \<and> content b' = content b @ d"
    and put_room: "invar b \<Longrightarrow> room (length d + n) b \<Longrightarrow> put d b = Inr b' \<Longrightarrow> room n b'"
    and room_mono: "room n b \<Longrightarrow> m \<le> n \<Longrightarrow> room m b"
    and get_ok: "invar b \<Longrightarrow> n \<le> length (content b) \<Longrightarrow>
      \<exists>b'. get n b = Inr b' \<and> invar b' \<and> content b' = drop n (content b)"
    and get_room: "invar b \<Longrightarrow> room m b \<Longrightarrow> get n b = Inr b' \<Longrightarrow> room m b'"
    and get_over: "invar b \<Longrightarrow> length (content b) < n \<Longrightarrow> get n b = Inl Assert_failed"
begin

lemma get_cases:
  assumes "invar b" and "get n b = Inr b'"
  shows "n \<le> length (content b)" and "invar b'" and "content b' = drop n (content b)"
proof -
  show le: "n \<le> length (content b)"
    using assms get_over [of b n] by (cases "length (content b) < n") auto
  show "invar b'" and "content b' = drop n (content b)"
    using get_ok [OF assms(1) le] assms(2) by auto
qed

lemma put_cases:
  assumes "invar b" and "room (length d) b" and "put d b = Inr b'"
  shows "invar b'" and "content b' = content b @ d"
  using put_ok [OF assms(1,2)] assms(3) by auto

lemma run_fifo:
  assumes "invar b" and "room (length (puts ops)) b" and "queue_fits (length (content b)) ops"
  shows "\<exists>b'. queue_run put get ops b = Inr b' \<and> invar b' \<and>
    content b' = drop (gets ops) (content b @ puts ops)"
  using assms
proof (induction ops arbitrary: b)
  case Nil
  then show ?case by simp
next
  case (Cons op ops)
  show ?case
  proof (cases op)
    case (Put d)
    from Cons.prems(2) Put have room: "room (length d + length (puts ops)) b" by simp
    then have "room (length d) b" by (rule room_mono) simp
    from put_ok [OF Cons.prems(1) this] obtain c where
      c: "put d b = Inr c" "invar c" "content c = content b @ d" by blast
    have "queue_fits (length (content c)) ops" using Cons.prems(3) Put c(3) by simp
    from Cons.IH [OF c(2) put_room [OF Cons.prems(1) room c(1)] this] c Put
    show ?thesis by simp
  next
    case (Get n)
    with Cons.prems(3) have le: "n \<le> length (content b)" by simp
    from get_ok [OF Cons.prems(1) le] obtain c where
      c: "get n b = Inr c" "invar c" "content c = drop n (content b)" by blast
    from Cons.prems(2) Get have "room (length (puts ops)) b" by simp
    from Cons.IH [OF c(2) get_room [OF Cons.prems(1) this c(1)]] Cons.prems(3) c le Get
    show ?thesis by (simp add: add.commute)
  qed
qed

lemma run_over:
  assumes "invar b" and "room (length (puts ops)) b" and "\<not> queue_fits (length (content b)) ops"
  shows "queue_run put get ops b = Inl Assert_failed"
  using assms
proof (induction ops arbitrary: b)
  case (Cons op ops)
  show ?case
  proof (cases op)
    case (Put d)
    from Cons.prems(2) Put have room: "room (length d + length (puts ops)) b" by simp
    then have "room (length d) b" by (rule room_mono) simp
    from put_ok [OF Cons.prems(1) this] obtain c where
      c: "put d b = Inr c" "invar c" "content c = content b @ d" by blast
    from Cons.IH [OF c(2) put_room [OF Cons.prems(1) room c(1)]] Cons.prems(3) c Put
    show ?thesis by simp
  next
    case (Get n)
    show ?thesis
    proof (cases "n \<le> length (content b)")
      case True
      from get_ok [OF Cons.prems(1) True] obtain c where
        c: "get n b = Inr c" "invar c" "content c = drop n (content b)" by blast
      from Cons.prems(2) Get have "room (length (puts ops)) b" by simp
      from Cons.IH [OF c(2) get_room [OF Cons.prems(1) this c(1)]] Cons.prems(3) c True Get
      show ?thesis by simp
    qed (use Get get_over [OF Cons.prems(1)] in simp)
  qed
qed simp

end

section \<open>Well-formed buffers\<close>

definition buf_inv :: "buffer \<Rightarrow> bool" where
  "buf_inv b \<longleftrightarrow> buf_reader_index b \<le> buf_writer_index b \<and>
     buf_writer_index b \<le> length (buf_buffer b) \<and>
     kcheap_prepend \<le> length (buf_buffer b) \<and> length (buf_buffer b) \<le> max_vector"

definition readable :: "buffer \<Rightarrow> char list" where
  "readable b = slice (buf_buffer b) (buf_reader_index b) (buf_writer_index b)"

definition buf_room :: "nat \<Rightarrow> buffer \<Rightarrow> bool" where
  "buf_room n b \<longleftrightarrow> max kcheap_prepend (buf_writer_index b) + n \<le> max_vector"

definition Buffer_put :: "char list \<Rightarrow> buffer \<Rightarrow> buffer result" where
  "Buffer_put d b = Buffer_Append d (length d) b"

section \<open>Byte order lemmas\<close>

lemma bswap_bound: "bswap n k < 256 ^ n"
  using le_val_bound [of "rev (le_bytes n k)"] by (simp add: bswap_def)

lemma le_bytes_bswap: "le_bytes n (bswap n k) = rev (le_bytes n k)"
  by (simp add: bswap_def le_bytes_le_val)

lemma bswap_le_val: "length bs = n \<Longrightarrow> bswap n (le_val bs) = le_val (rev bs)"
  by (simp add: bswap_def le_bytes_le_val)

lemma unat_of_nat_bytes:
  "k < 256 ^ n \<Longrightarrow> LENGTH('a::len) = 8 * n \<Longrightarrow> unat (of_nat k :: 'a word) = k"
  by (simp add: unat_of_nat take_bit_nat_eq_self power_mult)

lemma swap_mem:
  fixes w :: "'a::len word"
  assumes "LENGTH('a) = 8 * n"
  shows "le_bytes n (unat (of_nat (bswap n (unat w)) :: 'a word)) = rev (le_bytes n (unat w))"
  by (simp only: unat_of_nat_bytes [OF bswap_bound assms] le_bytes_bswap)

lemma unswap_mem:
  assumes "LENGTH('a::len) = 8 * n" and "length bs = n"
  shows "(of_nat (bswap n (unat (of_nat (le_val bs) :: 'a word))) :: 'a word) = of_nat (le_val (rev bs))"
proof -
  have "unat (of_nat (le_val bs) :: 'a word) = le_val bs"
    using unat_of_nat_bytes [OF _ assms(1)] le_val_bound [of bs] assms(2) by simp
  then show ?thesis using assms(2) by (simp add: bswap_le_val)
qed

lemma le_val_le_bytes_word:
  fixes w :: "'a::len word"
  assumes "LENGTH('a) = 8 * n"
  shows "of_nat (le_val (le_bytes n (unat w))) = w"
proof -
  have "unat w < 256 ^ n" using unsigned_less [of w] assms by (simp add: power_mult)
  then show ?thesis by (simp add: le_val_le_bytes)
qed

section \<open>Buffer lemmas\<close>

named_theorems buf_sizes "the size functions of a well-formed buffer"

lemma buf_invD:
  assumes "buf_inv b"
  shows "buf_reader_index b \<le> buf_writer_index b" "buf_writer_index b \<le> length (buf_buffer b)"
    "kcheap_prepend \<le> length (buf_buffer b)" "length (buf_buffer b) \<le> max_vector"
    "length (buf_buffer b) < size_limit"
  using assms max_vector_lt_limit by (auto simp: buf_inv_def simp del: max_vector_lt_limit)

lemma ReadableBytes_inv [buf_sizes]:
  "buf_inv b \<Longrightarrow> Buffer_ReadableBytes b = buf_writer_index b - buf_reader_index b"
  unfolding Buffer_ReadableBytes_def using buf_invD [of b] by (intro szsub_in_range) auto

lemma WritableBytes_inv [buf_sizes]:
  "buf_inv b \<Longrightarrow> Buffer_WritableBytes b = length (buf_buffer b) - buf_writer_index b"
  unfolding Buffer_WritableBytes_def using buf_invD [of b] by (intro szsub_in_range) auto

lemma length_readable: "buf_inv b \<Longrightarrow> length (readable b) = buf_writer_index b - buf_reader_index b"
  using buf_invD [of b] by (simp add: readable_def)

lemma ReadableBytes_readable: "buf_inv b \<Longrightarrow> Buffer_ReadableBytes b = length (readable b)"
  by (simp add: ReadableBytes_inv length_readable)

lemma take_readable:
  "buf_inv b \<Longrightarrow> n \<le> length (readable b) \<Longrightarrow>
   take n (drop (Buffer_Peek b) (buf_buffer b)) = take n (readable b)"
  using take_slice [of n "buf_writer_index b" "buf_reader_index b" "buf_buffer b"]
  by (simp add: readable_def length_readable [unfolded readable_def] Buffer_Peek_def) (simp add: slice_def)

lemma Buffer_new_ok:
  assumes "kcheap_prepend + n \<le> max_vector"
  shows "\<exists>b. Buffer_new n = Inr b \<and> buf_inv b \<and> readable b = [] \<and>
    buf_reader_index b = kcheap_prepend \<and> buf_writer_index b = kcheap_prepend \<and>
    length (buf_buffer b) = kcheap_prepend + n"
proof -
  let ?b = "\<lparr>buf_buffer = replicate (kcheap_prepend + n) (CHR 0x00),
              buf_reader_index = kcheap_prepend, buf_writer_index = kcheap_prepend\<rparr>"
  have sz: "szadd kcheap_prepend n = kcheap_prepend + n"
    using assms max_vector_lt_limit by (intro szadd_in_range) linarith
  have inv: "buf_inv ?b" using assms by (simp add: buf_inv_def)
  then have "Buffer_new n = Inr ?b"
    using assms unfolding Buffer_new_def sz
    by (simp add: vresize_def Let_def buf_sizes Buffer_PrependableBytes_def del: replicate_add)
  moreover have "readable ?b = []" by (simp add: readable_def)
  ultimately show ?thesis using inv by (intro exI [of _ ?b]) simp
qed

lemma MakeSpace_ok:
  assumes inv: "buf_inv b" and short: "Buffer_WritableBytes b < len" and room: "buf_room len b"
  shows "\<exists>b'. Buffer_MakeSpace len b = Inr b' \<and> buf_inv b' \<and> readable b' = readable b \<and>
    len \<le> Buffer_WritableBytes b' \<and> buf_writer_index b' \<le> buf_writer_index b"
proof -
  let ?r = "buf_reader_index b" and ?w = "buf_writer_index b" and ?v = "buf_buffer b"
  note D = buf_invD [OF inv]
  have wl: "?w + len \<le> max_vector" using room by (simp add: buf_room_def)
  have szs: "szadd len kcheap_prepend = len + kcheap_prepend"
    "szadd (Buffer_WritableBytes b) (Buffer_PrependableBytes b) = length ?v - ?w + ?r"
    "szadd ?w len = ?w + len"
    using wl D room unfolding WritableBytes_inv [OF inv] Buffer_PrependableBytes_def buf_room_def
    by (intro szadd_in_range; simp add: max_vector_def size_limit_def kcheap_prepend_def)+
  have short': "length ?v < ?w + len" using short D by (simp add: buf_sizes inv)
  show ?thesis
  proof (cases "length ?v - ?w + ?r < len + kcheap_prepend")
    case True
    let ?b = "b\<lparr>buf_buffer := ?v @ replicate (?w + len - length ?v) (CHR 0x00)\<rparr>"
    have inv': "buf_inv ?b" using D wl short' by (simp add: buf_inv_def)
    have "Buffer_MakeSpace len b = Inr ?b"
      using True wl short' by (simp add: Buffer_MakeSpace_def szs vresize_def)
    moreover have "readable ?b = readable b" using D by (simp add: readable_def slice_append_left)
    moreover have "len \<le> Buffer_WritableBytes ?b" using short' unfolding WritableBytes_inv [OF inv'] by simp
    ultimately show ?thesis using inv' by (intro exI [of _ ?b]) simp
  next
    case False
    let ?b = "b\<lparr>buf_buffer := overwrite ?v kcheap_prepend (readable b),
                 buf_reader_index := kcheap_prepend, buf_writer_index := kcheap_prepend + (?w - ?r)\<rparr>"
    have lt: "kcheap_prepend < ?r" using False short' D by linarith
    have fits: "kcheap_prepend + length (readable b) \<le> length ?v"
      using lt D by (simp add: length_readable inv)
    have inv': "buf_inv ?b" using D lt fits by (simp add: buf_inv_def length_readable inv)
    have sz: "szadd kcheap_prepend (Buffer_ReadableBytes b) = kcheap_prepend + (?w - ?r)"
      using D lt unfolding ReadableBytes_inv [OF inv] by (intro szadd_in_range) linarith
    have "Buffer_MakeSpace len b = Inr ?b"
      using False lt ReadableBytes_inv [OF inv'] ReadableBytes_inv [OF inv]
      unfolding Buffer_MakeSpace_def Let_def sz szs readable_def by simp
    moreover have "readable ?b = readable b"
      using slice_overwrite_same [OF fits] by (simp add: readable_def length_readable [OF inv, unfolded readable_def])
    moreover have "len \<le> Buffer_WritableBytes ?b"
      using False lt D fits unfolding WritableBytes_inv [OF inv'] by simp
    ultimately show ?thesis using inv' lt D by (intro exI [of _ ?b]) simp
  qed
qed

lemma EnsureWritableBytes_ok:
  assumes inv: "buf_inv b" and room: "buf_room len b"
  shows "\<exists>b'. Buffer_EnsureWritableBytes len b = Inr b' \<and> buf_inv b' \<and> readable b' = readable b \<and>
    len \<le> Buffer_WritableBytes b' \<and> buf_writer_index b' \<le> buf_writer_index b"
proof (cases "Buffer_WritableBytes b < len")
  case True
  from MakeSpace_ok [OF inv True room] True show ?thesis
    by (auto simp: Buffer_EnsureWritableBytes_def)
next
  case False
  then show ?thesis using inv by (simp add: Buffer_EnsureWritableBytes_def)
qed

lemma hasWritten_ok:
  assumes inv: "buf_inv b" and fits: "length d \<le> Buffer_WritableBytes b"
  defines "b1 \<equiv> b\<lparr>buf_buffer := overwrite (buf_buffer b) (buf_writer_index b) d\<rparr>"
  shows "\<exists>b'. Buffer_hasWritten (length d) b1 = Inr b' \<and> buf_inv b' \<and> readable b' = readable b @ d \<and>
    buf_writer_index b' = buf_writer_index b + length d"
proof -
  note D = buf_invD [OF inv]
  have le: "buf_writer_index b + length d \<le> length (buf_buffer b)"
    using fits D by (simp add: buf_sizes inv)
  have inv1: "buf_inv b1" using inv le by (simp add: buf_inv_def b1_def)
  let ?b = "b1\<lparr>buf_writer_index := buf_writer_index b + length d\<rparr>"
  have "szadd (buf_writer_index b1) (length d) = buf_writer_index b + length d"
    using le D by (simp add: szadd_in_range b1_def)
  moreover have "Buffer_WritableBytes b1 = Buffer_WritableBytes b"
    using inv inv1 le by (simp add: buf_sizes b1_def)
  ultimately have "Buffer_hasWritten (length d) b1 = Inr ?b"
    using fits by (simp add: Buffer_hasWritten_def)
  moreover have "buf_inv ?b" using inv le by (simp add: buf_inv_def b1_def)
  moreover have "readable ?b = readable b @ d"
    using slice_append_overwrite [OF D(1) le] by (simp add: readable_def b1_def)
  ultimately show ?thesis by auto
qed

lemma Append_ok:
  assumes inv: "buf_inv b" and room: "buf_room (length d) b"
  shows "\<exists>b'. Buffer_put d b = Inr b' \<and> buf_inv b' \<and> readable b' = readable b @ d \<and>
    buf_writer_index b' \<le> buf_writer_index b + length d"
proof -
  obtain b1 where b1: "Buffer_EnsureWritableBytes (length d) b = Inr b1" "buf_inv b1"
    "readable b1 = readable b" "length d \<le> Buffer_WritableBytes b1"
    "buf_writer_index b1 \<le> buf_writer_index b"
    using EnsureWritableBytes_ok [OF assms] by blast
  from hasWritten_ok [OF b1(2,4)] b1 show ?thesis
    by (auto simp: Buffer_put_def Buffer_Append_def Buffer_BeginWrite_def)
qed

lemma RetrieveAll_inv:
  assumes "buf_inv b"
  shows "buf_inv (Buffer_RetrieveAll b)" and "readable (Buffer_RetrieveAll b) = []"
  using assms by (simp_all add: Buffer_RetrieveAll_def buf_inv_def readable_def)

lemma Retrieve_ok:
  assumes inv: "buf_inv b" and le: "n \<le> length (readable b)"
  shows "\<exists>b'. Buffer_Retrieve n b = Inr b' \<and> buf_inv b' \<and> readable b' = drop n (readable b) \<and>
    buf_writer_index b' \<le> max kcheap_prepend (buf_writer_index b)"
proof (cases "n < length (readable b)")
  case True
  note D = buf_invD [OF inv]
  let ?b = "b\<lparr>buf_reader_index := buf_reader_index b + n\<rparr>"
  have lt: "buf_reader_index b + n < buf_writer_index b" using True inv by (simp add: length_readable)
  then have "szadd (buf_reader_index b) n = buf_reader_index b + n"
    using D by (intro szadd_in_range) linarith
  then have "Buffer_Retrieve n b = Inr ?b"
    using True inv by (simp add: Buffer_Retrieve_def ReadableBytes_readable)
  moreover have "buf_inv ?b" using inv lt by (simp add: buf_inv_def)
  moreover have "readable ?b = drop n (readable b)" by (simp add: readable_def drop_slice)
  ultimately show ?thesis by (intro exI [of _ ?b]) simp
next
  case False
  then have "Buffer_Retrieve n b = Inr (Buffer_RetrieveAll b)"
    using inv le by (simp add: Buffer_Retrieve_def ReadableBytes_readable)
  moreover have "buf_writer_index (Buffer_RetrieveAll b) = kcheap_prepend"
    by (simp add: Buffer_RetrieveAll_def)
  ultimately show ?thesis using RetrieveAll_inv [OF inv] False by auto
qed

lemma Retrieve_over:
  "buf_inv b \<Longrightarrow> length (readable b) < n \<Longrightarrow> Buffer_Retrieve n b = Inl Assert_failed"
  by (simp add: Buffer_Retrieve_def ReadableBytes_readable)

interpretation bq: byte_queue buf_inv readable buf_room Buffer_put Buffer_Retrieve
proof (unfold_locales, goal_cases)
  case (1 b d) then show ?case using Append_ok [of b d] by blast
next
  case (2 b d n b')
  then have "buf_room (length d) b" by (simp add: buf_room_def)
  with 2 Append_ok [of b d] have "buf_writer_index b' \<le> buf_writer_index b + length d" by auto
  with 2 show ?case by (simp add: buf_room_def)
next
  case (3 n b m) then show ?case by (simp add: buf_room_def)
next
  case (4 b n) then show ?case using Retrieve_ok [of b n] by blast
next
  case (5 b m n b')
  then have "n \<le> length (readable b)" using Retrieve_over [of b n] by (cases "length (readable b) < n") auto
  with 5 Retrieve_ok [of b n] have "buf_writer_index b' \<le> max kcheap_prepend (buf_writer_index b)" by auto
  with 5 show ?case by (simp add: buf_room_def)
next
  case (6 b n) then show ?case by (rule Retrieve_over)
qed

lemma put_room_ok: "buf_inv b \<Longrightarrow> buf_room (length d) b \<Longrightarrow> ok (Buffer_put d b)"
  using Append_ok [of b d] by auto

lemma Append_take: "len \<le> length d \<Longrightarrow> Buffer_Append d len b = Buffer_put (take len d) b"
  by (simp add: Buffer_put_def Buffer_Append_def min_def)

lemma Prepend_ok:
  assumes inv: "buf_inv b" and le: "length d \<le> buf_reader_index b"
  shows "\<exists>b'. Buffer_Prepend d b = Inr b' \<and> buf_inv b' \<and> readable b' = d @ readable b"
proof -
  note D = buf_invD [OF inv]
  let ?b = "b\<lparr>buf_buffer := overwrite (buf_buffer b) (buf_reader_index b - length d) d,
               buf_reader_index := buf_reader_index b - length d\<rparr>"
  have "szsub (buf_reader_index b) (length d) = buf_reader_index b - length d"
    using le D by (intro szsub_in_range) auto
  then have "Buffer_Prepend d b = Inr ?b"
    using le by (simp add: Buffer_Prepend_def Buffer_PrependableBytes_def)
  moreover have "buf_inv ?b" using inv le by (auto simp: buf_inv_def)
  moreover have "readable ?b = d @ readable b"
    using slice_prepend_overwrite [OF le D(1,2)] by (simp add: readable_def)
  ultimately show ?thesis by auto
qed

lemma unwrite_ok:
  assumes inv: "buf_inv b" and le: "n \<le> length (readable b)"
  shows "\<exists>b'. Buffer_unwrite n b = Inr b' \<and> buf_inv b' \<and>
    readable b' = take (length (readable b) - n) (readable b)"
proof -
  note D = buf_invD [OF inv]
  let ?b = "b\<lparr>buf_writer_index := buf_writer_index b - n\<rparr>"
  have "szsub (buf_writer_index b) n = buf_writer_index b - n"
    using le D by (intro szsub_in_range) (auto simp: length_readable inv)
  then have "Buffer_unwrite n b = Inr ?b"
    using le by (simp add: Buffer_unwrite_def ReadableBytes_readable inv)
  moreover have "buf_inv ?b" using inv le D unfolding length_readable [OF inv] buf_inv_def by auto
  moreover have "readable ?b = take (length (readable b) - n) (readable b)"
    using le D by (simp add: length_readable inv) (simp add: readable_def slice_def min_def add.commute)
  ultimately show ?thesis by auto
qed

text \<open>The integers of the wire format: the most significant byte first.\<close>

definition be_bytes :: "nat \<Rightarrow> nat \<Rightarrow> char list" where
  "be_bytes n k = rev (le_bytes n k)"

lemma length_be_bytes [simp]: "length (be_bytes n k) = n"
  by (simp add: be_bytes_def)

lemmas endian_defs = HostToNetwork64_def HostToNetwork32_def HostToNetwork16_def
  NetworkToHost64_def NetworkToHost32_def NetworkToHost16_def

lemma AppendInt_put:
  "Buffer_AppendInt64 x64 = Buffer_put (be_bytes 8 (unat x64))"
  "Buffer_AppendInt32 x32 = Buffer_put (be_bytes 4 (unat x32))"
  "Buffer_AppendInt16 x16 = Buffer_put (be_bytes 2 (unat x16))"
  "Buffer_AppendInt8 x8 = Buffer_put (be_bytes 1 (unat x8))"
  unfolding Buffer_AppendInt64_def Buffer_AppendInt32_def Buffer_AppendInt16_def
    Buffer_AppendInt8_def endian_defs Let_def be_bytes_def
  by (simp_all add: swap_mem Buffer_put_def fun_eq_iff)

lemma PrependInt_prepend:
  "Buffer_PrependInt64 x64 = Buffer_Prepend (be_bytes 8 (unat x64))"
  "Buffer_PrependInt32 x32 = Buffer_Prepend (be_bytes 4 (unat x32))"
  "Buffer_PrependInt16 x16 = Buffer_Prepend (be_bytes 2 (unat x16))"
  "Buffer_PrependInt8 x8 = Buffer_Prepend (be_bytes 1 (unat x8))"
  unfolding Buffer_PrependInt64_def Buffer_PrependInt32_def Buffer_PrependInt16_def
    Buffer_PrependInt8_def endian_defs Let_def be_bytes_def
  by (simp_all add: swap_mem)

lemma unswap_be:
  fixes x :: "'a::len word"
  assumes "LENGTH('a) = 8 * n"
  shows "of_nat (bswap n (unat (of_nat (le_val (be_bytes n (unat x))) :: 'a word))) = x"
  by (simp add: unswap_mem [OF assms] le_val_le_bytes_word [OF assms] be_bytes_def)

lemma PeekInt_be:
  assumes inv: "buf_inv b"
  shows "readable b = be_bytes 8 (unat x64) @ rest \<Longrightarrow> Buffer_PeekInt64 b = Inr x64"
    and "readable b = be_bytes 4 (unat x32) @ rest \<Longrightarrow> Buffer_PeekInt32 b = Inr x32"
    and "readable b = be_bytes 2 (unat x16) @ rest \<Longrightarrow> Buffer_PeekInt16 b = Inr x16"
    and "readable b = be_bytes 1 (unat x8) @ rest \<Longrightarrow> Buffer_PeekInt8 b = Inr x8"
  using take_readable [OF inv, of 8] take_readable [OF inv, of 4] take_readable [OF inv, of 2]
    take_readable [OF inv, of 1] le_val_le_bytes_word [of 1 x8] unswap_be [of 8 x64] unswap_be [of 4 x32] unswap_be [of 2 x16]
  by (simp_all add: Buffer_PeekInt64_def Buffer_PeekInt32_def Buffer_PeekInt16_def
      Buffer_PeekInt8_def endian_defs ReadableBytes_readable inv be_bytes_def)

lemma ReadInt_be:
  assumes inv: "buf_inv b"
  shows "readable b = be_bytes 8 (unat x64) @ rest \<Longrightarrow>
      \<exists>b'. Buffer_ReadInt64 b = Inr (x64, b') \<and> buf_inv b' \<and> readable b' = rest"
    and "readable b = be_bytes 4 (unat x32) @ rest \<Longrightarrow>
      \<exists>b'. Buffer_ReadInt32 b = Inr (x32, b') \<and> buf_inv b' \<and> readable b' = rest"
    and "readable b = be_bytes 2 (unat x16) @ rest \<Longrightarrow>
      \<exists>b'. Buffer_ReadInt16 b = Inr (x16, b') \<and> buf_inv b' \<and> readable b' = rest"
    and "readable b = be_bytes 1 (unat x8) @ rest \<Longrightarrow>
      \<exists>b'. Buffer_ReadInt8 b = Inr (x8, b') \<and> buf_inv b' \<and> readable b' = rest"
  using bq.get_ok [OF inv, of 8] bq.get_ok [OF inv, of 4] bq.get_ok [OF inv, of 2] bq.get_ok [OF inv, of 1]
  by (auto simp: Buffer_ReadInt64_def Buffer_ReadInt32_def Buffer_ReadInt16_def Buffer_ReadInt8_def
      Buffer_RetrieveInt64_def Buffer_RetrieveInt32_def Buffer_RetrieveInt16_def
      Buffer_RetrieveInt8_def PeekInt_be [OF inv])

lemma ReadFd_ok:
  assumes inv: "buf_inv b" and cap: "length d \<le> readv_capacity b"
    and room: "max kcheap_prepend (length (buf_buffer b)) + extrabuf_size \<le> max_vector"
  shows "\<exists>b'. Buffer_ReadFd (Inr d) b = Inr (int (length d), None, b') \<and> buf_inv b' \<and>
    readable b' = readable b @ d"
proof -
  note D = buf_invD [OF inv]
  let ?w = "Buffer_WritableBytes b"
  let ?d1 = "take ?w d"
  let ?b1 = "b\<lparr>buf_buffer := overwrite (buf_buffer b) (buf_writer_index b) ?d1\<rparr>"
  obtain c where c: "Buffer_hasWritten (length ?d1) ?b1 = Inr c" "buf_inv c"
    "readable c = readable b @ ?d1" "buf_writer_index c = buf_writer_index b + length ?d1"
    using hasWritten_ok [OF inv, of ?d1] by auto
  then have c_def: "c = ?b1\<lparr>buf_writer_index := szadd (buf_writer_index b) (length ?d1)\<rparr>"
    by (simp add: Buffer_hasWritten_def c_assert_def split: if_splits)
  show ?thesis
  proof (cases "length d \<le> ?w")
    case True
    then show ?thesis using c c_def by (simp add: Buffer_ReadFd_def Let_def)
  next
    case False
    have len1: "length (overwrite (buf_buffer b) (buf_writer_index b) ?d1) = length (buf_buffer b)"
      using False D by (simp add: buf_sizes inv)
    have full: "buf_writer_index b + length ?d1 = length (buf_buffer b)"
      using False D by (simp add: buf_sizes inv)
    then have c_full: "c = ?b1\<lparr>buf_writer_index := length (buf_buffer b)\<rparr>"
      using c_def c(4) by simp
    have "length (drop ?w d) \<le> extrabuf_size"
      using cap False by (auto simp: readv_capacity_def Let_def split: if_splits)
    then have "buf_room (length (drop ?w d)) c"
      using room by (simp add: buf_room_def c_full)
    from Append_ok [OF c(2) this] obtain e where
      "Buffer_put (drop ?w d) c = Inr e" "buf_inv e" "readable e = readable c @ drop ?w d" by blast
    moreover have "readable c @ drop ?w d = readable b @ d" using c(3) by simp
    moreover have "Buffer_Append (drop ?w d) (length d - ?w) (?b1\<lparr>buf_writer_index := length (buf_buffer ?b1)\<rparr>)
        = Buffer_put (drop ?w d) c"
      using len1 by (simp add: Buffer_put_def c_full)
    ultimately show ?thesis using False by (simp add: Buffer_ReadFd_def Let_def)
  qed
qed

text \<open>How far the vector grows.\<close>

lemma MakeSpace_length:
  assumes inv: "buf_inv b" and m: "Buffer_MakeSpace len b = Inr b'" and room: "buf_room len b"
  shows "length (buf_buffer b') \<le> length (buf_buffer b) + len"
proof (cases "szadd (Buffer_WritableBytes b) (Buffer_PrependableBytes b) < szadd len kcheap_prepend")
  case True
  have "szadd (buf_writer_index b) len = buf_writer_index b + len"
    using room by (intro szadd_in_range) (auto simp: buf_room_def max_vector_def size_limit_def)
  then show ?thesis using True m buf_invD [OF inv]
    by (auto simp: Buffer_MakeSpace_def vresize_def split: if_splits)
next
  case False
  then have "kcheap_prepend < buf_reader_index b" and
    "buf_buffer b' = overwrite (buf_buffer b) kcheap_prepend (slice (buf_buffer b) (buf_reader_index b) (buf_writer_index b))"
    using m by (auto simp: Buffer_MakeSpace_def c_assert_def Let_def split: if_splits dest: arg_cong [where f = buf_buffer])
  then show ?thesis using buf_invD [OF inv] by simp
qed

lemma Append_length:
  assumes inv: "buf_inv b" and a: "Buffer_put d b = Inr b'" and room: "buf_room (length d) b"
  shows "length (buf_buffer b') \<le> length (buf_buffer b) + length d"
proof -
  obtain e where e: "Buffer_EnsureWritableBytes (length d) b = Inr e" "buf_inv e" "length d \<le> Buffer_WritableBytes e"
    using EnsureWritableBytes_ok [OF inv room] by blast
  have "length (buf_buffer e) \<le> length (buf_buffer b) + length d"
  proof (cases "Buffer_WritableBytes b < length d")
    case True
    then show ?thesis using MakeSpace_length [OF inv _ room] e
      by (cases "Buffer_MakeSpace (length d) b") (auto simp: Buffer_EnsureWritableBytes_def c_assert_def split: if_splits)
  qed (use e in \<open>auto simp: Buffer_EnsureWritableBytes_def c_assert_def split: if_splits\<close>)
  moreover have "buf_writer_index e + length d \<le> length (buf_buffer e)"
    using e(2,3) buf_invD [OF e(2)] by (simp add: buf_sizes)
  then have "length (buf_buffer b') = length (buf_buffer e)"
    using a e(1) by (auto simp: Buffer_put_def Buffer_Append_def Buffer_hasWritten_def Buffer_BeginWrite_def c_assert_def split: if_splits)
  ultimately show ?thesis by simp
qed

lemma ReadFd_length:
  assumes inv: "buf_inv b" and cap: "length d \<le> readv_capacity b" and r: "Buffer_ReadFd (Inr d) b = Inr (n, e, b')"
    and room: "max kcheap_prepend (length (buf_buffer b)) + extrabuf_size \<le> max_vector"
  shows "length (buf_buffer b') \<le> length (buf_buffer b) + length d"
proof -
  let ?w = "Buffer_WritableBytes b"
  let ?v = "overwrite (buf_buffer b) (buf_writer_index b) (take ?w d)"
  have v: "length ?v = length (buf_buffer b)" using buf_invD [OF inv] by (simp add: buf_sizes inv)
  show ?thesis
  proof (cases "length d \<le> ?w")
    case True
    then show ?thesis using r v by (auto simp: Buffer_ReadFd_def Let_def)
  next
    case False
    let ?c = "b\<lparr>buf_buffer := ?v, buf_writer_index := length ?v\<rparr>"
    have c: "buf_inv ?c" using buf_invD [OF inv] v by (simp add: buf_inv_def)
    have "length (drop ?w d) \<le> extrabuf_size"
      using cap False by (auto simp: readv_capacity_def Let_def split: if_splits)
    then have "buf_room (length (drop ?w d)) ?c" using room v by (simp add: buf_room_def)
    moreover have "Buffer_put (drop ?w d) ?c = Inr b'"
      using r False by (auto simp: Buffer_ReadFd_def Let_def Buffer_put_def bindr_eq_Inr)
    ultimately show ?thesis using Append_length [OF c] v by fastforce
  qed
qed

lemma FindCRLF_spec:
  assumes inv: "buf_inv b"
  shows "Buffer_FindCRLF b =
    (let k = find_sub kCRLF (readable b)
     in if k = length (readable b) then None else Some (buf_reader_index b + k))"
  using buf_invD [OF inv] length_readable [OF inv]
  by (auto simp: Buffer_FindCRLF_def Buffer_FindCRLF_from_def Buffer_Peek_def Buffer_BeginWrite_def
      Let_def readable_def [symmetric])

lemma Shrink_ok:
  assumes inv: "buf_inv b" and small: "length (readable b) < 2 ^ 31"
    and room: "length (readable b) + reserve + kinitial_size + kcheap_prepend \<le> max_vector"
  shows "\<exists>b'. Buffer_Shrink reserve b = Inr b' \<and> buf_inv b' \<and> readable b' = readable b \<and>
    reserve \<le> Buffer_WritableBytes b'"
proof -
  let ?n = "length (readable b)"
  have "kcheap_prepend + kinitial_size \<le> max_vector" using room by simp
  from Buffer_new_ok [OF this] obtain o0 where o0: "Buffer_new kinitial_size = Inr o0" "buf_inv o0"
    "readable o0 = []" "buf_writer_index o0 = kcheap_prepend" by auto
  have sz: "szadd (Buffer_ReadableBytes b) reserve = ?n + reserve"
    using room unfolding ReadableBytes_readable [OF inv]
    by (intro szadd_in_range) (simp add: max_vector_def size_limit_def)
  have "buf_room (?n + reserve) o0" using room o0(4) by (simp add: buf_room_def)
  from EnsureWritableBytes_ok [OF o0(2) this] obtain o1 where
    o1: "Buffer_EnsureWritableBytes (?n + reserve) o0 = Inr o1" "buf_inv o1" "readable o1 = []"
      "?n + reserve \<le> Buffer_WritableBytes o1" using o0(3) by auto
  have "?n \<le> length (drop (Buffer_Peek b) (buf_buffer b))"
    using length_readable [OF inv] buf_invD [OF inv] by (simp add: Buffer_Peek_def)
  then have piece: "Buffer_Append_piece (Buffer_toStringPiece b) o1 = Buffer_put (readable b) o1"
    using small take_readable [OF inv order_refl]
    by (simp add: Buffer_Append_piece_def Buffer_toStringPiece_def StringPiece_range_def
        ReadableBytes_readable [OF inv] to_int32_in_range to_size_in_range Append_take del: length_drop)
  have fits: "?n \<le> Buffer_WritableBytes o1" using o1(4) by simp
  then have "Buffer_EnsureWritableBytes ?n o1 = Inr o1"
    by (simp add: Buffer_EnsureWritableBytes_def)
  then have put: "Buffer_put (readable b) o1 = Buffer_hasWritten ?n
      (o1\<lparr>buf_buffer := overwrite (buf_buffer o1) (buf_writer_index o1) (readable b)\<rparr>)"
    by (simp add: Buffer_put_def Buffer_Append_def Buffer_BeginWrite_def)
  from hasWritten_ok [OF o1(2) fits] obtain o2 where
    o2: "Buffer_put (readable b) o1 = Inr o2" "buf_inv o2" "readable o2 = readable b"
      "buf_writer_index o2 = buf_writer_index o1 + ?n"
    using put o1(3) by auto
  have len: "length (buf_buffer o2) = length (buf_buffer o1)"
    using o2(1) put fits buf_invD [OF o1(2)] by (auto simp: Buffer_hasWritten_def res_simps buf_sizes o1(2))
  let ?b = "fst (Buffer_Swap b o2)"
  have "buf_buffer ?b = buf_buffer o2" "buf_reader_index ?b = buf_reader_index o2"
    "buf_writer_index ?b = buf_writer_index o2" by (simp_all add: Buffer_Swap_def)
  then have "buf_inv ?b" "readable ?b = readable b" "Buffer_WritableBytes ?b = Buffer_WritableBytes o2"
    using o2 by (simp_all add: buf_inv_def readable_def Buffer_WritableBytes_def)
  moreover have "reserve \<le> Buffer_WritableBytes o2"
    using o1(4) o2(4) len by (simp add: buf_sizes o1(2) o2(2))
  moreover have "Buffer_Shrink reserve b = Inr ?b"
    using o0(1) o1(1) o2(1) by (simp add: Buffer_Shrink_def sz piece)
  ultimately show ?thesis by auto
qed

lemma put_then_skip:
  assumes "buf_inv b" and "buf_room (length d) b"
  shows "\<exists>b1 b2. Buffer_put d b = Inr b1 \<and> Buffer_Retrieve (length (readable b)) b1 = Inr b2
    \<and> buf_inv b2 \<and> readable b2 = d"
proof -
  obtain b1 where b1: "Buffer_put d b = Inr b1" "buf_inv b1" "readable b1 = readable b @ d"
    using bq.put_ok [OF assms] by blast
  with bq.get_ok [OF b1(2), of "length (readable b)"] show ?thesis by auto
qed

lemma put_reader:
  "Buffer_put d b = Inr b' \<Longrightarrow> kcheap_prepend \<le> buf_reader_index b \<Longrightarrow> kcheap_prepend \<le> buf_reader_index b'"
  by (auto simp: Buffer_put_def Buffer_Append_def Buffer_EnsureWritableBytes_def Buffer_MakeSpace_def
      Buffer_hasWritten_def res_simps Let_def split: if_splits)

section \<open>Properties\<close>

definition sample_buffer :: buffer where
  "sample_buffer = \<lparr>buf_buffer = replicate 12 (CHR 0x00), buf_reader_index = 8, buf_writer_index = 8\<rparr>"

lemma sample_buffer_inv [simp]:
  "buf_inv sample_buffer" "readable sample_buffer = []" "buf_room 1000 sample_buffer"
  "buf_reader_index sample_buffer = 8" "length (buf_buffer sample_buffer) = 12"
  by (simp_all add: sample_buffer_def buf_inv_def buf_room_def readable_def kcheap_prepend_def max_vector_def)

lemma room_sample [simp]: "n \<le> 1000 \<Longrightarrow> buf_room n sample_buffer"
  using bq.room_mono [OF sample_buffer_inv(3)] by simp

text \<open>C11. A buffer is a byte queue: on a well-formed buffer any sequence of \<open>Append\<close> and \<open>Retrieve\<close>
  calls that fits the address space either asks at some point for more bytes than are readable,
  and then an assert stops the program, or it ends with a well-formed buffer that holds exactly
  the bytes that were readable or appended, in order, less the ones retrieved.\<close>

theorem buffer_is_fifo:
  assumes "buf_inv b" and "buf_room (length (puts ops)) b"
  shows "case queue_run Buffer_put Buffer_Retrieve ops b of
      Inl e \<Rightarrow> e = Assert_failed \<and> \<not> queue_fits (length (readable b)) ops
    | Inr b' \<Rightarrow> queue_fits (length (readable b)) ops \<and> buf_inv b' \<and>
        readable b' = drop (gets ops) (readable b @ puts ops)"
  using bq.run_fifo [OF assms] bq.run_over [OF assms]
  by (cases "queue_fits (length (readable b)) ops") auto

theorem buffer_is_fifo_witness:
  "\<exists>b'. queue_run Buffer_put Buffer_Retrieve [Put ''hello'', Get 3, Put ''wor'', Get 4] sample_buffer
     = Inr b' \<and> readable b' = ''r''"
proof -
  let ?ops = "[Put ''hello'', Get 3, Put ''wor'', Get 4]"
  have "buf_room (length (puts ?ops)) sample_buffer" by simp
  from buffer_is_fifo [OF sample_buffer_inv(1) this] show ?thesis
    by (auto split: sum.splits)
qed

text \<open>Integers survive the buffer: after \<open>AppendIntN(x)\<close>, once the bytes that were readable before
  are consumed, \<open>ReadIntN\<close> returns \<open>x\<close> and leaves the buffer empty, for the four widths.\<close>

theorem buffer_int_roundtrip:
  assumes "buf_inv b" and "buf_room 8 b"
  shows "(\<exists>b1 b2 b3. Buffer_AppendInt64 x64 b = Inr b1 \<and> Buffer_Retrieve (length (readable b)) b1 = Inr b2
            \<and> Buffer_ReadInt64 b2 = Inr (x64, b3) \<and> buf_inv b3 \<and> readable b3 = [])
       \<and> (\<exists>b1 b2 b3. Buffer_AppendInt32 x32 b = Inr b1 \<and> Buffer_Retrieve (length (readable b)) b1 = Inr b2
            \<and> Buffer_ReadInt32 b2 = Inr (x32, b3) \<and> buf_inv b3 \<and> readable b3 = [])
       \<and> (\<exists>b1 b2 b3. Buffer_AppendInt16 x16 b = Inr b1 \<and> Buffer_Retrieve (length (readable b)) b1 = Inr b2
            \<and> Buffer_ReadInt16 b2 = Inr (x16, b3) \<and> buf_inv b3 \<and> readable b3 = [])
       \<and> (\<exists>b1 b2 b3. Buffer_AppendInt8 x8 b = Inr b1 \<and> Buffer_Retrieve (length (readable b)) b1 = Inr b2
            \<and> Buffer_ReadInt8 b2 = Inr (x8, b3) \<and> buf_inv b3 \<and> readable b3 = [])"
proof -
  have put: "\<exists>b1 b2. Buffer_put d b = Inr b1 \<and> Buffer_Retrieve (length (readable b)) b1 = Inr b2
      \<and> buf_inv b2 \<and> readable b2 = d" if "length d \<le> 8" for d
    using assms(1) bq.room_mono [OF assms(2) that] by (rule put_then_skip)
  show ?thesis
    unfolding AppendInt_put
    using put [of "be_bytes 8 (unat x64)"] put [of "be_bytes 4 (unat x32)"]
      put [of "be_bytes 2 (unat x16)"] put [of "be_bytes 1 (unat x8)"]
    by (intro conjI) (force dest: ReadInt_be [where rest = "[]", unfolded append_Nil2])+
qed

theorem buffer_int_roundtrip_witness:
  "\<exists>b1 b2 b3. Buffer_AppendInt32 0xDEADBEEF sample_buffer = Inr b1 \<and> Buffer_Retrieve 0 b1 = Inr b2
     \<and> Buffer_ReadInt32 b2 = Inr (0xDEADBEEF, b3) \<and> readable b3 = []"
  using buffer_int_roundtrip [of sample_buffer 0 "0xDEADBEEF" 0 0] by auto

text \<open>Length-prefixed framing: on a fresh buffer, appending a message and then prepending its
  length as a 32-bit integer never trips an assert, the first thing read back is the length and
  the rest of the buffer, taken as a string, is the message.\<close>

theorem buffer_framing:
  assumes "kcheap_prepend + n \<le> max_vector" and "kcheap_prepend + length msg \<le> max_vector"
  shows "\<exists>b b1 b2 b3 b4. Buffer_new n = Inr b \<and> Buffer_put msg b = Inr b1
     \<and> Buffer_PrependInt32 (of_nat (length msg)) b1 = Inr b2
     \<and> Buffer_ReadInt32 b2 = Inr (of_nat (length msg), b3)
     \<and> Buffer_RetrieveAllAsString b3 = Inr (msg, b4) \<and> buf_inv b4 \<and> readable b4 = []"
proof -
  from Buffer_new_ok [OF assms(1)] obtain b where b: "Buffer_new n = Inr b" "buf_inv b" "readable b = []"
    "buf_reader_index b = kcheap_prepend" "buf_writer_index b = kcheap_prepend" by blast
  have "buf_room (length msg) b" using assms(2) b(5) by (simp add: buf_room_def)
  from bq.put_ok [OF b(2) this] b(3) obtain b1 where
    b1: "Buffer_put msg b = Inr b1" "buf_inv b1" "readable b1 = msg" by auto
  let ?len = "be_bytes 4 (unat (of_nat (length msg) :: 32 word))"
  have "length ?len \<le> buf_reader_index b1" using put_reader [OF b1(1)] b(4) by (simp add: kcheap_prepend_def)
  from Prepend_ok [OF b1(2) this] b1(3) obtain b2 where
    b2: "Buffer_PrependInt32 (of_nat (length msg)) b1 = Inr b2" "buf_inv b2" "readable b2 = ?len @ msg"
    by (auto simp: PrependInt_prepend)
  from ReadInt_be(2) [OF b2(2,3)] obtain b3 where
    b3: "Buffer_ReadInt32 b2 = Inr (of_nat (length msg), b3)" "buf_inv b3" "readable b3 = msg" by auto
  from bq.get_ok [OF b3(2) order_refl] obtain b4 where
    b4: "Buffer_Retrieve (length (readable b3)) b3 = Inr b4" "buf_inv b4" "readable b4 = []" by auto
  have "Buffer_RetrieveAllAsString b3 = Inr (msg, b4)"
    using take_readable [OF b3(2) order_refl] b3 b4
    by (simp add: Buffer_RetrieveAllAsString_def Buffer_RetrieveAsString_def ReadableBytes_readable)
  then show ?thesis using b b1 b2 b3 b4 by metis
qed

theorem buffer_framing_witness:
  "\<exists>b b1 b2 b3 b4. Buffer_new 16 = Inr b \<and> Buffer_put ''ping'' b = Inr b1
     \<and> Buffer_PrependInt32 4 b1 = Inr b2 \<and> Buffer_ReadInt32 b2 = Inr (4, b3)
     \<and> Buffer_RetrieveAllAsString b3 = Inr (''ping'', b4) \<and> readable b4 = []"
  using buffer_framing [of 16 "''ping''"] by (auto simp: kcheap_prepend_def max_vector_def)

text \<open>\<open>ReadFd\<close> loses nothing: whatever number of bytes up to the offered capacity \<open>readv\<close> stores,
  part in the buffer and part in the 64 KiB stack area, the call returns that number and the
  readable bytes grow by exactly those bytes; an error leaves the buffer as it was.\<close>

theorem ReadFd_appends_all:
  assumes "buf_inv b" and "length d \<le> readv_capacity b"
    and "max kcheap_prepend (length (buf_buffer b)) + extrabuf_size \<le> max_vector"
  shows "(\<exists>b'. Buffer_ReadFd (Inr d) b = Inr (int (length d), None, b') \<and> buf_inv b' \<and>
            readable b' = readable b @ d)
       \<and> Buffer_ReadFd (Inl err) b = Inr (-1, Some err, b)"
  using ReadFd_ok [OF assms] by (simp add: Buffer_ReadFd_def Let_def)

theorem ReadFd_appends_all_witness:
  "(\<exists>b'. Buffer_ReadFd (Inr ''GET / HTTP/1.1'') sample_buffer = Inr (14, None, b') \<and> buf_inv b' \<and>
            readable b' = ''GET / HTTP/1.1'')
   \<and> Buffer_ReadFd (Inl 104) sample_buffer = Inr (-1, Some 104, sample_buffer)"
  using ReadFd_appends_all [of sample_buffer "''GET / HTTP/1.1''" 104]
  by (simp add: readv_capacity_def buf_sizes extrabuf_size_def kcheap_prepend_def max_vector_def Let_def)

text \<open>\<open>Shrink(reserve)\<close> keeps the readable bytes and leaves at least \<open>reserve\<close> writable bytes.\<close>

theorem Shrink_keeps_content:
  assumes "buf_inv b" and "length (readable b) < 2 ^ 31"
    and "length (readable b) + reserve + kinitial_size + kcheap_prepend \<le> max_vector"
  shows "\<exists>b'. Buffer_Shrink reserve b = Inr b' \<and> buf_inv b' \<and> readable b' = readable b \<and>
    reserve \<le> Buffer_WritableBytes b'"
  using assms by (rule Shrink_ok)

theorem Shrink_keeps_content_witness:
  "\<exists>b'. Buffer_Shrink 100 sample_buffer = Inr b' \<and> readable b' = [] \<and> 100 \<le> Buffer_WritableBytes b'"
  using Shrink_keeps_content [of sample_buffer 100]
  by (auto simp: kinitial_size_def kcheap_prepend_def max_vector_def)

end
