(* ===== verification/Format.thy ===== *)
theory Format
  imports Prelude "HOL-Library.Char_ord" "HOL-Library.List_Lexorder"
begin

text \<open>
  The pieces of the C and C++ libraries the sources use to make text and to keep it in order:
  the conversions of \<open>snprintf\<close> (\<open>%d\<close>, \<open>%4d\<close>, \<open>%02d\<close>, \<open>%06d\<close> and their 64-bit forms) and the
  truncation it does at the size of its buffer, and \<open>std::map\<close> as an association list in
  increasing order of its keys, which is the order its iterators follow.
\<close>

section \<open>Decimal text\<close>

definition digit_char :: "nat \<Rightarrow> char" where
  "digit_char d = char_of (48 + d)"

fun nat_dec :: "nat \<Rightarrow> string" where
  "nat_dec n = (if n < 10 then [digit_char n] else nat_dec (n div 10) @ [digit_char (n mod 10)])"

declare nat_dec.simps [simp del]

definition int_dec :: "int \<Rightarrow> string" where
  "int_dec i = (if i < 0 then CHR ''-'' # nat_dec (nat (- i)) else nat_dec (nat i))"

definition pad_left :: "char \<Rightarrow> nat \<Rightarrow> string \<Rightarrow> string" where
  "pad_left c w s = replicate (w - length s) c @ s"

text \<open>\<open>%0wd\<close>: the zeros go between the sign and the digits.\<close>

definition int_dec0 :: "nat \<Rightarrow> int \<Rightarrow> string" where
  "int_dec0 w i = (if i < 0 then CHR ''-'' # pad_left (CHR ''0'') (w - 1) (nat_dec (nat (- i)))
                   else pad_left (CHR ''0'') w (nat_dec (nat i)))"

definition int_decw :: "nat \<Rightarrow> int \<Rightarrow> string" where
  "int_decw w i = pad_left (CHR '' '') w (int_dec i)"

definition snprintf_buf :: "nat \<Rightarrow> string \<Rightarrow> string" where
  "snprintf_buf n s = take (n - 1) s"

definition dec_value :: "string \<Rightarrow> nat" where
  "dec_value s = fold (\<lambda>c acc. 10 * acc + (of_char c - 48)) s 0"

section \<open>Ordered maps\<close>

fun smap_put :: "'k::linorder \<Rightarrow> 'v \<Rightarrow> ('k \<times> 'v) list \<Rightarrow> ('k \<times> 'v) list" where
  "smap_put k v [] = [(k, v)]"
| "smap_put k v ((k', v') # m) =
     (if k < k' then (k, v) # (k', v') # m
      else if k = k' then (k, v) # m
      else (k', v') # smap_put k v m)"

definition smap_get :: "'k \<Rightarrow> ('k \<times> 'v) list \<Rightarrow> 'v option" where
  "smap_get k m = map_of m k"

definition smap_erase :: "'k \<Rightarrow> ('k \<times> 'v) list \<Rightarrow> ('k \<times> 'v) list" where
  "smap_erase k m = filter (\<lambda>e. fst e \<noteq> k) m"

definition smap_ok :: "('k::linorder \<times> 'v) list \<Rightarrow> bool" where
  "smap_ok m \<longleftrightarrow> sorted_wrt (<) (map fst m)"

section \<open>Lemmas\<close>

lemma digit_char_val: "d < 10 \<Longrightarrow> of_char (digit_char d) = 48 + d"
  by (simp add: digit_char_def)

lemma nat_dec_nonempty [simp]: "nat_dec n \<noteq> []"
  by (subst nat_dec.simps) simp

lemma dec_value_append: "dec_value (xs @ [c]) = 10 * dec_value xs + (of_char c - 48)"
  by (simp add: dec_value_def)

lemma dec_value_nat_dec: "dec_value (nat_dec n) = n"
proof (induction n rule: nat_dec.induct)
  case (1 n)
  show ?case
  proof (cases "n < 10")
    case True
    then show ?thesis by (subst nat_dec.simps) (simp add: dec_value_def digit_char_val)
  next
    case False
    then have "dec_value (nat_dec n) = 10 * (n div 10) + n mod 10"
      using 1 by (subst nat_dec.simps) (simp add: dec_value_append digit_char_val)
    then show ?thesis by simp
  qed
qed

lemma nat_dec_inj: "nat_dec m = nat_dec n \<Longrightarrow> m = n"
  by (metis dec_value_nat_dec)

lemma digit_in_nat_dec: "c \<in> set (nat_dec n) \<Longrightarrow> \<exists>d<10. c = digit_char d"
proof (induction n rule: nat_dec.induct)
  case (1 n)
  show ?case
  proof (cases "n < 10")
    case True
    with "1.prems" have "c = digit_char n" by (simp add: nat_dec.simps [of n])
    with True show ?thesis by auto
  next
    case False
    with "1.prems" have "c \<in> set (nat_dec (n div 10)) \<or> c = digit_char (n mod 10)"
      by (auto simp: nat_dec.simps [of n])
    with "1.IH" [OF False] show ?thesis by (metis mod_less_divisor zero_less_numeral)
  qed
qed

lemma digit_char_eq_iff: "d < 10 \<Longrightarrow> digit_char d = c \<longleftrightarrow> of_char c = 48 + d"
  by (metis digit_char_val of_char_eq_iff)

lemma nat_dec_length: "0 < k \<Longrightarrow> n < 10 ^ k \<Longrightarrow> length (nat_dec n) \<le> k"
proof (induction k arbitrary: n)
  case (Suc k)
  show ?case
  proof (cases "n < 10")
    case True
    then show ?thesis by (subst nat_dec.simps) simp
  next
    case False
    with Suc.prems have "0 < k" by (cases k) auto
    moreover have "n div 10 < 10 ^ k" using Suc.prems by (simp add: less_mult_imp_div_less mult.commute)
    ultimately have "length (nat_dec (n div 10)) \<le> k" by (rule Suc.IH)
    with False show ?thesis by (subst nat_dec.simps) simp
  qed
qed simp

lemma map_of_smap_put [simp]: "map_of (smap_put k v m) = (map_of m)(k \<mapsto> v)"
  by (induction k v m rule: smap_put.induct) (auto simp: fun_eq_iff)

lemma keys_smap_put: "fst ` set (smap_put k v m) = insert k (fst ` set m)"
  by (induction k v m rule: smap_put.induct) auto

lemma smap_put_ok: "smap_ok m \<Longrightarrow> smap_ok (smap_put k v m)"
proof (induction k v m rule: smap_put.induct)
  case (2 k v k' v' m)
  then show ?case using keys_smap_put [of k v m] by (auto simp: smap_ok_def)
qed (simp add: smap_ok_def)

lemma map_of_smap_erase [simp]: "map_of (smap_erase k m) = (map_of m)(k := None)"
  by (induction m) (auto simp: smap_erase_def fun_eq_iff)

lemma smap_erase_ok: "smap_ok m \<Longrightarrow> smap_ok (smap_erase k m)"
  by (induction m) (auto simp: smap_ok_def smap_erase_def)

lemma smap_erase_none: "map_of m k = None \<Longrightarrow> smap_erase k m = m"
  by (induction m) (auto simp: smap_erase_def split: if_splits)

lemma smap_get_put: "smap_get k (smap_put k' v m) = (if k = k' then Some v else smap_get k m)"
  by (simp add: smap_get_def)

lemma smap_get_erase: "smap_get k (smap_erase k' m) = (if k = k' then None else smap_get k m)"
  by (simp add: smap_get_def)

lemma smap_ok_distinct: "smap_ok m \<Longrightarrow> distinct (map fst m)"
  unfolding smap_ok_def by (induction m) auto

text \<open>The interface the clients of \<open>std::map\<close> rely on, and that the ordered list keeps it.\<close>

locale ordered_map =
  fixes invar :: "'m \<Rightarrow> bool"
    and lookup :: "'k \<Rightarrow> 'm \<Rightarrow> 'v option"
    and store :: "'k \<Rightarrow> 'v \<Rightarrow> 'm \<Rightarrow> 'm"
    and erase :: "'k \<Rightarrow> 'm \<Rightarrow> 'm"
  assumes invar_store: "invar m \<Longrightarrow> invar (store k v m)"
    and invar_erase: "invar m \<Longrightarrow> invar (erase k m)"
    and lookup_store: "lookup k (store k' v m) = (if k = k' then Some v else lookup k m)"
    and lookup_erase: "lookup k (erase k' m) = (if k = k' then None else lookup k m)"
begin

lemma lookup_fold_store:
  "lookup k (fold (\<lambda>(a, b). store a b) kvs m) =
     (case map_of (rev kvs) k of None \<Rightarrow> lookup k m | Some v \<Rightarrow> Some v)"
proof (induction kvs arbitrary: m)
  case (Cons kv kvs)
  obtain a b where kv: "kv = (a, b)" by force
  show ?case using Cons.IH [of "store a b m"]
    by (auto simp: kv lookup_store map_add_def map_of_append split: option.splits)
qed simp

lemma invar_fold_store: "invar m \<Longrightarrow> invar (fold (\<lambda>(a, b). store a b) kvs m)"
  by (induction kvs arbitrary: m) (auto simp: invar_store split: prod.splits)

lemma store_then_erase: "lookup j (erase k (store k v m)) = (if j = k then None else lookup j m)"
  by (simp add: lookup_store lookup_erase)

end

interpretation sm: ordered_map smap_ok smap_get smap_put smap_erase
  by unfold_locales (simp_all add: smap_put_ok smap_erase_ok smap_get_put smap_get_erase)

end
