(* ===== verification/Timestamp.thy ===== *)
theory Timestamp
  imports Complex_Main Format
begin

text \<open>
  \<open>dwater/base/timestamp.h\<close> and \<open>timestamp.cc\<close>. A \<open>double\<close> is the rational number it denotes and
  an operation on doubles is the exact operation followed by \<open>double_round\<close>, the
  round-to-nearest-even of IEEE 754 binary64 (without infinities, which no caller reaches).
  \<open>int64_t\<close> microseconds are \<open>int\<close>: signed overflow is undefined in the source, and the values are
  microseconds since 1970. \<open>Timestamp\<close> is ordered by its \<open>operator<\<close>.
\<close>

section \<open>Doubles\<close>

fun bitlen :: "nat \<Rightarrow> nat" where
  "bitlen n = (if n = 0 then 0 else Suc (bitlen (n div 2)))"

declare bitlen.simps [simp del]

definition round_half_even :: "rat \<Rightarrow> int" where
  "round_half_even x =
     (let f = \<lfloor>x\<rfloor>; d = x - of_int f
      in if d < 1 / 2 then f else if d > 1 / 2 then f + 1 else if even f then f else f + 1)"

definition double_exponent :: "rat \<Rightarrow> int" where
  "double_exponent x =
     (case quotient_of x of (p, q) \<Rightarrow>
        let e0 = int (bitlen (nat p)) - int (bitlen (nat q))
        in if (2 :: rat) powi e0 \<le> x then e0 else e0 - 1)"

definition double_round :: "rat \<Rightarrow> rat" where
  "double_round x =
     (if x = 0 then 0
      else let u = 2 powi (max (double_exponent \<bar>x\<bar> - 52) (-1074))
           in sgn x * of_int (round_half_even (\<bar>x\<bar> / u)) * u)"

definition double_to_int :: "rat \<Rightarrow> int" where
  "double_to_int x = (if 0 \<le> x then \<lfloor>x\<rfloor> else \<lceil>x\<rceil>)"

section \<open>Timestamps\<close>

datatype timestamp = Timestamp (MicroSecondsSinceEpoch: int)

definition Timestamp_less :: "timestamp \<Rightarrow> timestamp \<Rightarrow> bool" where
  "Timestamp_less lhs rhs \<longleftrightarrow> MicroSecondsSinceEpoch lhs < MicroSecondsSinceEpoch rhs"

definition Timestamp_eq :: "timestamp \<Rightarrow> timestamp \<Rightarrow> bool" where
  "Timestamp_eq lhs rhs \<longleftrightarrow> MicroSecondsSinceEpoch lhs = MicroSecondsSinceEpoch rhs"

text \<open>The operators are the equality and the strict part of a linear order.\<close>

lemma Timestamp_eq_iff: "Timestamp_eq lhs rhs \<longleftrightarrow> lhs = rhs"
  by (auto simp: Timestamp_eq_def timestamp.expand)

instantiation timestamp :: linorder
begin

definition less_timestamp :: "timestamp \<Rightarrow> timestamp \<Rightarrow> bool" where
  "less_timestamp lhs rhs \<longleftrightarrow> Timestamp_less lhs rhs"

definition less_eq_timestamp :: "timestamp \<Rightarrow> timestamp \<Rightarrow> bool" where
  "less_eq_timestamp lhs rhs \<longleftrightarrow> MicroSecondsSinceEpoch lhs \<le> MicroSecondsSinceEpoch rhs"

instance
  by standard (auto simp: less_timestamp_def Timestamp_less_def less_eq_timestamp_def timestamp.expand)

end

definition kmicro_seconds_per_second :: int where
  "kmicro_seconds_per_second = 1000 * 1000"

definition Timestamp_Invalid :: timestamp where
  "Timestamp_Invalid = Timestamp 0"

definition Timestamp_Valid :: "timestamp \<Rightarrow> bool" where
  "Timestamp_Valid t \<longleftrightarrow> MicroSecondsSinceEpoch t > 0"

definition Timestamp_swap :: "timestamp \<Rightarrow> timestamp \<Rightarrow> timestamp \<times> timestamp" where
  "Timestamp_swap t that = (that, t)"

definition Timestamp_SecondSinceEpoch :: "timestamp \<Rightarrow> int" where
  "Timestamp_SecondSinceEpoch t = cdiv (MicroSecondsSinceEpoch t) kmicro_seconds_per_second"

definition Timestamp_FromUnixTime :: "int \<Rightarrow> int \<Rightarrow> timestamp" where
  "Timestamp_FromUnixTime t microseconds = Timestamp (t * kmicro_seconds_per_second + microseconds)"

definition Timestamp_Now :: "int \<Rightarrow> int \<Rightarrow> timestamp" where
  "Timestamp_Now tv_sec tv_usec = Timestamp (tv_sec * kmicro_seconds_per_second + tv_usec)"

definition TimeDifference :: "timestamp \<Rightarrow> timestamp \<Rightarrow> rat" where
  "TimeDifference high low =
     (let diff = MicroSecondsSinceEpoch high - MicroSecondsSinceEpoch low
      in double_round (double_round (of_int diff) / of_int kmicro_seconds_per_second))"

definition AddTime :: "timestamp \<Rightarrow> rat \<Rightarrow> timestamp" where
  "AddTime t seconds =
     (let delta = double_to_int (double_round (seconds * of_int kmicro_seconds_per_second))
      in Timestamp (MicroSecondsSinceEpoch t + delta))"

definition Timestamp_ToString :: "timestamp \<Rightarrow> string" where
  "Timestamp_ToString t =
     (let seconds = cdiv (MicroSecondsSinceEpoch t) kmicro_seconds_per_second;
          microseconds = cmod (MicroSecondsSinceEpoch t) kmicro_seconds_per_second
      in snprintf_buf 32 (int_dec seconds @ ''.'' @ int_dec0 6 microseconds))"

section \<open>Lemmas\<close>

lemma round_half_even_nonneg: "0 \<le> x \<Longrightarrow> 0 \<le> round_half_even x"
  by (auto simp: round_half_even_def Let_def)

lemma double_round_nonneg: "0 \<le> x \<Longrightarrow> 0 \<le> double_round x"
  by (auto simp: double_round_def Let_def intro!: mult_nonneg_nonneg round_half_even_nonneg)

lemma AddTime_mono: "0 \<le> s \<Longrightarrow> t \<le> AddTime t s"
proof -
  assume "0 \<le> s"
  then have "0 \<le> s * of_int kmicro_seconds_per_second" by (simp add: kmicro_seconds_per_second_def)
  then have "0 \<le> double_round (s * of_int kmicro_seconds_per_second)" by (rule double_round_nonneg)
  then show ?thesis by (simp add: AddTime_def less_eq_timestamp_def double_to_int_def)
qed

lemma AddTime_zero [simp]: "AddTime t 0 = t"
  by (simp add: AddTime_def double_round_def double_to_int_def)

lemma FromUnixTime_SecondSinceEpoch:
  assumes "0 \<le> t" and "0 \<le> us" and "us < kmicro_seconds_per_second"
  shows "Timestamp_SecondSinceEpoch (Timestamp_FromUnixTime t us) = t"
  using assms by (simp add: Timestamp_SecondSinceEpoch_def Timestamp_FromUnixTime_def cdiv_nonneg
      kmicro_seconds_per_second_def)

end
