(* ===== verification/Http.thy ===== *)
theory Http
  imports Buffer Timestamp
begin

text \<open>
  \<open>dwater/net/http/http_request.h\<close>, \<open>http_context.h\<close>, \<open>http_context.cc\<close>, \<open>http_response.h\<close> and
  \<open>http_response.cc\<close>: the request object, the incremental parser that reads it out of a
  connection's input buffer, and the response printer. A pointer pair into the buffer is the
  list of characters between the pointers. The parse loop has branches that never clear
  \<open>has_more\<close> (a context that is already complete or waits for a body), so it is a
  \<^theory_text>\<open>partial_function\<close> whose value \<open>None\<close> means that the call does not return.

  \<open>http_spec\<close> is the reference parser on plain character lists; the lemmas show that the loop
  over the buffer computes it, that it ends for every context the server can hold, that feeding
  the bytes in pieces gives the same request, and that a printed request is parsed back.
\<close>

section \<open>Requests\<close>

datatype http_method = kinvalid | kget | kpost | khead | kput | kdelete

datatype http_version = kunknow | khttp10 | khttp11

record http_request =
  req_method :: http_method
  req_version :: http_version
  req_path :: string
  req_query :: string
  req_receive_time :: timestamp
  req_headers :: "(string \<times> string) list"

definition HttpRequest_new :: http_request where
  "HttpRequest_new = \<lparr>req_method = kinvalid, req_version = kunknow, req_path = [], req_query = [],
     req_receive_time = Timestamp 0, req_headers = []\<rparr>"

definition HttpRequest_SetVersion :: "http_version \<Rightarrow> http_request \<Rightarrow> http_request" where
  "HttpRequest_SetVersion version r = r\<lparr>req_version := version\<rparr>"

definition HttpRequest_SetPath :: "string \<Rightarrow> http_request \<Rightarrow> http_request" where
  "HttpRequest_SetPath p r = r\<lparr>req_path := p\<rparr>"

definition HttpRequest_SetQuery :: "string \<Rightarrow> http_request \<Rightarrow> http_request" where
  "HttpRequest_SetQuery q r = r\<lparr>req_query := q\<rparr>"

definition HttpRequest_SetReceiveTime :: "timestamp \<Rightarrow> http_request \<Rightarrow> http_request" where
  "HttpRequest_SetReceiveTime t r = r\<lparr>req_receive_time := t\<rparr>"

lemmas request_setters [simp] = HttpRequest_SetVersion_def HttpRequest_SetPath_def
  HttpRequest_SetQuery_def HttpRequest_SetReceiveTime_def

text \<open>In the \<open>HEAD\<close> branch the source assigns to the local string, so \<open>method_\<close> stays invalid.\<close>

definition HttpRequest_SetMethod :: "string \<Rightarrow> http_request \<Rightarrow> (bool \<times> http_request) result" where
  "HttpRequest_SetMethod m r =
     c_assert (req_method r = kinvalid)
       (let r' = (if m = ''GET'' then r\<lparr>req_method := kget\<rparr>
                  else if m = ''POST'' then r\<lparr>req_method := kpost\<rparr>
                  else if m = ''HEAD'' then r
                  else if m = ''PUT'' then r\<lparr>req_method := kput\<rparr>
                  else if m = ''DELETE'' then r\<lparr>req_method := kdelete\<rparr>
                  else r\<lparr>req_method := kinvalid\<rparr>)
        in Inr (req_method r' \<noteq> kinvalid, r'))"

fun HttpRequest_MethodString :: "http_request \<Rightarrow> string" where
  "HttpRequest_MethodString r =
     (case req_method r of
        kget \<Rightarrow> ''GET'' | kpost \<Rightarrow> ''POST'' | khead \<Rightarrow> ''HEAD'' | kput \<Rightarrow> ''PUT''
      | kdelete \<Rightarrow> ''DELETE'' | _ \<Rightarrow> ''UNKNOWN'')"

definition isspace :: "char \<Rightarrow> bool" where
  "isspace c \<longleftrightarrow> c \<in> {CHR 0x20, CHR 0x09, CHR 0x0A, CHR 0x0B, CHR 0x0C, CHR 0x0D}"

definition rstrip :: "string \<Rightarrow> string" where
  "rstrip v = rev (dropWhile isspace (rev v))"

text \<open>\<open>AddHeader(start, colon, end)\<close>: the characters before the colon and those after it.\<close>

definition HttpRequest_AddHeader :: "string \<Rightarrow> string \<Rightarrow> http_request \<Rightarrow> http_request" where
  "HttpRequest_AddHeader field after_colon r =
     (let value0 = dropWhile isspace after_colon;
          value1 = rstrip value0
      in r\<lparr>req_headers := smap_put field value1 (req_headers r)\<rparr>)"

definition HttpRequest_GetHeader :: "string \<Rightarrow> http_request \<Rightarrow> string" where
  "HttpRequest_GetHeader field r =
     (case smap_get field (req_headers r) of None \<Rightarrow> [] | Some v \<Rightarrow> v)"

definition HttpRequest_Swap :: "http_request \<Rightarrow> http_request \<Rightarrow> http_request \<times> http_request" where
  "HttpRequest_Swap r that = (that, r)"

section \<open>The parsing context\<close>

datatype http_parse_state = kexpect_request_line | kexpect_headers | kexpect_body | k_got_all

record http_context =
  ctx_state :: http_parse_state
  ctx_request :: http_request

definition HttpContext_new :: http_context where
  "HttpContext_new = \<lparr>ctx_state = kexpect_request_line, ctx_request = HttpRequest_new\<rparr>"

definition HttpContext_GotAll :: "http_context \<Rightarrow> bool" where
  "HttpContext_GotAll c \<longleftrightarrow> ctx_state c = k_got_all"

definition HttpContext_Reset :: "http_context \<Rightarrow> http_context" where
  "HttpContext_Reset c =
     (let dummy = HttpRequest_new
      in c\<lparr>ctx_state := kexpect_request_line,
           ctx_request := fst (HttpRequest_Swap (ctx_request c) dummy)\<rparr>)"

text \<open>
  \<open>ProcessRequestLine(begin, end)\<close> on the characters of the line. The request is changed also on
  the failing paths, as in the source.
\<close>

definition HttpContext_ProcessRequestLine ::
  "string \<Rightarrow> http_context \<Rightarrow> (bool \<times> http_context) result" where
  "HttpContext_ProcessRequestLine line c =
     (let space = find_idx (CHR '' '') line
      in if space \<noteq> length line
         then bindr (HttpRequest_SetMethod (take space line) (ctx_request c)) (\<lambda>(good, r).
           let c1 = c\<lparr>ctx_request := r\<rparr> in
           if good then
             let rest = drop (space + 1) line;
                 space2 = find_idx (CHR '' '') rest
             in if space2 \<noteq> length rest then
                  let target = take space2 rest;
                      question = find_idx (CHR ''?'') target;
                      r2 = (if question \<noteq> length target
                            then HttpRequest_SetQuery (drop question target) (HttpRequest_SetPath (take question target) r)
                            else HttpRequest_SetPath target r);
                      start = drop (space2 + 1) rest
                  in if length start = 8 \<and> take 7 start = ''HTTP/1.''
                     then if start ! 7 = CHR ''1'' then Inr (True, c\<lparr>ctx_request := HttpRequest_SetVersion khttp11 r2\<rparr>)
                          else if start ! 7 = CHR ''0'' then Inr (True, c\<lparr>ctx_request := HttpRequest_SetVersion khttp10 r2\<rparr>)
                          else Inr (False, c\<lparr>ctx_request := r2\<rparr>)
                     else Inr (False, c\<lparr>ctx_request := r2\<rparr>)
                else Inr (False, c1)
           else Inr (False, c1))
         else Inr (False, c))"

text \<open>One turn of the \<open>while (has_more)\<close> loop of \<open>ParseRequest\<close>: the new \<open>ok\<close>, \<open>has_more\<close>, context
  and buffer.\<close>

definition HttpContext_ParseStep ::
  "timestamp \<Rightarrow> bool \<Rightarrow> http_context \<Rightarrow> buffer \<Rightarrow> (bool \<times> bool \<times> http_context \<times> buffer) result" where
  "HttpContext_ParseStep receive_time good c buf =
     (case ctx_state c of
        kexpect_request_line \<Rightarrow>
          (case Buffer_FindCRLF buf of
             Some crlf \<Rightarrow>
               bindr (HttpContext_ProcessRequestLine (slice (buf_buffer buf) (Buffer_Peek buf) crlf) c)
                 (\<lambda>(good', c').
                   if good' then
                     bindr (Buffer_RetrieveUntil (crlf + 2) buf) (\<lambda>buf'.
                       Inr (True, True,
                         c'\<lparr>ctx_request := HttpRequest_SetReceiveTime receive_time (ctx_request c'),
                            ctx_state := kexpect_headers\<rparr>, buf'))
                   else Inr (False, False, c', buf))
           | None \<Rightarrow> Inr (good, False, c, buf))
      | kexpect_headers \<Rightarrow>
          (case Buffer_FindCRLF buf of
             Some crlf \<Rightarrow>
               let line = slice (buf_buffer buf) (Buffer_Peek buf) crlf;
                   colon = find_idx (CHR '':'') line
               in if colon \<noteq> length line
                  then bindr (Buffer_RetrieveUntil (crlf + 2) buf) (\<lambda>buf'.
                         Inr (good, True,
                           c\<lparr>ctx_request := HttpRequest_AddHeader (take colon line) (drop (colon + 1) line)
                                              (ctx_request c)\<rparr>, buf'))
                  else bindr (Buffer_RetrieveUntil (crlf + 2) buf) (\<lambda>buf'.
                         Inr (good, False, c\<lparr>ctx_state := k_got_all\<rparr>, buf'))
           | None \<Rightarrow> Inr (good, False, c, buf))
      | kexpect_body \<Rightarrow> Inr (good, True, c, buf)
      | k_got_all \<Rightarrow> Inr (good, True, c, buf))"

partial_function (option) HttpContext_ParseLoop ::
  "timestamp \<Rightarrow> bool \<Rightarrow> http_context \<Rightarrow> buffer \<Rightarrow> (bool \<times> http_context \<times> buffer) result option" where
  "HttpContext_ParseLoop receive_time good c buf =
     (case HttpContext_ParseStep receive_time good c buf of
        Inl e \<Rightarrow> Some (Inl e)
      | Inr (good', has_more, c', buf') \<Rightarrow>
          if has_more then HttpContext_ParseLoop receive_time good' c' buf'
          else Some (Inr (good', c', buf')))"

definition HttpContext_ParseRequest ::
  "timestamp \<Rightarrow> http_context \<Rightarrow> buffer \<Rightarrow> (bool \<times> http_context \<times> buffer) result option" where
  "HttpContext_ParseRequest receive_time c buf = HttpContext_ParseLoop receive_time True c buf"

section \<open>Responses\<close>

datatype http_status = kunknown | k200Ok | K301MovedPermanpently | k400BadRequest | k404NotFound

fun status_value :: "http_status \<Rightarrow> int" where
  "status_value kunknown = 0"
| "status_value k200Ok = 200"
| "status_value K301MovedPermanpently = 301"
| "status_value k400BadRequest = 400"
| "status_value k404NotFound = 404"

record http_response =
  resp_headers :: "(string \<times> string) list"
  resp_status_code :: http_status
  resp_status_message :: string
  resp_close_connection :: bool
  resp_body :: string

definition HttpResponse_new :: "bool \<Rightarrow> http_response" where
  "HttpResponse_new close = \<lparr>resp_headers = [], resp_status_code = kunknown, resp_status_message = [],
     resp_close_connection = close, resp_body = []\<rparr>"

definition HttpResponse_SetStatusCode :: "http_status \<Rightarrow> http_response \<Rightarrow> http_response" where
  "HttpResponse_SetStatusCode code r = r\<lparr>resp_status_code := code\<rparr>"

definition HttpResponse_SetStatusMessage :: "string \<Rightarrow> http_response \<Rightarrow> http_response" where
  "HttpResponse_SetStatusMessage message r = r\<lparr>resp_status_message := message\<rparr>"

definition HttpResponse_SetCloseConnection :: "bool \<Rightarrow> http_response \<Rightarrow> http_response" where
  "HttpResponse_SetCloseConnection on r = r\<lparr>resp_close_connection := on\<rparr>"

definition HttpResponse_SetBody :: "string \<Rightarrow> http_response \<Rightarrow> http_response" where
  "HttpResponse_SetBody body r = r\<lparr>resp_body := body\<rparr>"

lemmas response_setters = HttpResponse_SetStatusCode_def HttpResponse_SetStatusMessage_def
  HttpResponse_SetCloseConnection_def HttpResponse_SetBody_def

definition HttpResponse_AddHeader :: "string \<Rightarrow> string \<Rightarrow> http_response \<Rightarrow> http_response" where
  "HttpResponse_AddHeader key val r = r\<lparr>resp_headers := smap_put key val (resp_headers r)\<rparr>"

definition HttpResponse_SetContentType :: "string \<Rightarrow> http_response \<Rightarrow> http_response" where
  "HttpResponse_SetContentType t = HttpResponse_AddHeader ''Content-Type'' t"

fun append_all :: "string list \<Rightarrow> buffer \<Rightarrow> buffer result" where
  "append_all [] b = Inr b"
| "append_all (s # ss) b = bindr (Buffer_Append_piece (StringPiece_string s) b) (append_all ss)"

text \<open>
  The strings \<open>AppendToBuffer\<close> appends, in order, with the two \<open>snprintf\<close> lines cut at the 32
  characters of its local buffer.
\<close>

definition response_pieces :: "http_response \<Rightarrow> string list" where
  "response_pieces r =
     [snprintf_buf 32 (''HTTP/1.1 '' @ int_dec (status_value (resp_status_code r)) @ '' ''),
      resp_status_message r, kCRLF]
     @ (if resp_close_connection r then [''Connection: close'' @ kCRLF]
        else [snprintf_buf 32 (''Content-Length: '' @ int_dec (int (length (resp_body r))) @ kCRLF),
              ''Connection: Keep-Alive'' @ kCRLF])
     @ concat (map (\<lambda>(k, v). [k, '': '', v, kCRLF]) (resp_headers r))
     @ [kCRLF, resp_body r]"

definition HttpResponse_AppendToBuffer :: "http_response \<Rightarrow> buffer \<Rightarrow> buffer result" where
  "HttpResponse_AppendToBuffer r output = append_all (response_pieces r) output"

section \<open>The reference parser\<close>

lemma http_rest_shorter: "find_sub kCRLF xs \<noteq> length xs \<Longrightarrow> length xs - Suc (Suc k) < length xs"
  by (cases xs) (auto simp: kCRLF_def)

text \<open>What a complete line does to a context: the parser goes on to the next line, rejects the request, has all of it, or,
  in a state the parser should not be called in, ignores the line.\<close>

datatype line_effect = Goes_on http_context | Rejects http_context | Finishes http_context | Ignores

definition http_line :: "timestamp \<Rightarrow> http_context \<Rightarrow> string \<Rightarrow> line_effect result" where
  "http_line t c line =
     (case ctx_state c of
        kexpect_request_line \<Rightarrow>
          bindr (HttpContext_ProcessRequestLine line c) (\<lambda>(good, c').
            Inr (if good
                 then Goes_on (c'\<lparr>ctx_request := (ctx_request c')\<lparr>req_receive_time := t\<rparr>, ctx_state := kexpect_headers\<rparr>)
                 else Rejects c'))
      | kexpect_headers \<Rightarrow>
          Inr (if CHR '':'' \<in> set line
               then let colon = find_idx (CHR '':'') line
                    in Goes_on (c\<lparr>ctx_request := HttpRequest_AddHeader (take colon line) (drop (colon + 1) line) (ctx_request c)\<rparr>)
               else Finishes (c\<lparr>ctx_state := k_got_all\<rparr>))
      | _ \<Rightarrow> Inr Ignores)"

function http_spec :: "timestamp \<Rightarrow> http_context \<Rightarrow> string \<Rightarrow> (bool \<times> http_context \<times> string) result" where
  "http_spec t c xs =
     (let k = find_sub kCRLF xs
      in if k = length xs then Inr (True, c, xs)
         else case http_line t c (take k xs) of
                Inl e \<Rightarrow> Inl e
              | Inr (Goes_on c') \<Rightarrow> http_spec t c' (drop (k + 2) xs)
              | Inr (Rejects c') \<Rightarrow> Inr (False, c', xs)
              | Inr (Finishes c') \<Rightarrow> Inr (True, c', drop (k + 2) xs)
              | Inr Ignores \<Rightarrow> Inr (True, c, xs))"
  by pat_completeness auto
termination
proof (relation "measure (\<lambda>(t, c, xs). length xs)")
qed (use http_rest_shorter in \<open>auto simp del: drop_drop\<close>)

declare http_spec.simps [simp del]

text \<open>The reference parser line by line.\<close>

lemma http_spec_wait: "find_sub kCRLF xs = length xs \<Longrightarrow> http_spec t c xs = Inr (True, c, xs)"
  by (subst http_spec.simps) simp

lemma http_spec_next:
  assumes "find_sub kCRLF xs \<noteq> length xs"
  shows "http_spec t c xs =
    (case http_line t c (take (find_sub kCRLF xs) xs) of
       Inl e \<Rightarrow> Inl e
     | Inr (Goes_on c') \<Rightarrow> http_spec t c' (drop (find_sub kCRLF xs + 2) xs)
     | Inr (Rejects c') \<Rightarrow> Inr (False, c', xs)
     | Inr (Finishes c') \<Rightarrow> Inr (True, c', drop (find_sub kCRLF xs + 2) xs)
     | Inr Ignores \<Rightarrow> Inr (True, c, xs))"
  using assms by (subst http_spec.simps) (simp only: Let_def if_False)

lemma http_lines_induct [case_names wait line]:
  assumes "\<And>c xs. find_sub kCRLF xs = length xs \<Longrightarrow> P c xs"
    and "\<And>c xs. find_sub kCRLF xs \<noteq> length xs \<Longrightarrow>
      (\<And>c'. http_line t c (take (find_sub kCRLF xs) xs) = Inr (Goes_on c') \<Longrightarrow> P c' (drop (find_sub kCRLF xs + 2) xs)) \<Longrightarrow> P c xs"
  shows "P c xs"
proof (induction "length xs" arbitrary: c xs rule: less_induct)
  case less
  show ?case
  proof (cases "find_sub kCRLF xs = length xs")
    case True
    then show ?thesis by (rule assms(1))
  next
    case False
    have "length (drop (find_sub kCRLF xs + 2) xs) < length xs" using http_rest_shorter [OF False] by simp
    then show ?thesis by (rule assms(2) [OF False less])
  qed
qed

definition parsing :: "http_context \<Rightarrow> bool" where
  "parsing c \<longleftrightarrow> ctx_state c = kexpect_request_line \<or> ctx_state c = kexpect_headers"

lemma http_line_parsing:
  "http_line t c line = Inr (Goes_on c') \<Longrightarrow> parsing c \<and> ctx_state c' = kexpect_headers"
  "http_line t c line = Inr (Rejects c') \<Longrightarrow> ctx_state c = kexpect_request_line"
  "http_line t c line = Inr (Finishes c') \<Longrightarrow> ctx_state c = kexpect_headers \<and> ctx_state c' = k_got_all"
  "http_line t c line = Inr Ignores \<longleftrightarrow> \<not> parsing c"
  by (auto simp: http_line_def parsing_def Let_def bindr_eq_Inr split: http_parse_state.splits if_splits)

lemma parsing_headers: "ctx_state c = kexpect_headers \<Longrightarrow> parsing c"
  by (simp add: parsing_def)

section \<open>The loop computes the reference parser\<close>

lemma length_kCRLF [simp]: "length kCRLF = 2"
  by (simp add: kCRLF_def)

lemma crlf_inside:
  assumes "find_sub kCRLF xs \<noteq> length xs"
  shows "find_sub kCRLF xs + 2 \<le> length xs"
    and "take 2 (drop (find_sub kCRLF xs) xs) = kCRLF"
proof -
  have lt: "find_sub kCRLF xs < length xs" using assms find_sub_le [of kCRLF xs] by simp
  show *: "take 2 (drop (find_sub kCRLF xs) xs) = kCRLF" using find_sub_found [OF lt] by simp
  have "length (take 2 (drop (find_sub kCRLF xs) xs)) = 2" unfolding * by simp
  then show "find_sub kCRLF xs + 2 \<le> length xs" by simp
qed

lemma FindCRLF_line:
  assumes inv: "buf_inv b" and k: "find_sub kCRLF (readable b) = k" "k \<noteq> length (readable b)"
  shows "Buffer_FindCRLF b = Some (Buffer_Peek b + k)"
    and "slice (buf_buffer b) (Buffer_Peek b) (Buffer_Peek b + k) = take k (readable b)"
    and "\<exists>b'. Buffer_RetrieveUntil (Buffer_Peek b + k + 2) b = Inr b' \<and> buf_inv b' \<and>
              readable b' = drop (k + 2) (readable b)"
proof -
  have le: "k + 2 \<le> length (readable b)" using crlf_inside [of "readable b"] k by simp
  note len = length_readable [OF inv]
  show "Buffer_FindCRLF b = Some (Buffer_Peek b + k)"
    using k FindCRLF_spec [OF inv] by (simp add: Let_def Buffer_Peek_def)
  show "slice (buf_buffer b) (Buffer_Peek b) (Buffer_Peek b + k) = take k (readable b)"
    using take_slice [of k "buf_writer_index b" "buf_reader_index b" "buf_buffer b"] le len
    by (simp add: readable_def Buffer_Peek_def)
  have "Buffer_Peek b + k + 2 \<le> Buffer_BeginWrite b"
    using le len buf_invD [OF inv] by (simp add: Buffer_Peek_def Buffer_BeginWrite_def)
  then have "Buffer_RetrieveUntil (Buffer_Peek b + k + 2) b = Buffer_Retrieve (k + 2) b"
    by (simp add: Buffer_RetrieveUntil_def)
  then show "\<exists>b'. Buffer_RetrieveUntil (Buffer_Peek b + k + 2) b = Inr b' \<and> buf_inv b' \<and>
      readable b' = drop (k + 2) (readable b)"
    using bq.get_ok [OF inv le] by simp
qed

lemma FindCRLF_none: "buf_inv b \<Longrightarrow> find_sub kCRLF (readable b) = length (readable b) \<Longrightarrow> Buffer_FindCRLF b = None"
  by (simp add: FindCRLF_spec Let_def)

definition agrees ::
  "(bool \<times> http_context \<times> buffer) result option \<Rightarrow> (bool \<times> http_context \<times> string) result \<Rightarrow> bool" where
  "agrees r sp \<longleftrightarrow>
     (case sp of
        Inl e \<Rightarrow> r = Some (Inl e)
      | Inr (good, c, xs) \<Rightarrow> \<exists>b. r = Some (Inr (good, c, b)) \<and> buf_inv b \<and> readable b = xs)"

text \<open>One turn of the loop does what the reference parser does with one line.\<close>

lemma ParseStep_line:
  assumes "buf_inv b" and "find_sub kCRLF (readable b) \<noteq> length (readable b)"
  shows "\<exists>b'. buf_inv b' \<and> readable b' = drop (find_sub kCRLF (readable b) + 2) (readable b) \<and>
    HttpContext_ParseStep t good c b =
      (case http_line t c (take (find_sub kCRLF (readable b)) (readable b)) of
         Inl e \<Rightarrow> Inl e
       | Inr (Goes_on c') \<Rightarrow> Inr (if ctx_state c = kexpect_request_line then True else good, True, c', b')
       | Inr (Rejects c') \<Rightarrow> Inr (False, False, c', b)
       | Inr (Finishes c') \<Rightarrow> Inr (good, False, c', b')
       | Inr Ignores \<Rightarrow> Inr (good, True, c, b))"
proof -
  let ?k = "find_sub kCRLF (readable b)"
  obtain b' where b': "Buffer_RetrieveUntil (Buffer_Peek b + ?k + 2) b = Inr b'" "buf_inv b'" "readable b' = drop (?k + 2) (readable b)"
    using FindCRLF_line(3) [OF assms(1) refl assms(2)] by auto
  note found = FindCRLF_line(1,2) [OF assms(1) refl assms(2)] b'(1) [simplified]
  have colon: "find_idx (CHR '':'') line \<noteq> length line \<longleftrightarrow> CHR '':'' \<in> set line" for line
    using find_idx_less_iff [of "CHR '':''" line] find_idx_le [of "CHR '':''" line] by linarith
  show ?thesis
  proof (intro exI [of _ b'] conjI)
    show "HttpContext_ParseStep t good c b =
      (case http_line t c (take ?k (readable b)) of
         Inl e \<Rightarrow> Inl e
       | Inr (Goes_on c') \<Rightarrow> Inr (if ctx_state c = kexpect_request_line then True else good, True, c', b')
       | Inr (Rejects c') \<Rightarrow> Inr (False, False, c', b)
       | Inr (Finishes c') \<Rightarrow> Inr (good, False, c', b')
       | Inr Ignores \<Rightarrow> Inr (good, True, c, b))"
      by (cases "HttpContext_ProcessRequestLine (take ?k (readable b)) c"; cases "ctx_state c")
        (auto simp: HttpContext_ParseStep_def http_line_def found colon Let_def)
  qed (use b' in simp_all)
qed

lemma ParseLoop_spec:
  assumes "buf_inv b" and "parsing c" and "readable b = xs"
  shows "agrees (HttpContext_ParseLoop t True c b) (http_spec t c xs)"
  using assms
proof (induction c xs arbitrary: b rule: http_lines_induct [where t = t])
  case (wait c xs)
  then show ?case
    by (subst HttpContext_ParseLoop.simps) (auto simp: HttpContext_ParseStep_def parsing_def FindCRLF_none http_spec_wait agrees_def)
next
  case (line c xs)
  let ?k = "find_sub kCRLF xs"
  obtain b' where b': "buf_inv b'" "readable b' = drop (?k + 2) xs" and
    step: "HttpContext_ParseStep t True c b =
      (case http_line t c (take ?k xs) of
         Inl e \<Rightarrow> Inl e
       | Inr (Goes_on c') \<Rightarrow> Inr (if ctx_state c = kexpect_request_line then True else True, True, c', b')
       | Inr (Rejects c') \<Rightarrow> Inr (False, False, c', b)
       | Inr (Finishes c') \<Rightarrow> Inr (True, False, c', b')
       | Inr Ignores \<Rightarrow> Inr (True, True, c, b))"
    using ParseStep_line [OF line.prems(1), of t True c] line.hyps line.prems(3) by blast
  have go: "agrees (HttpContext_ParseLoop t True c' b') (http_spec t c' (drop (?k + 2) xs))"
    if "http_line t c (take ?k xs) = Inr (Goes_on c')" for c'
    using line.IH [OF that b'(1) parsing_headers b'(2)] http_line_parsing(1) [OF that] by blast
  show ?case
    using go step line.prems b' http_line_parsing(4) [of t c "take ?k xs"]
    by (subst HttpContext_ParseLoop.simps)
      (auto simp: http_spec_next [OF line.hyps] agrees_def simp del: drop_drop split: sum.splits line_effect.splits)
qed

section \<open>Feeding a request in pieces\<close>

lemma crlf_append:
  assumes "find_sub kCRLF xs \<noteq> length xs"
  shows "find_sub kCRLF (xs @ ys) = find_sub kCRLF xs" "find_sub kCRLF (xs @ ys) \<noteq> length (xs @ ys)"
    "take (find_sub kCRLF xs) (xs @ ys) = take (find_sub kCRLF xs) xs"
    "drop (find_sub kCRLF xs + 2) (xs @ ys) = drop (find_sub kCRLF xs + 2) xs @ ys"
proof -
  have le: "find_sub kCRLF xs + 2 \<le> length xs" by (rule crlf_inside(1) [OF assms])
  show k: "find_sub kCRLF (xs @ ys) = find_sub kCRLF xs" using find_sub_append [OF _ assms] by (simp add: kCRLF_def)
  show "find_sub kCRLF (xs @ ys) \<noteq> length (xs @ ys)" using le unfolding k by simp
qed (use crlf_inside(1) [OF assms] in simp_all)

lemma http_spec_next_append:
  assumes "find_sub kCRLF xs \<noteq> length xs"
  shows "http_spec t c (xs @ ys) =
    (case http_line t c (take (find_sub kCRLF xs) xs) of
       Inl e \<Rightarrow> Inl e
     | Inr (Goes_on c') \<Rightarrow> http_spec t c' (drop (find_sub kCRLF xs + 2) xs @ ys)
     | Inr (Rejects c') \<Rightarrow> Inr (False, c', xs @ ys)
     | Inr (Finishes c') \<Rightarrow> Inr (True, c', drop (find_sub kCRLF xs + 2) xs @ ys)
     | Inr Ignores \<Rightarrow> Inr (True, c, xs @ ys))"
  using http_spec_next [OF crlf_append(2) [OF assms]] unfolding crlf_append(1,3,4) [OF assms] .

lemma http_spec_chunk:
  assumes "http_spec t c xs = Inr (True, c', rest)" and "parsing c'"
  shows "http_spec t c (xs @ ys) = http_spec t c' (rest @ ys)"
  using assms(1)
proof (induction c xs rule: http_lines_induct [where t = t])
  case (line c xs)
  show ?case
    using line.IH line.prems assms(2) http_line_parsing(3,4) [of t c "take (find_sub kCRLF xs) xs"]
    by (auto simp: http_spec_next [OF line.hyps] http_spec_next_append [OF line.hyps] parsing_def simp del: drop_drop
        split: sum.splits line_effect.splits)
qed (simp add: http_spec_wait)

section \<open>Printed requests\<close>

fun version_text :: "http_version \<Rightarrow> string" where
  "version_text khttp11 = ''HTTP/1.1''"
| "version_text khttp10 = ''HTTP/1.0''"
| "version_text kunknow = ''HTTP/?''"

definition request_line :: "http_request \<Rightarrow> string" where
  "request_line r = HttpRequest_MethodString r @ '' '' @ (req_path r @ req_query r) @ '' '' @
     version_text (req_version r)"

definition header_line :: "string \<times> string \<Rightarrow> string" where
  "header_line h = fst h @ '': '' @ snd h"

definition request_text :: "http_request \<Rightarrow> string" where
  "request_text r = request_line r @ kCRLF @
     concat (map (\<lambda>h. header_line h @ kCRLF) (req_headers r)) @ kCRLF"

definition printable_header :: "string \<times> string \<Rightarrow> bool" where
  "printable_header h \<longleftrightarrow> CHR '':'' \<notin> set (fst h) \<and> CHR 0x0D \<notin> set (fst h @ snd h) \<and>
     dropWhile isspace (snd h) = snd h \<and> rstrip (snd h) = snd h"

definition printable :: "http_request \<Rightarrow> bool" where
  "printable r \<longleftrightarrow> req_method r \<in> {kget, kpost, kput, kdelete} \<and> req_version r \<noteq> kunknow \<and>
     CHR ''?'' \<notin> set (req_path r) \<and> (req_query r = [] \<or> hd (req_query r) = CHR ''?'') \<and>
     CHR '' '' \<notin> set (req_path r @ req_query r) \<and> CHR 0x0D \<notin> set (req_path r @ req_query r) \<and>
     smap_ok (req_headers r) \<and> list_all printable_header (req_headers r)"

lemma crlf_here: "CHR 0x0D \<notin> set xs \<Longrightarrow> find_sub kCRLF (xs @ kCRLF @ ys) = length xs"
  by (induction xs) (auto simp: kCRLF_def)

lemma http_spec_line:
  assumes "CHR 0x0D \<notin> set line"
  shows "http_spec t c (line @ kCRLF @ rest) =
     (case ctx_state c of
        kexpect_request_line \<Rightarrow>
          (case HttpContext_ProcessRequestLine line c of
             Inl e \<Rightarrow> Inl e
           | Inr (good, c') \<Rightarrow>
               if good
               then http_spec t (c'\<lparr>ctx_request := (ctx_request c')\<lparr>req_receive_time := t\<rparr>,
                                    ctx_state := kexpect_headers\<rparr>) rest
               else Inr (False, c', line @ kCRLF @ rest))
      | kexpect_headers \<Rightarrow>
          if CHR '':'' \<in> set line
          then let colon = find_idx (CHR '':'') line
               in http_spec t (c\<lparr>ctx_request := HttpRequest_AddHeader (take colon line)
                                    (drop (colon + 1) line) (ctx_request c)\<rparr>) rest
          else Inr (True, c\<lparr>ctx_state := k_got_all\<rparr>, rest)
      | _ \<Rightarrow> Inr (True, c, line @ kCRLF @ rest))"
  using crlf_here [OF assms, of rest]
  by (subst http_spec.simps) (auto simp: http_line_def Let_def split: http_parse_state.splits sum.splits)

lemma smap_put_last: "\<forall>k'\<in>fst ` set m. k' < k \<Longrightarrow> smap_put k v m = m @ [(k, v)]"
  by (induction k v m rule: smap_put.induct) auto

lemma http_spec_headers:
  assumes "list_all printable_header hs" and "smap_ok (pre @ hs)" and "req_headers r = pre"
  shows "http_spec t \<lparr>ctx_state = kexpect_headers, ctx_request = r\<rparr>
           (concat (map (\<lambda>h. header_line h @ kCRLF) hs) @ kCRLF @ rest) =
         Inr (True, \<lparr>ctx_state = k_got_all, ctx_request = r\<lparr>req_headers := pre @ hs\<rparr>\<rparr>, rest)"
  using assms
proof (induction hs arbitrary: pre r)
  case Nil
  then show ?case using http_spec_line [of "[]" t _ rest] by simp
next
  case (Cons h hs)
  obtain k v where h: "h = (k, v)" by force
  have hp: "CHR '':'' \<notin> set k" "CHR 0x0D \<notin> set (header_line h)" "dropWhile isspace v = v" "rstrip v = v"
    using Cons.prems(1) by (auto simp: h printable_header_def header_line_def)
  have colon: "find_idx (CHR '':'') (header_line h) = length k"
    using find_idx_here [OF hp(1), of "CHR '' '' # v"] by (simp add: header_line_def h)
  have "\<forall>k'\<in>fst ` set pre. k' < k"
    using Cons.prems(2) by (auto simp: smap_ok_def sorted_wrt_append h)
  then have put: "smap_put k v pre = pre @ [(k, v)]" by (rule smap_put_last)
  let ?r = "r\<lparr>req_headers := pre @ [(k, v)]\<rparr>"
  have add: "HttpRequest_AddHeader k (CHR '' '' # v) r = ?r"
    using hp put Cons.prems(3) by (simp add: HttpRequest_AddHeader_def isspace_def)
  have "http_spec t \<lparr>ctx_state = kexpect_headers, ctx_request = ?r\<rparr>
           (concat (map (\<lambda>h. header_line h @ kCRLF) hs) @ kCRLF @ rest) =
         Inr (True, \<lparr>ctx_state = k_got_all, ctx_request = ?r\<lparr>req_headers := (pre @ [(k, v)]) @ hs\<rparr>\<rparr>, rest)"
    using Cons.prems by (intro Cons.IH) (simp_all add: h)
  moreover have "take (length k) (header_line h) = k" "drop (Suc (length k)) (header_line h) = CHR '' '' # v"
    "CHR '':'' \<in> set (header_line h)"
    by (simp_all add: header_line_def h)
  ultimately show ?case
    using http_spec_line [OF hp(2), of t "\<lparr>ctx_state = kexpect_headers, ctx_request = r\<rparr>"] colon add
    by (simp add: h)
qed

lemma set_method_text:
  assumes "req_method r \<in> {kget, kpost, kput, kdelete}" and "req_method r0 = kinvalid"
  shows "HttpRequest_SetMethod (HttpRequest_MethodString r) r0 = Inr (True, r0\<lparr>req_method := req_method r\<rparr>)"
  using assms by (auto simp: HttpRequest_SetMethod_def Let_def)

lemma split_target:
  assumes "CHR ''?'' \<notin> set p" and "q = [] \<or> hd q = CHR ''?''"
  shows "find_idx (CHR ''?'') (p @ q) = length p"
  using assms by (cases q) (auto simp: find_idx_notin find_idx_here)

lemma ProcessRequestLine_parts:
  assumes "CHR '' '' \<notin> set m" and "CHR '' '' \<notin> set target"
    and "HttpRequest_SetMethod m (ctx_request c) = Inr (True, r)"
  shows "HttpContext_ProcessRequestLine (m @ CHR '' '' # target @ CHR '' '' # v) c =
    (let question = find_idx (CHR ''?'') target;
         r2 = (if question \<noteq> length target
               then r\<lparr>req_path := take question target, req_query := drop question target\<rparr>
               else r\<lparr>req_path := target\<rparr>)
     in if length v = 8 \<and> take 7 v = ''HTTP/1.''
        then if v ! 7 = CHR ''1'' then Inr (True, c\<lparr>ctx_request := r2\<lparr>req_version := khttp11\<rparr>\<rparr>)
             else if v ! 7 = CHR ''0'' then Inr (True, c\<lparr>ctx_request := r2\<lparr>req_version := khttp10\<rparr>\<rparr>)
             else Inr (False, c\<lparr>ctx_request := r2\<rparr>)
        else Inr (False, c\<lparr>ctx_request := r2\<rparr>))"
  unfolding HttpContext_ProcessRequestLine_def request_setters
  by (simp add: find_idx_here assms)

lemma ProcessRequestLine_text:
  assumes "printable r"
  shows "HttpContext_ProcessRequestLine (request_line r) HttpContext_new =
    Inr (True, \<lparr>ctx_state = kexpect_request_line,
                ctx_request = r\<lparr>req_receive_time := Timestamp 0, req_headers := []\<rparr>\<rparr>)"
proof -
  let ?m = "HttpRequest_MethodString r" and ?p = "req_path r" and ?q = "req_query r"
  let ?v = "version_text (req_version r)"
  have line: "request_line r = ?m @ CHR '' '' # (?p @ ?q) @ CHR '' '' # ?v"
    by (simp add: request_line_def)
  have s1: "CHR '' '' \<notin> set ?m" by (simp split: http_method.splits)
  have s2: "CHR '' '' \<notin> set (?p @ ?q)" using assms by (simp add: printable_def)
  have s3: "find_idx (CHR ''?'') (?p @ ?q) = length ?p"
    using assms by (intro split_target) (auto simp: printable_def)
  have m: "HttpRequest_SetMethod ?m (ctx_request HttpContext_new) = Inr (True, HttpRequest_new\<lparr>req_method := req_method r\<rparr>)"
    using assms set_method_text [of r] by (simp add: printable_def HttpContext_new_def HttpRequest_new_def)
  have "req_version r = khttp11 \<or> req_version r = khttp10"
    using assms by (cases "req_version r") (auto simp: printable_def)
  then show ?thesis
    unfolding line ProcessRequestLine_parts [OF s1 s2 m] Let_def s3
    by (cases r) (auto simp: HttpContext_new_def HttpRequest_new_def)
qed

lemma request_line_no_cr:
  assumes "printable r"
  shows "CHR 0x0D \<notin> set (request_line r)"
proof -
  have "CHR 0x0D \<notin> set (HttpRequest_MethodString r)" by (simp split: http_method.splits)
  moreover have "CHR 0x0D \<notin> set (version_text (req_version r))" by (cases "req_version r") simp_all
  ultimately show ?thesis
    using assms by (simp add: request_line_def printable_def del: HttpRequest_MethodString.simps)
qed

lemma fresh_context [simp]: "ctx_state HttpContext_new = kexpect_request_line" "parsing HttpContext_new"
  by (simp_all add: parsing_def HttpContext_new_def)

lemma http_spec_printed:
  assumes "printable r"
  shows "http_spec t HttpContext_new (request_text r @ rest) =
    Inr (True, \<lparr>ctx_state = k_got_all, ctx_request = r\<lparr>req_receive_time := t\<rparr>\<rparr>, rest)"
proof -
  let ?r = "r\<lparr>req_headers := [], req_receive_time := t\<rparr>"
  have "http_spec t \<lparr>ctx_state = kexpect_headers, ctx_request = ?r\<rparr>
          (concat (map (\<lambda>h. header_line h @ kCRLF) (req_headers r)) @ kCRLF @ rest) =
        Inr (True, \<lparr>ctx_state = k_got_all, ctx_request = ?r\<lparr>req_headers := [] @ req_headers r\<rparr>\<rparr>, rest)"
    using assms by (intro http_spec_headers) (simp_all add: printable_def)
  moreover have "http_spec t HttpContext_new (request_text r @ rest) =
      http_spec t \<lparr>ctx_state = kexpect_headers, ctx_request = ?r\<rparr>
        (concat (map (\<lambda>h. header_line h @ kCRLF) (req_headers r)) @ kCRLF @ rest)"
    using http_spec_line [OF request_line_no_cr [OF assms], of t HttpContext_new]
    by (simp add: request_text_def ProcessRequestLine_text [OF assms])
  ultimately show ?thesis by (cases r) simp
qed


lemma ParseLoop_returns_parsing:
  assumes "HttpContext_ParseLoop t good c b = Some res"
  shows "parsing c"
proof (rule HttpContext_ParseLoop.raw_induct [where P = "\<lambda>t good c b res. parsing c", OF _ assms], goal_cases)
  case (1 loop t good c b res)
  then show ?case
    using "1"(1) [of t good c b res]
    by (cases "ctx_state c") (auto simp: HttpContext_ParseStep_def parsing_def)
qed

section \<open>Printing a response\<close>

lemma piece_put: "length s < 2 ^ 31 \<Longrightarrow> Buffer_Append_piece (StringPiece_string s) b = Buffer_put s b"
  by (simp add: Buffer_Append_piece_def StringPiece_string_def to_int32_in_range to_size_in_range Buffer_put_def)

lemma append_all_ok:
  assumes "buf_inv b" and "list_all (\<lambda>s. length s < 2 ^ 31) ss" and "buf_room (length (concat ss)) b"
  shows "\<exists>b'. append_all ss b = Inr b' \<and> buf_inv b' \<and> readable b' = readable b @ concat ss"
  using assms
proof (induction ss arbitrary: b)
  case (Cons s ss)
  have room: "buf_room (length s + length (concat ss)) b" using Cons.prems(3) by simp
  obtain c where c: "Buffer_put s b = Inr c" "buf_inv c" "readable c = readable b @ s"
    using bq.put_ok [OF Cons.prems(1) bq.room_mono [OF room le_add1]] by auto
  from Cons.IH [OF c(2) _ bq.put_room [OF Cons.prems(1) room c(1)]] Cons.prems(2) c
  show ?case by (auto simp: piece_put)
qed simp

definition response_text :: "http_response \<Rightarrow> string" where
  "response_text r =
     ''HTTP/1.1 '' @ int_dec (status_value (resp_status_code r)) @ '' '' @ resp_status_message r @ kCRLF
     @ (if resp_close_connection r then ''Connection: close'' @ kCRLF
        else ''Content-Length: '' @ nat_dec (length (resp_body r)) @ kCRLF @ ''Connection: Keep-Alive'' @ kCRLF)
     @ concat (map (\<lambda>h. header_line h @ kCRLF) (resp_headers r)) @ kCRLF @ resp_body r"

lemma status_digits: "length (int_dec (status_value s)) \<le> 3"
  by (cases s) (auto simp: int_dec_def intro!: nat_dec_length)

lemma concat_response_pieces:
  assumes "length (resp_body r) < 2 ^ 31"
  shows "concat (response_pieces r) = response_text r"
proof -
  have d: "length (nat_dec (length (resp_body r))) \<le> 13"
    using assms by (intro nat_dec_length) simp_all
  have "concat (concat (map (\<lambda>(k, v). [k, '': '', v, kCRLF]) hs)) =
      concat (map (\<lambda>h. header_line h @ kCRLF) hs)" for hs
    by (induction hs) (auto simp: header_line_def)
  with d status_digits [of "resp_status_code r"] show ?thesis
    by (auto simp: response_pieces_def response_text_def snprintf_buf_def int_dec_def)
qed

lemma small_pieces:
  assumes "length (response_text r) < 2 ^ 31"
  shows "list_all (\<lambda>s. length s < 2 ^ 31) (response_pieces r)"
proof -
  have body: "length (resp_body r) < 2 ^ 31" using assms by (simp add: response_text_def)
  have "length s \<le> length (concat (response_pieces r))" if "s \<in> set (response_pieces r)" for s
    using that by (induction "response_pieces r") (auto simp: length_concat member_le_sum_list)
  then show ?thesis using assms unfolding list_all_iff concat_response_pieces [OF body] by (meson le_less_trans)
qed

lemma ProcessRequestLine_head:
  "HttpContext_ProcessRequestLine (''HEAD '' @ xs) HttpContext_new = Inr (False, HttpContext_new)"
  by (simp add: HttpContext_ProcessRequestLine_def find_idx_def HttpRequest_SetMethod_def
      HttpContext_new_def HttpRequest_new_def)

lemma ProcessRequestLine_short:
  assumes "CHR '' '' \<notin> set xs"
  shows "HttpContext_ProcessRequestLine (''GET '' @ xs) HttpContext_new =
      Inr (False, HttpContext_new\<lparr>ctx_request := HttpRequest_new\<lparr>req_method := kget\<rparr>\<rparr>)"
    and "HttpContext_ProcessRequestLine (''GET '' @ xs)
      (HttpContext_new\<lparr>ctx_request := HttpRequest_new\<lparr>req_method := kget\<rparr>\<rparr>) = Inl Assert_failed"
  using assms find_idx_notin [OF assms]
  by (simp_all add: HttpContext_ProcessRequestLine_def find_idx_def HttpRequest_SetMethod_def
      HttpContext_new_def HttpRequest_new_def)

section \<open>Properties\<close>

definition parse_view ::
  "(bool \<times> http_context \<times> buffer) result option \<Rightarrow> (bool \<times> http_context \<times> string) result option" where
  "parse_view r = map_option (map_sum id (\<lambda>(good, c, b). (good, c, readable b))) r"

lemma agrees_view: "agrees r sp \<Longrightarrow> parse_view r = Some sp"
  by (auto simp: agrees_def parse_view_def split: sum.splits prod.splits)

lemma ParseRequest_view:
  "buf_inv b \<Longrightarrow> parsing c \<Longrightarrow> parse_view (HttpContext_ParseRequest t c b) = Some (http_spec t c (readable b))"
  unfolding HttpContext_ParseRequest_def by (intro agrees_view ParseLoop_spec) simp_all

definition sample_request :: http_request where
  "sample_request = \<lparr>req_method = kget, req_version = khttp11, req_path = ''/a'', req_query = ''?x=1'',
     req_receive_time = Timestamp 0, req_headers = [(''Host'', ''h''), (''X'', ''y z'')]\<rparr>"

lemma sample_printable [simp]: "printable sample_request"
  by (simp add: sample_request_def printable_def printable_header_def smap_ok_def rstrip_def isspace_def)

definition filled :: "string \<Rightarrow> buffer" where
  "filled xs = \<lparr>buf_buffer = replicate 8 (CHR 0x00) @ xs, buf_reader_index = 8, buf_writer_index = 8 + length xs\<rparr>"

lemma filled_inv [simp]: "length xs \<le> 1000 \<Longrightarrow> buf_inv (filled xs)" "readable (filled xs) = xs"
  by (simp_all add: filled_def buf_inv_def readable_def slice_def kcheap_prepend_def max_vector_def)

text \<open>C10. The request parser returns, and computes the reference parser: called on a well-formed input
  buffer with a context that still expects a request line or headers, the loop of \<open>ParseRequest\<close>
  ends; its verdict, its context and the bytes it leaves in the buffer are those of \<open>http_spec\<close>,
  and the buffer is well formed. The only abort is the reference parser's own (the assert of
  \<open>SetMethod\<close>).\<close>

theorem ParseRequest_refines_spec:
  assumes "buf_inv b" and "parsing c"
  shows "\<exists>res. HttpContext_ParseRequest t c b = Some res \<and>
    (case http_spec t c (readable b) of
       Inl e \<Rightarrow> res = Inl e
     | Inr (good, c', rest) \<Rightarrow> \<exists>b'. res = Inr (good, c', b') \<and> buf_inv b' \<and> readable b' = rest)"
  using ParseLoop_spec [OF assms refl, of t]
  by (auto simp: HttpContext_ParseRequest_def agrees_def split: sum.splits)

theorem ParseRequest_refines_spec_witness:
  "\<exists>c b'. HttpContext_ParseRequest (Timestamp 5) HttpContext_new (filled (request_text sample_request @ ''tail''))
     = Some (Inr (True, c, b')) \<and> HttpContext_GotAll c \<and> readable b' = ''tail''"
  using ParseRequest_refines_spec [of "filled (request_text sample_request @ ''tail'')" HttpContext_new "Timestamp 5"]
    http_spec_printed [OF sample_printable, of "Timestamp 5" "''tail''"]
  by (auto simp: HttpContext_GotAll_def request_text_def request_line_def header_line_def sample_request_def kCRLF_def)

text \<open>C13. Parsing does not depend on how the bytes arrive: when a first call consumes part of a
  request and asks for more, a second call on what it left plus new bytes gives the verdict,
  context and rest that one call on all the bytes would have given.\<close>

theorem ParseRequest_incremental:
  assumes "buf_inv b" and "parsing c"
    and "HttpContext_ParseRequest t c b = Some (Inr (True, c', b'))" and "parsing c'"
    and "buf_inv b1" and "readable b1 = readable b' @ ys"
    and "buf_inv b2" and "readable b2 = readable b @ ys"
  shows "parse_view (HttpContext_ParseRequest t c' b1) = parse_view (HttpContext_ParseRequest t c b2)"
proof -
  have "http_spec t c (readable b) = Inr (True, c', readable b')"
    using ParseRequest_view [OF assms(1,2), of t] by (simp add: assms(3) parse_view_def)
  from http_spec_chunk [OF this assms(4)] show ?thesis
    by (simp add: ParseRequest_view assms)
qed

theorem ParseRequest_incremental_witness:
  "\<exists>c' b'. HttpContext_ParseRequest (Timestamp 5) HttpContext_new (filled ''GET /'') = Some (Inr (True, c', b'))
    \<and> parse_view (HttpContext_ParseRequest (Timestamp 5) c' (filled (''GET /'' @ '' HTTP/1.1'' @ kCRLF)))
      = parse_view (HttpContext_ParseRequest (Timestamp 5) HttpContext_new (filled (''GET /'' @ '' HTTP/1.1'' @ kCRLF)))"
proof -
  have "agrees (HttpContext_ParseRequest (Timestamp 5) HttpContext_new (filled ''GET /''))
      (Inr (True, HttpContext_new, ''GET /''))"
    using ParseLoop_spec [of "filled ''GET /''" HttpContext_new "''GET /''" "Timestamp 5"]
    by (simp add: http_spec.simps kCRLF_def HttpContext_ParseRequest_def)
  then obtain b' where b': "HttpContext_ParseRequest (Timestamp 5) HttpContext_new (filled ''GET /'')
      = Some (Inr (True, HttpContext_new, b'))" "readable b' = ''GET /''" by (auto simp: agrees_def)
  with ParseRequest_incremental [OF _ _ b'(1), of "filled (''GET /'' @ '' HTTP/1.1'' @ kCRLF)"
      "'' HTTP/1.1'' @ kCRLF" "filled (''GET /'' @ '' HTTP/1.1'' @ kCRLF)"]
  show ?thesis by (auto simp: kCRLF_def)
qed

text \<open>C14. Round trip: a request printed in the wire format (any supported method, path, query, version,
  headers in order with trimmed values) is parsed back from a buffer that starts with it, field by
  field, whatever follows it; the receive time is the one of the call.\<close>

theorem request_roundtrip:
  assumes "printable r" and "buf_inv b" and "readable b = request_text r @ rest"
  shows "\<exists>b'. HttpContext_ParseRequest t HttpContext_new b =
      Some (Inr (True, \<lparr>ctx_state = k_got_all, ctx_request = r\<lparr>req_receive_time := t\<rparr>\<rparr>, b'))
    \<and> buf_inv b' \<and> readable b' = rest"
  using ParseLoop_spec [OF assms(2) fresh_context(2) assms(3), of t] http_spec_printed [OF assms(1), of t rest]
  by (auto simp: HttpContext_ParseRequest_def agrees_def)

theorem request_roundtrip_witness:
  "\<exists>b'. HttpContext_ParseRequest (Timestamp 9) HttpContext_new (filled (request_text sample_request)) =
      Some (Inr (True, \<lparr>ctx_state = k_got_all,
        ctx_request = sample_request\<lparr>req_receive_time := Timestamp 9\<rparr>\<rparr>, b')) \<and> readable b' = []"
  using request_roundtrip [OF sample_printable, of "filled (request_text sample_request)" "[]" "Timestamp 9"]
  by (auto simp: request_text_def request_line_def header_line_def sample_request_def kCRLF_def)

text \<open>C15. \<open>ParseRequest\<close> must not be called on a context that has all of a request or waits for a body:
  no branch of the loop then clears \<open>has_more\<close>, and the call never returns.\<close>

theorem ParseRequest_diverges:
  assumes "ctx_state c = k_got_all \<or> ctx_state c = kexpect_body"
  shows "HttpContext_ParseRequest t c b = None"
  using assms ParseLoop_returns_parsing [of t True c b]
  by (cases "HttpContext_ParseLoop t True c b") (auto simp: HttpContext_ParseRequest_def parsing_def)

theorem ParseRequest_diverges_witness:
  "HttpContext_ParseRequest (Timestamp 0) \<lparr>ctx_state = k_got_all, ctx_request = sample_request\<rparr> sample_buffer = None"
  using ParseRequest_diverges [of "\<lparr>ctx_state = k_got_all, ctx_request = sample_request\<rparr>" "Timestamp 0" sample_buffer]
  by simp



text \<open>The printed response: on a well-formed output buffer with room, \<open>AppendToBuffer\<close> appends
  exactly the status line, the connection headers, the headers in key order, the empty line and
  the body; the 32-character scratch buffer never cuts the status line, nor the length line of a
  body below 2 GiB.\<close>

theorem AppendToBuffer_text:
  assumes "buf_inv b" and "length (response_text r) < 2 ^ 31" and "buf_room (length (response_text r)) b"
  shows "\<exists>b'. HttpResponse_AppendToBuffer r b = Inr b' \<and> buf_inv b' \<and>
    readable b' = readable b @ response_text r"
proof -
  have "concat (response_pieces r) = response_text r"
    using assms(2) by (intro concat_response_pieces) (simp add: response_text_def)
  with append_all_ok [OF assms(1) small_pieces [OF assms(2)]] assms(3)
  show ?thesis by (simp add: HttpResponse_AppendToBuffer_def)
qed

theorem AppendToBuffer_text_witness:
  "\<exists>b'. HttpResponse_AppendToBuffer (HttpResponse_new True) sample_buffer = Inr b' \<and>
     readable b' = ''HTTP/1.1 0 '' @ kCRLF @ ''Connection: close'' @ kCRLF @ kCRLF"
proof -
  have "response_text (HttpResponse_new True) = ''HTTP/1.1 0 '' @ kCRLF @ ''Connection: close'' @ kCRLF @ kCRLF"
    by (simp add: response_text_def HttpResponse_new_def int_dec_def nat_dec.simps digit_char_eq_iff)
  then show ?thesis
    using AppendToBuffer_text [of sample_buffer "HttpResponse_new True"] by (auto simp: kCRLF_def)
qed

end
