(* ===== verification/Channel.thy ===== *)
theory Channel
  imports Timestamp "HOL-Library.Word"
begin

unbundle bit_operations_syntax

text \<open>
  \<open>dwater/net/channel.h\<close> and \<open>channel.cc\<close>: a channel watches one file descriptor for its owner.
  Channels live in a store (\<open>chan_ptr\<close> to \<open>channel\<close>), because the poller and the loop keep
  pointers to them. The event masks are the \<open>int\<close> bit masks of \<open>poll(2)\<close>. A callback member is
  the flag that says whether it is set; \<open>HandleEvent\<close> yields the sequence of callbacks it makes,
  which the owner of the channel (the connection, the acceptor, the timer queue) interprets.
  Calling an unset \<open>std::function\<close> throws. \<open>Update\<close> and \<open>Remove\<close> go on to the poller, so they are
  in the theories of the pollers and of the event loop.
\<close>

section \<open>Event masks\<close>

definition POLLIN :: "32 word" where "POLLIN = 0x001"
definition POLLPRI :: "32 word" where "POLLPRI = 0x002"
definition POLLOUT :: "32 word" where "POLLOUT = 0x004"
definition POLLERR :: "32 word" where "POLLERR = 0x008"
definition POLLHUP :: "32 word" where "POLLHUP = 0x010"
definition POLLNVAL :: "32 word" where "POLLNVAL = 0x020"
definition POLLRDHUP :: "32 word" where "POLLRDHUP = 0x2000"

definition knone_event :: "32 word" where "knone_event = 0"
definition kread_event :: "32 word" where "kread_event = POLLIN OR POLLPRI"
definition kwrite_event :: "32 word" where "kwrite_event = POLLOUT"

lemmas poll_bits = POLLIN_def POLLPRI_def POLLOUT_def POLLERR_def POLLHUP_def POLLNVAL_def POLLRDHUP_def
lemmas event_masks = knone_event_def kread_event_def kwrite_event_def poll_bits

section \<open>Channels\<close>

record channel =
  ch_fd :: int
  ch_events :: "32 word"
  ch_revents :: "32 word"
  ch_index :: int
  ch_log_hup :: bool
  ch_tied :: bool
  ch_event_handling :: bool
  ch_added_to_loop :: bool
  ch_read_callback :: bool
  ch_write_callback :: bool
  ch_close_callback :: bool
  ch_error_callback :: bool

type_synonym chan_ptr = nat
type_synonym chan_store = "chan_ptr \<Rightarrow> channel"

definition Channel_new :: "int \<Rightarrow> channel" where
  "Channel_new fd = \<lparr>ch_fd = fd, ch_events = 0, ch_revents = 0, ch_index = -1, ch_log_hup = True,
     ch_tied = False, ch_event_handling = False, ch_added_to_loop = False, ch_read_callback = False,
     ch_write_callback = False, ch_close_callback = False, ch_error_callback = False\<rparr>"

text \<open>\<open>~Channel\<close>: \<open>has_channel\<close> is the answer of \<open>loop_->HasChannel(this)\<close>.\<close>

definition Channel_destroy :: "bool \<Rightarrow> bool \<Rightarrow> channel \<Rightarrow> unit result" where
  "Channel_destroy in_loop_thread has_channel ch =
     c_assert (\<not> ch_event_handling ch)
       (c_assert (\<not> ch_added_to_loop ch)
         (if in_loop_thread then c_assert (\<not> has_channel) (Inr ()) else Inr ()))"

definition Channel_SetReadCallback :: "channel \<Rightarrow> channel" where
  "Channel_SetReadCallback ch = ch\<lparr>ch_read_callback := True\<rparr>"

definition Channel_SetWriteCallback :: "channel \<Rightarrow> channel" where
  "Channel_SetWriteCallback ch = ch\<lparr>ch_write_callback := True\<rparr>"

definition Channel_SetCloseCallback :: "channel \<Rightarrow> channel" where
  "Channel_SetCloseCallback ch = ch\<lparr>ch_close_callback := True\<rparr>"

definition Channel_SetErrorCallback :: "channel \<Rightarrow> channel" where
  "Channel_SetErrorCallback ch = ch\<lparr>ch_error_callback := True\<rparr>"

definition Channel_Tie :: "channel \<Rightarrow> channel" where
  "Channel_Tie ch = ch\<lparr>ch_tied := True\<rparr>"

definition Channel_SetRevents :: "32 word \<Rightarrow> channel \<Rightarrow> channel" where
  "Channel_SetRevents revt ch = ch\<lparr>ch_revents := revt\<rparr>"

definition Channel_SetIndex :: "int \<Rightarrow> channel \<Rightarrow> channel" where
  "Channel_SetIndex index ch = ch\<lparr>ch_index := index\<rparr>"

definition Channel_DoNotLogHup :: "channel \<Rightarrow> channel" where
  "Channel_DoNotLogHup ch = ch\<lparr>ch_log_hup := False\<rparr>"

definition Channel_IsNoneEvent :: "channel \<Rightarrow> bool" where
  "Channel_IsNoneEvent ch \<longleftrightarrow> ch_events ch = knone_event"

definition Channel_IsWriting :: "channel \<Rightarrow> bool" where
  "Channel_IsWriting ch \<longleftrightarrow> ch_events ch AND kwrite_event \<noteq> 0"

definition Channel_IsReading :: "channel \<Rightarrow> bool" where
  "Channel_IsReading ch \<longleftrightarrow> ch_events ch AND kread_event \<noteq> 0"

text \<open>
  The mask arithmetic of \<open>EnableReading\<close>, \<open>DisableReading\<close>, \<open>EnableWriting\<close>, \<open>DisableWriting\<close> and
  \<open>DisableAll\<close>, and the flag \<open>Update\<close> sets before it calls the loop.
\<close>

definition Channel_set_events :: "32 word \<Rightarrow> channel \<Rightarrow> channel" where
  "Channel_set_events e ch = ch\<lparr>ch_events := e, ch_added_to_loop := True\<rparr>"

definition Channel_EnableReading :: "channel \<Rightarrow> channel" where
  "Channel_EnableReading ch = Channel_set_events (ch_events ch OR kread_event) ch"

definition Channel_DisableReading :: "channel \<Rightarrow> channel" where
  "Channel_DisableReading ch = Channel_set_events (ch_events ch AND NOT kread_event) ch"

definition Channel_EnableWriting :: "channel \<Rightarrow> channel" where
  "Channel_EnableWriting ch = Channel_set_events (ch_events ch OR kwrite_event) ch"

definition Channel_DisableWriting :: "channel \<Rightarrow> channel" where
  "Channel_DisableWriting ch = Channel_set_events (ch_events ch AND NOT kwrite_event) ch"

definition Channel_DisableAll :: "channel \<Rightarrow> channel" where
  "Channel_DisableAll ch = Channel_set_events knone_event ch"

definition Channel_EventsToString :: "int \<Rightarrow> 32 word \<Rightarrow> string" where
  "Channel_EventsToString fd events =
     int_dec fd @ '': ''
     @ (if events AND POLLIN \<noteq> 0 then ''IN '' else [])
     @ (if events AND POLLPRI \<noteq> 0 then ''PRI '' else [])
     @ (if events AND POLLOUT \<noteq> 0 then ''OUT '' else [])
     @ (if events AND POLLHUP \<noteq> 0 then ''HUP '' else [])
     @ (if events AND POLLRDHUP \<noteq> 0 then ''RDHUP '' else [])
     @ (if events AND POLLERR \<noteq> 0 then ''ERR '' else [])
     @ (if events AND POLLNVAL \<noteq> 0 then ''NVAL '' else [])"

definition Channel_ReventsToString :: "channel \<Rightarrow> string" where
  "Channel_ReventsToString ch = Channel_EventsToString (ch_fd ch) (ch_revents ch)"

section \<open>Dispatch\<close>

datatype chan_action =
    Log_trace string
  | Log_warn_hup int
  | Log_warn_nval int
  | Error_callback
  | Read_callback timestamp
  | Write_callback

text \<open>
  \<open>HandleEventWithGuard\<close>: what it does, in order; an exception of an unset callback ends it with
  the fault. The flag \<open>event_handling_\<close> is set before the first action and cleared after the last.
\<close>

definition Channel_HandleEventWithGuard :: "timestamp \<Rightarrow> channel \<Rightarrow> chan_action list result" where
  "Channel_HandleEventWithGuard receive_time ch =
     (let revents = ch_revents ch in
      bindr (if revents AND POLLHUP \<noteq> 0 \<and> revents AND POLLIN = 0
             then bindr (if ch_close_callback ch
                         then (if ch_error_callback ch then Inr [Error_callback] else Inl Bad_function_call)
                         else Inr [])
                    (\<lambda>as. Inr ((if ch_log_hup ch then [Log_warn_hup (ch_fd ch)] else []) @ as))
             else Inr []) (\<lambda>hup.
      Inr (Log_trace (Channel_ReventsToString ch) # hup
        @ (if revents AND POLLNVAL \<noteq> 0 then [Log_warn_nval (ch_fd ch)] else [])
        @ (if revents AND (POLLERR OR POLLNVAL) \<noteq> 0 \<and> ch_error_callback ch then [Error_callback] else [])
        @ (if revents AND (POLLIN OR POLLPRI OR POLLRDHUP) \<noteq> 0 \<and> ch_read_callback ch
           then [Read_callback receive_time] else [])
        @ (if revents AND POLLOUT \<noteq> 0 \<and> ch_write_callback ch then [Write_callback] else []))))"

text \<open>\<open>HandleEvent\<close>: \<open>owner_alive\<close> is whether \<open>tie_.lock()\<close> gives the owner.\<close>

definition Channel_HandleEvent :: "bool \<Rightarrow> timestamp \<Rightarrow> channel \<Rightarrow> chan_action list result" where
  "Channel_HandleEvent owner_alive receive_time ch =
     (if ch_tied ch
      then (if owner_alive then Channel_HandleEventWithGuard receive_time ch else Inr [])
      else Channel_HandleEventWithGuard receive_time ch)"

section \<open>Lemmas\<close>

text \<open>The masks a channel can have: nothing, read, write, both.\<close>

definition valid_events :: "32 word \<Rightarrow> bool" where
  "valid_events e \<longleftrightarrow> e = 0 \<or> e = 3 \<or> e = 4 \<or> e = 7"

lemma valid_events_ops:
  assumes "valid_events (ch_events ch)"
  shows "valid_events (ch_events (Channel_EnableReading ch))"
    "valid_events (ch_events (Channel_DisableReading ch))"
    "valid_events (ch_events (Channel_EnableWriting ch))"
    "valid_events (ch_events (Channel_DisableWriting ch))"
    "valid_events (ch_events (Channel_DisableAll ch))"
  using assms
  by (auto simp: valid_events_def Channel_EnableReading_def Channel_DisableReading_def
      Channel_EnableWriting_def Channel_DisableWriting_def Channel_DisableAll_def
      Channel_set_events_def event_masks)

lemma channel_flags:
  assumes "valid_events (ch_events ch)"
  shows "Channel_IsWriting (Channel_EnableWriting ch)" "\<not> Channel_IsWriting (Channel_DisableWriting ch)"
    "Channel_IsReading (Channel_EnableReading ch)" "\<not> Channel_IsReading (Channel_DisableReading ch)"
    "Channel_IsWriting (Channel_EnableReading ch) \<longleftrightarrow> Channel_IsWriting ch"
    "Channel_IsWriting (Channel_DisableReading ch) \<longleftrightarrow> Channel_IsWriting ch"
    "Channel_IsReading (Channel_EnableWriting ch) \<longleftrightarrow> Channel_IsReading ch"
    "Channel_IsReading (Channel_DisableWriting ch) \<longleftrightarrow> Channel_IsReading ch"
    "Channel_IsNoneEvent ch \<longleftrightarrow> \<not> Channel_IsReading ch \<and> \<not> Channel_IsWriting ch"
  using assms
  by (auto simp: valid_events_def Channel_EnableReading_def Channel_DisableReading_def
      Channel_EnableWriting_def Channel_DisableWriting_def Channel_IsReading_def Channel_IsWriting_def
      Channel_IsNoneEvent_def Channel_set_events_def event_masks)

end
