(* ===== verification/Poller.thy ===== *)
theory Poller
  imports Channel
begin

unbundle bit_operations_syntax

text \<open>
  \<open>dwater/net/poller.h\<close>, \<open>poller.cc\<close>, \<open>poller/epoll_poller.h\<close>, \<open>poller/epoll_poller.cc\<close>,
  \<open>poller/poll_poller.h\<close> and \<open>poller/poll_poller.cc\<close>: the two I/O multiplexers behind the event loop.
  Both keep \<open>channels_\<close>, the map from file descriptors to channels, and write the channel's
  \<open>index_\<close>. The system calls are parameters: \<open>epoll_ctl\<close> answers with the number given to the
  operation and every call is recorded in \<open>ep_ctl_log\<close>, so that what the kernel was asked to watch
  is the replay of the log; \<open>epoll_wait\<close> and \<open>poll\<close> are the outcome they return. \<open>in_loop\<close> is whether
  the caller runs in the loop's thread (\<open>AssertInLoopThread\<close>, fatal otherwise).

  The locale \<open>poller\<close> is the contract of the base class: after any legal sequence of
  \<open>Channel::Update\<close> and \<open>Channel::Remove\<close> calls no assert has failed and the poller watches exactly
  the enabled channels with their current masks. Both pollers are interpretations.
\<close>

definition AssertInLoopThread :: "bool \<Rightarrow> 'a result \<Rightarrow> 'a result" where
  "AssertInLoopThread in_loop k = (if in_loop then k else Inl Log_fatal)"

lemma AssertInLoopThread_True [simp]: "AssertInLoopThread True k = k"
  by (simp add: AssertInLoopThread_def)

definition Poller_HasChannel :: "bool \<Rightarrow> (int \<times> chan_ptr) list \<Rightarrow> chan_ptr \<Rightarrow> chan_store \<Rightarrow> bool result" where
  "Poller_HasChannel in_loop channels c st =
     AssertInLoopThread in_loop (Inr (smap_get (ch_fd (st c)) channels = Some c))"

section \<open>The epoll poller\<close>

datatype epoll_op = EPOLL_CTL_ADD | EPOLL_CTL_DEL | EPOLL_CTL_MOD

record epoll_call =
  ec_op :: epoll_op
  ec_fd :: int
  ec_events :: "32 word"
  ec_ptr :: chan_ptr

record epoll_poller =
  ep_channels :: "(int \<times> chan_ptr) list"
  ep_events_size :: nat
  ep_ctl_log :: "epoll_call list"

definition knew :: int where "knew = -1"
definition kadded :: int where "kadded = 1"
definition kdeleted :: int where "kdeleted = 2"

definition kinit_event_list_size :: nat where "kinit_event_list_size = 16"

text \<open>The constructor, with the descriptor \<open>epoll_create1\<close> returned.\<close>

definition EpollPoller_new :: "int \<Rightarrow> epoll_poller result" where
  "EpollPoller_new epollfd =
     (if epollfd < 0 then Inl Log_fatal
      else Inr \<lparr>ep_channels = [], ep_events_size = kinit_event_list_size, ep_ctl_log = []\<rparr>)"

fun EpollPoller_OperationToString :: "epoll_op \<Rightarrow> string" where
  "EpollPoller_OperationToString EPOLL_CTL_ADD = ''ADD''"
| "EpollPoller_OperationToString EPOLL_CTL_DEL = ''DEL''"
| "EpollPoller_OperationToString EPOLL_CTL_MOD = ''MOD''"

text \<open>\<open>Update\<close>: a failed \<open>DEL\<close> is logged, any other failure is fatal.\<close>

definition EpollPoller_Update ::
  "int \<Rightarrow> epoll_op \<Rightarrow> chan_ptr \<Rightarrow> chan_store \<Rightarrow> epoll_poller \<Rightarrow> epoll_poller result" where
  "EpollPoller_Update ret operation c st p =
     (let event = \<lparr>ec_op = operation, ec_fd = ch_fd (st c), ec_events = ch_events (st c), ec_ptr = c\<rparr>;
          p' = p\<lparr>ep_ctl_log := ep_ctl_log p @ [event]\<rparr>
      in if ret < 0 \<and> operation \<noteq> EPOLL_CTL_DEL then Inl Log_fatal else Inr p')"

definition EpollPoller_UpdateChannel ::
  "bool \<Rightarrow> int \<Rightarrow> chan_ptr \<Rightarrow> chan_store \<Rightarrow> epoll_poller \<Rightarrow> (chan_store \<times> epoll_poller) result" where
  "EpollPoller_UpdateChannel in_loop ret c st p =
     AssertInLoopThread in_loop
      (let index = ch_index (st c); fd = ch_fd (st c) in
       if index = knew \<or> index = kdeleted
       then bindr (if index = knew
                   then c_assert (smap_get fd (ep_channels p) = None)
                          (Inr (p\<lparr>ep_channels := smap_put fd c (ep_channels p)\<rparr>))
                   else c_assert (smap_get fd (ep_channels p) \<noteq> None)
                          (Inr (p\<lparr>ep_channels := smap_put fd c (ep_channels p)\<rparr>)))
            (\<lambda>p1. let st1 = st(c := Channel_SetIndex kadded (st c))
                  in bindr (EpollPoller_Update ret EPOLL_CTL_ADD c st1 p1) (\<lambda>p2. Inr (st1, p2)))
       else c_assert (smap_get fd (ep_channels p) \<noteq> None)
             (c_assert (smap_get fd (ep_channels p) = Some c)
               (c_assert (index = kadded)
                 (if Channel_IsNoneEvent (st c)
                  then bindr (EpollPoller_Update ret EPOLL_CTL_DEL c st p)
                         (\<lambda>p1. Inr (st(c := Channel_SetIndex kdeleted (st c)), p1))
                  else bindr (EpollPoller_Update ret EPOLL_CTL_MOD c st p) (\<lambda>p1. Inr (st, p1))))))"

definition EpollPoller_RemoveChannel ::
  "bool \<Rightarrow> int \<Rightarrow> chan_ptr \<Rightarrow> chan_store \<Rightarrow> epoll_poller \<Rightarrow> (chan_store \<times> epoll_poller) result" where
  "EpollPoller_RemoveChannel in_loop ret c st p =
     AssertInLoopThread in_loop
      (let fd = ch_fd (st c); index = ch_index (st c) in
       c_assert (smap_get fd (ep_channels p) \<noteq> None)
        (c_assert (smap_get fd (ep_channels p) = Some c)
          (c_assert (Channel_IsNoneEvent (st c))
            (c_assert (index = kadded \<or> index = kdeleted)
              (let p1 = p\<lparr>ep_channels := smap_erase fd (ep_channels p)\<rparr>
               in bindr (if index = kadded then EpollPoller_Update ret EPOLL_CTL_DEL c st p1 else Inr p1)
                    (\<lambda>p2. Inr (st(c := Channel_SetIndex knew (st c)), p2)))))))"

text \<open>
  \<open>FillActiveChannels(num_events, active_channels)\<close> on the events \<open>epoll_wait\<close> stored: pairs of the
  returned mask and the registered pointer.
\<close>

fun epoll_fill ::
  "epoll_poller \<Rightarrow> (32 word \<times> chan_ptr) list \<Rightarrow> chan_store \<Rightarrow> chan_ptr list \<Rightarrow> (chan_store \<times> chan_ptr list) result"
where
  "epoll_fill p [] st active = Inr (st, active)"
| "epoll_fill p ((events, c) # evs) st active =
     c_assert (smap_get (ch_fd (st c)) (ep_channels p) \<noteq> None)
      (c_assert (smap_get (ch_fd (st c)) (ep_channels p) = Some c)
        (epoll_fill p evs (st(c := Channel_SetRevents events (st c))) (active @ [c])))"

definition EpollPoller_FillActiveChannels ::
  "epoll_poller \<Rightarrow> (32 word \<times> chan_ptr) list \<Rightarrow> chan_store \<Rightarrow> chan_ptr list \<Rightarrow> (chan_store \<times> chan_ptr list) result"
where
  "EpollPoller_FillActiveChannels p evs st active =
     c_assert (length evs \<le> ep_events_size p) (epoll_fill p evs st active)"

definition EpollPoller_Poll ::
  "int + (32 word \<times> chan_ptr) list \<Rightarrow> timestamp \<Rightarrow> chan_ptr list \<Rightarrow> chan_store \<Rightarrow> epoll_poller \<Rightarrow>
     (timestamp \<times> chan_ptr list \<times> chan_store \<times> epoll_poller) result" where
  "EpollPoller_Poll epoll_wait now active st p =
     (case epoll_wait of
        Inl err \<Rightarrow> Inr (now, active, st, p)
      | Inr evs \<Rightarrow>
          if length evs > 0
          then bindr (EpollPoller_FillActiveChannels p evs st active) (\<lambda>(st', active').
                 Inr (now, active', st',
                   if length evs = ep_events_size p
                   then p\<lparr>ep_events_size := ep_events_size p * 2\<rparr> else p))
          else Inr (now, active, st, p))"

section \<open>The poll poller\<close>

record pollfd =
  pfd_fd :: int
  pfd_events :: "16 word"
  pfd_revents :: "16 word"

record poll_poller =
  pp_channels :: "(int \<times> chan_ptr) list"
  pp_pollfds :: "pollfd list"

definition PollPoller_new :: poll_poller where
  "PollPoller_new = \<lparr>pp_channels = [], pp_pollfds = []\<rparr>"

definition PollPoller_UpdateChannel ::
  "bool \<Rightarrow> chan_ptr \<Rightarrow> chan_store \<Rightarrow> poll_poller \<Rightarrow> (chan_store \<times> poll_poller) result" where
  "PollPoller_UpdateChannel in_loop c st p =
     AssertInLoopThread in_loop
      (let fd = ch_fd (st c) in
       if ch_index (st c) < 0
       then c_assert (smap_get fd (pp_channels p) = None)
             (let pfd = \<lparr>pfd_fd = fd, pfd_events = ucast (ch_events (st c)), pfd_revents = 0\<rparr>;
                  pollfds = pp_pollfds p @ [pfd];
                  index = int (length pollfds) - 1
              in Inr (st(c := Channel_SetIndex index (st c)),
                      \<lparr>pp_channels = smap_put fd c (pp_channels p), pp_pollfds = pollfds\<rparr>))
       else c_assert (smap_get fd (pp_channels p) \<noteq> None)
             (c_assert (smap_get fd (pp_channels p) = Some c)
               (let index = ch_index (st c) in
                c_assert (index \<ge> 0 \<and> index < int (length (pp_pollfds p)))
                 (let pfd = pp_pollfds p ! nat index in
                  c_assert (pfd_fd pfd = fd \<or> pfd_fd pfd = - fd - 1)
                   (let pfd1 = pfd\<lparr>pfd_fd := fd, pfd_events := ucast (ch_events (st c)), pfd_revents := 0\<rparr>;
                        pfd2 = (if Channel_IsNoneEvent (st c) then pfd1\<lparr>pfd_fd := - fd - 1\<rparr> else pfd1)
                    in Inr (st, p\<lparr>pp_pollfds := (pp_pollfds p)[nat index := pfd2]\<rparr>))))))"

text \<open>
  The last entry takes the place of the removed one, and the channel of the moved descriptor gets
  the new index; \<open>channels_[fd]\<close> of a descriptor that is not there would be a null pointer.
\<close>

definition PollPoller_RemoveChannel ::
  "bool \<Rightarrow> chan_ptr \<Rightarrow> chan_store \<Rightarrow> poll_poller \<Rightarrow> (chan_store \<times> poll_poller) result" where
  "PollPoller_RemoveChannel in_loop c st p =
     AssertInLoopThread in_loop
      (let fd = ch_fd (st c) in
       c_assert (smap_get fd (pp_channels p) \<noteq> None)
        (c_assert (smap_get fd (pp_channels p) = Some c)
          (c_assert (Channel_IsNoneEvent (st c))
            (let index = ch_index (st c) in
             c_assert (index \<ge> 0 \<and> index < int (length (pp_pollfds p)))
              (let pfd = pp_pollfds p ! nat index in
               c_assert (pfd_fd pfd = - fd - 1 \<and> scast (pfd_events pfd) = ch_events (st c))
                (let channels = smap_erase fd (pp_channels p) in
                 if nat index = length (pp_pollfds p) - 1
                 then Inr (st, \<lparr>pp_channels = channels, pp_pollfds = butlast (pp_pollfds p)\<rparr>)
                 else let back = pfd_fd (last (pp_pollfds p));
                          fd_at_end = (if back < 0 then - back - 1 else back)
                      in case smap_get fd_at_end channels of
                           None \<Rightarrow> Inl Bad_access
                         | Some d \<Rightarrow>
                             Inr (st(d := Channel_SetIndex index (st d)),
                                  \<lparr>pp_channels = channels,
                                   pp_pollfds = butlast ((pp_pollfds p)[nat index := last (pp_pollfds p)])\<rparr>)))))))"

fun poll_fill ::
  "poll_poller \<Rightarrow> pollfd list \<Rightarrow> nat \<Rightarrow> chan_store \<Rightarrow> chan_ptr list \<Rightarrow> (chan_store \<times> chan_ptr list) result"
where
  "poll_fill p [] n st active = Inr (st, active)"
| "poll_fill p (pfd # pfds) n st active =
     (if n = 0 then Inr (st, active)
      else if 0 < sint (pfd_revents pfd)
      then (case smap_get (pfd_fd pfd) (pp_channels p) of
              None \<Rightarrow> Inl Assert_failed
            | Some c \<Rightarrow>
                c_assert (ch_fd (st c) = pfd_fd pfd)
                  (poll_fill p pfds (n - 1) (st(c := Channel_SetRevents (scast (pfd_revents pfd)) (st c)))
                     (active @ [c])))
      else poll_fill p pfds n st active)"

definition PollPoller_FillActiveChannels ::
  "poll_poller \<Rightarrow> nat \<Rightarrow> chan_store \<Rightarrow> chan_ptr list \<Rightarrow> (chan_store \<times> chan_ptr list) result" where
  "PollPoller_FillActiveChannels p num_events st active = poll_fill p (pp_pollfds p) num_events st active"

text \<open>\<open>Poll\<close>: \<open>poll(2)\<close> fails with an error number, or returns a count and stores the \<open>revents\<close>.\<close>

definition PollPoller_Poll ::
  "int + nat \<times> 16 word list \<Rightarrow> timestamp \<Rightarrow> chan_ptr list \<Rightarrow> chan_store \<Rightarrow> poll_poller \<Rightarrow>
     (timestamp \<times> chan_ptr list \<times> chan_store \<times> poll_poller) result" where
  "PollPoller_Poll poll now active st p =
     (case poll of
        Inl err \<Rightarrow> Inr (now, active, st, p)
      | Inr (num_events, revs) \<Rightarrow>
          let p1 = p\<lparr>pp_pollfds := map2 (\<lambda>pfd r. pfd\<lparr>pfd_revents := r\<rparr>) (pp_pollfds p) revs\<rparr>
          in if num_events > 0
             then bindr (PollPoller_FillActiveChannels p1 num_events st active)
                    (\<lambda>(st', active'). Inr (now, active', st', p1))
             else Inr (now, active, st, p1))"

section \<open>The contract of a poller\<close>

datatype chan_op = Set_events chan_ptr "32 word" | Remove_chan chan_ptr

text \<open>
  What a client does to its channels: \<open>Channel::Update\<close> after it changed the mask, and
  \<open>Channel::Remove\<close>.
\<close>

fun chan_step ::
  "(chan_ptr \<Rightarrow> chan_store \<Rightarrow> 'p \<Rightarrow> (chan_store \<times> 'p) result) \<Rightarrow>
   (chan_ptr \<Rightarrow> chan_store \<Rightarrow> 'p \<Rightarrow> (chan_store \<times> 'p) result) \<Rightarrow>
   chan_op \<Rightarrow> chan_store \<times> 'p \<Rightarrow> (chan_store \<times> 'p) result"
where
  "chan_step update remove (Set_events c e) (st, p) = update c (st(c := Channel_set_events e (st c))) p"
| "chan_step update remove (Remove_chan c) (st, p) =
     c_assert (Channel_IsNoneEvent (st c)) (remove c (st(c := (st c)\<lparr>ch_added_to_loop := False\<rparr>)) p)"

fun chan_run ::
  "(chan_ptr \<Rightarrow> chan_store \<Rightarrow> 'p \<Rightarrow> (chan_store \<times> 'p) result) \<Rightarrow>
   (chan_ptr \<Rightarrow> chan_store \<Rightarrow> 'p \<Rightarrow> (chan_store \<times> 'p) result) \<Rightarrow>
   chan_op list \<Rightarrow> chan_store \<times> 'p \<Rightarrow> (chan_store \<times> 'p) result"
where
  "chan_run update remove [] s = Inr s"
| "chan_run update remove (op # ops) s = bindr (chan_step update remove op s) (chan_run update remove ops)"

text \<open>
  The abstract poller: the channels it has with their masks, and the channels it ever had. An
  operation is legal when the channel is there, or was never there before, asks for some event and
  has a descriptor of its own; removal is legal when the mask is empty.
\<close>

type_synonym watch = "(chan_ptr \<times> 32 word) list \<times> chan_ptr list"

fun spec_step :: "(chan_ptr \<Rightarrow> int) \<Rightarrow> chan_op \<Rightarrow> watch \<Rightarrow> watch option" where
  "spec_step fd (Set_events c e) (a, used) =
     (if valid_events e \<and>
         (smap_get c a \<noteq> None \<or> (c \<notin> set used \<and> e \<noteq> 0 \<and> 0 \<le> fd c \<and> fd c \<notin> fd ` fst ` set a))
      then Some (smap_put c e a, c # used) else None)"
| "spec_step fd (Remove_chan c) (a, used) =
     (if smap_get c a = Some 0 then Some (smap_erase c a, used) else None)"

fun spec_run :: "(chan_ptr \<Rightarrow> int) \<Rightarrow> chan_op list \<Rightarrow> watch \<Rightarrow> watch option" where
  "spec_run fd [] w = Some w"
| "spec_run fd (op # ops) w = (case spec_step fd op w of None \<Rightarrow> None | Some w' \<Rightarrow> spec_run fd ops w')"

locale poller =
  fixes invar :: "chan_store \<Rightarrow> 'p \<Rightarrow> bool"
    and channels :: "'p \<Rightarrow> (int \<times> chan_ptr) list"
    and watched :: "'p \<Rightarrow> int \<rightharpoonup> 32 word \<times> chan_ptr"
    and update :: "chan_ptr \<Rightarrow> chan_store \<Rightarrow> 'p \<Rightarrow> (chan_store \<times> 'p) result"
    and remove :: "chan_ptr \<Rightarrow> chan_store \<Rightarrow> 'p \<Rightarrow> (chan_store \<times> 'p) result"
  assumes invar_channels: "invar st p \<Longrightarrow> smap_get f (channels p) = Some c \<Longrightarrow> ch_fd (st c) = f"
    and invar_watched: "invar st p \<Longrightarrow>
      watched p f = (case smap_get f (channels p) of None \<Rightarrow> None
        | Some c \<Rightarrow> if ch_events (st c) = 0 then None else Some (ch_events (st c), c))"
    and update_ok: "invar st p \<Longrightarrow> valid_events e \<Longrightarrow>
      smap_get (ch_fd (st c)) (channels p) = Some c \<or>
      (smap_get (ch_fd (st c)) (channels p) = None \<and> ch_index (st c) = -1 \<and> e \<noteq> 0 \<and> 0 \<le> ch_fd (st c)) \<Longrightarrow>
      \<exists>st' p' i. update c (st(c := Channel_set_events e (st c))) p = Inr (st', p') \<and> invar st' p' \<and>
        (\<forall>f. smap_get f (channels p') = (if f = ch_fd (st c) then Some c else smap_get f (channels p))) \<and>
        st' = st(c := Channel_SetIndex i (Channel_set_events e (st c)))"
    and remove_ok: "invar st p \<Longrightarrow> smap_get (ch_fd (st c)) (channels p) = Some c \<Longrightarrow> ch_events (st c) = 0 \<Longrightarrow>
      \<exists>st' p'. remove c (st(c := (st c)\<lparr>ch_added_to_loop := False\<rparr>)) p = Inr (st', p') \<and> invar st' p' \<and>
        (\<forall>f. smap_get f (channels p') = (if f = ch_fd (st c) then None else smap_get f (channels p))) \<and>
        (\<forall>d. ch_fd (st' d) = ch_fd (st d) \<and> ch_events (st' d) = ch_events (st d) \<and>
             (smap_get (ch_fd (st d)) (channels p) \<noteq> Some d \<longrightarrow> st' d = st d))"
begin

definition represents :: "(chan_ptr \<Rightarrow> int) \<Rightarrow> watch \<Rightarrow> chan_store \<times> 'p \<Rightarrow> bool" where
  "represents fd w s \<longleftrightarrow>
     (case (w, s) of ((a, used), (st, p)) \<Rightarrow>
        invar st p \<and> (\<forall>c. ch_fd (st c) = fd c) \<and>
        (\<forall>c e. smap_get c a = Some e \<longleftrightarrow> smap_get (fd c) (channels p) = Some c \<and> ch_events (st c) = e) \<and>
        (\<forall>c. c \<notin> set used \<longrightarrow> smap_get c a = None \<and> ch_index (st c) = -1))"

lemma representsD:
  assumes "represents fd (a, used) (st, p)"
  shows "invar st p" "ch_fd (st c) = fd c"
    "smap_get c a = Some e \<longleftrightarrow> smap_get (fd c) (channels p) = Some c \<and> ch_events (st c) = e"
    "c \<notin> set used \<Longrightarrow> smap_get c a = None \<and> ch_index (st c) = -1"
  using assms by (auto simp: represents_def)

text \<open>A channel that the specification does not know, with a descriptor of its own, is new to the poller.\<close>

lemma unknown_descriptor:
  assumes rep: "represents fd (a, used) (st, p)" and "fd c \<notin> fd ` fst ` set a"
  shows "smap_get (fd c) (channels p) = None"
proof (rule ccontr)
  assume "smap_get (fd c) (channels p) \<noteq> None"
  then obtain d where d: "smap_get (fd c) (channels p) = Some d" by auto
  then have "fd d = fd c" using invar_channels [OF representsD(1) [OF rep] d] representsD(2) [OF rep] by simp
  with representsD(3) [OF rep, of d] d have "smap_get d a = Some (ch_events (st d))" by simp
  then have "d \<in> fst ` set a" by (force simp: smap_get_def dest: map_of_SomeD)
  with assms(2) \<open>fd d = fd c\<close> show False by (metis image_eqI)
qed

lemma set_events_refines:
  assumes rep: "represents fd (a, used) (st, p)" and sp: "spec_step fd (Set_events c e) (a, used) = Some w'"
  shows "\<exists>s'. chan_step update remove (Set_events c e) (st, p) = Inr s' \<and> represents fd w' s'"
proof -
  note D = representsD [OF rep]
  from sp have legal: "valid_events e" and w': "w' = (smap_put c e a, c # used)"
    and alt: "smap_get c a \<noteq> None \<or> (c \<notin> set used \<and> e \<noteq> 0 \<and> 0 \<le> fd c \<and> fd c \<notin> fd ` fst ` set a)"
    by (auto split: if_splits)
  have known: "smap_get (fd c) (channels p) = Some c \<or>
      (smap_get (fd c) (channels p) = None \<and> ch_index (st c) = -1 \<and> e \<noteq> 0 \<and> 0 \<le> fd c)"
    using alt D(3,4) unknown_descriptor [OF rep, of c] by fastforce
  from update_ok [OF D(1) legal, of c] known obtain st' p' i where
    u: "update c (st(c := Channel_set_events e (st c))) p = Inr (st', p')" "invar st' p'"
    and chs: "\<And>f. smap_get f (channels p') = (if f = fd c then Some c else smap_get f (channels p))"
    and st': "st' = st(c := Channel_SetIndex i (Channel_set_events e (st c)))"
    unfolding D(2) by blast
  have "represents fd w' (st', p')"
    unfolding represents_def w' using u(2) st' chs D known
    by (auto simp: smap_get_put Channel_SetIndex_def Channel_set_events_def split: if_splits)
  then show ?thesis using u(1) by auto
qed

lemma remove_refines:
  assumes rep: "represents fd (a, used) (st, p)" and sp: "spec_step fd (Remove_chan c) (a, used) = Some w'"
  shows "\<exists>s'. chan_step update remove (Remove_chan c) (st, p) = Inr s' \<and> represents fd w' s'"
proof -
  note D = representsD [OF rep]
  from sp have c: "smap_get c a = Some 0" and w': "w' = (smap_erase c a, used)" by (auto split: if_splits)
  then have known: "smap_get (fd c) (channels p) = Some c" "ch_events (st c) = 0" using D(3) by auto
  from remove_ok [OF D(1), of c] known obtain st' p' where
    u: "remove c (st(c := (st c)\<lparr>ch_added_to_loop := False\<rparr>)) p = Inr (st', p')" "invar st' p'"
    and chs: "\<And>f. smap_get f (channels p') = (if f = fd c then None else smap_get f (channels p))"
    and st': "\<And>d. ch_fd (st' d) = fd d \<and> ch_events (st' d) = ch_events (st d) \<and>
      (smap_get (fd d) (channels p) \<noteq> Some d \<longrightarrow> st' d = st d)"
    unfolding D(2) by blast
  have unreg: "smap_get d a = None \<and> ch_index (st d) = -1 \<and> smap_get (fd d) (channels p) \<noteq> Some d"
    if "d \<notin> set used" for d using D(4) [OF that] D(3) [of d "ch_events (st d)"] by auto
  have "represents fd w' (st', p')"
    unfolding represents_def w' using u(2) st' chs D(3) unreg known by (auto simp: smap_get_erase split: if_splits)
  then show ?thesis using u(1) known(2) by (auto simp: Channel_IsNoneEvent_def knone_event_def)
qed

lemma step_refines:
  assumes "represents fd w s" and "spec_step fd op w = Some w'"
  shows "\<exists>s'. chan_step update remove op s = Inr s' \<and> represents fd w' s'"
  using assms set_events_refines remove_refines by (cases op; cases w; cases s) blast+

lemma run_refines:
  assumes "represents fd w s" and "spec_run fd ops w = Some w'"
  shows "\<exists>s'. chan_run update remove ops s = Inr s' \<and> represents fd w' s'"
  using assms
proof (induction ops arbitrary: w s)
  case (Cons op ops)
  then obtain w1 where w1: "spec_step fd op w = Some w1" "spec_run fd ops w1 = Some w'"
    by (auto split: option.splits)
  from step_refines [OF Cons.prems(1) w1(1)] obtain s1 where
    "chan_step update remove op s = Inr s1" "represents fd w1 s1" by blast
  with Cons.IH [OF _ w1(2)] show ?case by auto
qed simp

lemma represents_watched:
  assumes "represents fd (a, used) (st, p)"
  shows "watched p f = Some (e, c) \<longleftrightarrow> fd c = f \<and> smap_get c a = Some e \<and> e \<noteq> 0"
proof -
  from assms have inv: "invar st p" and fds: "\<And>c. ch_fd (st c) = fd c"
    and a: "\<And>c e. smap_get c a = Some e \<longleftrightarrow> smap_get (fd c) (channels p) = Some c \<and> ch_events (st c) = e"
    by (auto simp: represents_def)
  show ?thesis
  proof (cases "smap_get f (channels p)")
    case None
    then have "watched p f = None" by (simp add: invar_watched [OF inv])
    then show ?thesis unfolding a using None by auto
  next
    case (Some d)
    then have d: "fd d = f" using invar_channels [OF inv Some] fds by simp
    have w: "watched p f = (if ch_events (st d) = 0 then None else Some (ch_events (st d), d))"
      by (simp add: invar_watched [OF inv] Some)
    show ?thesis unfolding w a using Some d by (cases "c = d") auto
  qed
qed

end

section \<open>The epoll poller keeps the contract\<close>

text \<open>
  What the documentation of \<open>epoll_ctl\<close> says of a sequence of successful calls: the interest list
  they leave, and that a call is legal (\<open>ADD\<close> of an absent descriptor, \<open>MOD\<close> or \<open>DEL\<close> of a present one).
\<close>

definition epoll_apply :: "epoll_call \<Rightarrow> (int \<rightharpoonup> 32 word \<times> chan_ptr) \<Rightarrow> (int \<rightharpoonup> 32 word \<times> chan_ptr)" where
  "epoll_apply call k =
     (if ec_op call = EPOLL_CTL_DEL then k(ec_fd call := None)
      else k(ec_fd call \<mapsto> (ec_events call, ec_ptr call)))"

definition epoll_interest :: "epoll_call list \<Rightarrow> (int \<rightharpoonup> 32 word \<times> chan_ptr)" where
  "epoll_interest calls = fold epoll_apply calls Map.empty"

fun epoll_legal :: "(int \<rightharpoonup> 32 word \<times> chan_ptr) \<Rightarrow> epoll_call list \<Rightarrow> bool" where
  "epoll_legal k [] \<longleftrightarrow> True"
| "epoll_legal k (call # calls) \<longleftrightarrow>
     (if ec_op call = EPOLL_CTL_ADD then k (ec_fd call) = None else k (ec_fd call) \<noteq> None) \<and>
     epoll_legal (epoll_apply call k) calls"

lemma epoll_interest_snoc [simp]: "epoll_interest (calls @ [call]) = epoll_apply call (epoll_interest calls)"
  by (simp add: epoll_interest_def)

lemma epoll_legal_snoc:
  "epoll_legal k (calls @ [call]) \<longleftrightarrow> epoll_legal k calls \<and>
     (if ec_op call = EPOLL_CTL_ADD then fold epoll_apply calls k (ec_fd call) = None
      else fold epoll_apply calls k (ec_fd call) \<noteq> None)"
  by (induction calls arbitrary: k) auto

definition epoll_watched :: "epoll_poller \<Rightarrow> int \<rightharpoonup> 32 word \<times> chan_ptr" where
  "epoll_watched p f = (case epoll_interest (ep_ctl_log p) f of None \<Rightarrow> None
     | Some (e, c) \<Rightarrow> if e = 0 then None else Some (e, c))"

definition epoll_inv :: "chan_store \<Rightarrow> epoll_poller \<Rightarrow> bool" where
  "epoll_inv st p \<longleftrightarrow>
     epoll_legal Map.empty (ep_ctl_log p) \<and>
     (\<forall>f c. smap_get f (ep_channels p) = Some c \<longrightarrow> ch_fd (st c) = f \<and>
        (ch_index (st c) = kadded \<or> ch_index (st c) = kdeleted \<and> ch_events (st c) = 0)) \<and>
     (\<forall>f. epoll_interest (ep_ctl_log p) f =
        (case smap_get f (ep_channels p) of None \<Rightarrow> None
         | Some c \<Rightarrow> if ch_index (st c) = kadded then Some (ch_events (st c), c) else None))"

lemmas epoll_defs = epoll_inv_def epoll_watched_def EpollPoller_UpdateChannel_def EpollPoller_RemoveChannel_def
  EpollPoller_Update_def Channel_SetIndex_def Channel_set_events_def Channel_IsNoneEvent_def
  knone_event_def knew_def kadded_def kdeleted_def

lemma epoll_log_legal:
  "epoll_legal Map.empty (calls @ [call]) \<longleftrightarrow> epoll_legal Map.empty calls \<and>
     (if ec_op call = EPOLL_CTL_ADD then epoll_interest calls (ec_fd call) = None
      else epoll_interest calls (ec_fd call) \<noteq> None)"
  by (simp add: epoll_legal_snoc epoll_interest_def)

lemma epoll_invD:
  assumes "epoll_inv st p"
  shows "epoll_legal Map.empty (ep_ctl_log p)"
    and "smap_get f (ep_channels p) = Some d \<Longrightarrow> ch_fd (st d) = f \<and>
      (ch_index (st d) = kadded \<or> ch_index (st d) = kdeleted \<and> ch_events (st d) = 0)"
    and "epoll_interest (ep_ctl_log p) f =
      (case smap_get f (ep_channels p) of None \<Rightarrow> None
       | Some c \<Rightarrow> if ch_index (st c) = kadded then Some (ch_events (st c), c) else None)"
  using assms unfolding epoll_inv_def by blast+

text \<open>One step of the proof that both operations keep the invariant: only channel \<open>c\<close> changes, and at
  its descriptor both the map and the interest list get the matching entry.\<close>

lemma epoll_inv_step:
  assumes inv: "epoll_inv st p"
    and st': "\<And>d. d \<noteq> c \<Longrightarrow> st' d = st d" "ch_fd (st' c) = ch_fd (st c)"
    and x: "x = None \<or> x = Some c"
    and chs': "\<And>f. smap_get f (ep_channels p') = (if f = ch_fd (st c) then x else smap_get f (ep_channels p))"
    and legal: "epoll_legal Map.empty (ep_ctl_log p')"
    and intr': "epoll_interest (ep_ctl_log p') = (epoll_interest (ep_ctl_log p))(ch_fd (st c) :=
      (if x = Some c \<and> ch_index (st' c) = kadded then Some (ch_events (st' c), c) else None))"
    and idx: "x = Some c \<Longrightarrow> ch_index (st' c) = kadded \<or> ch_index (st' c) = kdeleted \<and> ch_events (st' c) = 0"
  shows "epoll_inv st' p'"
proof -
  note chs = epoll_invD(2) [OF inv] and intr = epoll_invD(3) [OF inv]
  have other: "st' d = st d \<and> ch_fd (st d) = f" if "smap_get f (ep_channels p) = Some d" "f \<noteq> ch_fd (st c)" for f d
    using chs [OF that(1)] that(2) st'(1) [of d] by auto
  have "ch_fd (st' d) = f \<and> (ch_index (st' d) = kadded \<or> ch_index (st' d) = kdeleted \<and> ch_events (st' d) = 0)"
    if "smap_get f (ep_channels p') = Some d" for f d
  proof (cases "f = ch_fd (st c)")
    case True
    then show ?thesis using that x idx st'(2) chs' [of f] by auto
  next
    case False
    then have "smap_get f (ep_channels p) = Some d" using that chs' [of f] by simp
    then show ?thesis using chs [of f d] other [of f d] False by simp
  qed
  moreover have "epoll_interest (ep_ctl_log p') f =
      (case smap_get f (ep_channels p') of None \<Rightarrow> None
       | Some c \<Rightarrow> if ch_index (st' c) = kadded then Some (ch_events (st' c), c) else None)" for f
  proof (cases "f = ch_fd (st c)")
    case True
    then show ?thesis using x chs' [of f] by (auto simp: intr')
  next
    case False
    then show ?thesis using intr [of f] chs' [of f] other [of f]
      by (cases "smap_get f (ep_channels p)") (auto simp: intr')
  qed
  ultimately show ?thesis using legal by (simp add: epoll_inv_def)
qed

lemma epoll_update_ok:
  assumes inv: "epoll_inv st p"
    and known: "smap_get (ch_fd (st c)) (ep_channels p) = Some c \<or>
      (smap_get (ch_fd (st c)) (ep_channels p) = None \<and> ch_index (st c) = -1 \<and> e \<noteq> 0 \<and> 0 \<le> ch_fd (st c))"
  shows "\<exists>st' p' i. EpollPoller_UpdateChannel True 0 c (st(c := Channel_set_events e (st c))) p = Inr (st', p') \<and>
    epoll_inv st' p' \<and>
    (\<forall>f. smap_get f (ep_channels p') = (if f = ch_fd (st c) then Some c else smap_get f (ep_channels p))) \<and>
    st' = st(c := Channel_SetIndex i (Channel_set_events e (st c)))"
proof -
  let ?fd = "ch_fd (st c)" and ?added = "ch_index (st c) = kadded"
  define i where "i = (if ?added \<and> e = 0 then kdeleted else kadded)"
  define st' where "st' = st(c := Channel_SetIndex i (Channel_set_events e (st c)))"
  define op where "op = (if \<not> ?added then EPOLL_CTL_ADD else if e = 0 then EPOLL_CTL_DEL else EPOLL_CTL_MOD)"
  define p' where "p' = p\<lparr>ep_channels := (if ?added then ep_channels p else smap_put ?fd c (ep_channels p)),
    ep_ctl_log := ep_ctl_log p @ [\<lparr>ec_op = op, ec_fd = ?fd, ec_events = e, ec_ptr = c\<rparr>]\<rparr>"
  have idx: "smap_get ?fd (ep_channels p) = Some c \<Longrightarrow> ?added \<or> ch_index (st c) = kdeleted"
    and intr: "epoll_interest (ep_ctl_log p) ?fd =
      (if smap_get ?fd (ep_channels p) = Some c \<and> ?added then Some (ch_events (st c), c) else None)"
    and log: "epoll_legal Map.empty (ep_ctl_log p)"
    using epoll_invD(1) [OF inv] epoll_invD(2) [OF inv, of ?fd c] epoll_invD(3) [OF inv, of ?fd] known
    by (simp_all, auto)
  have new: "smap_get ?fd (ep_channels p) = None \<Longrightarrow> ch_index (st c) = knew"
    using known by (auto simp: knew_def)
  have nk: "knew \<noteq> kadded" "kdeleted \<noteq> kadded" by (simp_all add: knew_def kadded_def kdeleted_def)
  have chs': "smap_get f (ep_channels p') = (if f = ?fd then Some c else smap_get f (ep_channels p))" for f
    using known new nk by (auto simp: p'_def smap_get_put)
  have "epoll_inv st' p'"
  proof (rule epoll_inv_step [OF inv, of c _ "Some c"])
    show "epoll_legal Map.empty (ep_ctl_log p')"
      using log intr known new nk by (auto simp: p'_def op_def epoll_log_legal)
    show "epoll_interest (ep_ctl_log p') = (epoll_interest (ep_ctl_log p))(?fd :=
        (if Some c = Some c \<and> ch_index (st' c) = kadded then Some (ch_events (st' c), c) else None))"
      using nk by (auto simp: p'_def op_def epoll_apply_def st'_def i_def Channel_SetIndex_def Channel_set_events_def)
  qed (auto simp: st'_def i_def chs' Channel_SetIndex_def Channel_set_events_def)
  moreover have "EpollPoller_UpdateChannel True 0 c (st(c := Channel_set_events e (st c))) p = Inr (st', p')"
    using known idx new
    by (cases "st c") (auto simp: epoll_defs Let_def st'_def p'_def i_def op_def)
  ultimately show ?thesis using chs' by (auto simp: st'_def)
qed

lemma epoll_remove_ok:
  assumes inv: "epoll_inv st p" and known: "smap_get (ch_fd (st c)) (ep_channels p) = Some c" "ch_events (st c) = 0"
  shows "\<exists>st' p'. EpollPoller_RemoveChannel True 0 c (st(c := (st c)\<lparr>ch_added_to_loop := False\<rparr>)) p = Inr (st', p') \<and>
    epoll_inv st' p' \<and>
    (\<forall>f. smap_get f (ep_channels p') = (if f = ch_fd (st c) then None else smap_get f (ep_channels p))) \<and>
    (\<forall>d. ch_fd (st' d) = ch_fd (st d) \<and> ch_events (st' d) = ch_events (st d) \<and>
      (smap_get (ch_fd (st d)) (ep_channels p) \<noteq> Some d \<longrightarrow> st' d = st d))"
proof -
  let ?fd = "ch_fd (st c)" and ?added = "ch_index (st c) = kadded"
  define st' where "st' = st(c := Channel_SetIndex knew ((st c)\<lparr>ch_added_to_loop := False\<rparr>))"
  define p' where "p' = p\<lparr>ep_channels := smap_erase ?fd (ep_channels p), ep_ctl_log := ep_ctl_log p @
    (if ?added then [\<lparr>ec_op = EPOLL_CTL_DEL, ec_fd = ?fd, ec_events = 0, ec_ptr = c\<rparr>] else [])\<rparr>"
  have idx: "?added \<or> ch_index (st c) = kdeleted"
    and intr: "epoll_interest (ep_ctl_log p) ?fd = (if ?added then Some (ch_events (st c), c) else None)"
    and log: "epoll_legal Map.empty (ep_ctl_log p)"
    using epoll_invD(1) [OF inv] epoll_invD(2) [OF inv, of ?fd c] epoll_invD(3) [OF inv, of ?fd] known
    by simp_all
  have chs': "smap_get f (ep_channels p') = (if f = ?fd then None else smap_get f (ep_channels p))" for f
    by (simp add: p'_def smap_get_erase)
  have "epoll_inv st' p'"
  proof (rule epoll_inv_step [OF inv, of c _ None])
    show "epoll_legal Map.empty (ep_ctl_log p')"
      using log intr by (simp add: p'_def epoll_log_legal)
    show "epoll_interest (ep_ctl_log p') = (epoll_interest (ep_ctl_log p))(?fd :=
        (if None = Some c \<and> ch_index (st' c) = kadded then Some (ch_events (st' c), c) else None))"
      using intr by (auto simp: p'_def epoll_apply_def fun_upd_idem)
  qed (auto simp: st'_def chs' Channel_SetIndex_def)
  moreover have "EpollPoller_RemoveChannel True 0 c (st(c := (st c)\<lparr>ch_added_to_loop := False\<rparr>)) p = Inr (st', p')"
    using known idx by (auto simp: epoll_defs Let_def st'_def p'_def)
  ultimately show ?thesis using chs' known by (auto simp: st'_def Channel_SetIndex_def)
qed

interpretation ep: poller epoll_inv ep_channels epoll_watched
  "EpollPoller_UpdateChannel True 0" "EpollPoller_RemoveChannel True 0"
proof (unfold_locales, goal_cases)
  case (1 st p f c) then show ?case by (simp add: epoll_inv_def)
next
  case (2 st p f) then show ?case by (auto simp: epoll_inv_def epoll_watched_def split: option.splits)
next
  case (3 st p e c) then show ?case using epoll_update_ok by blast
next
  case (4 st p c) then show ?case by (rule epoll_remove_ok)
qed

section \<open>The poll poller keeps the contract\<close>

text \<open>The descriptor an entry of the array stands for: a negative one is a disabled channel, which
  \<open>poll(2)\<close> ignores.\<close>

definition pfd_key :: "pollfd \<Rightarrow> int" where
  "pfd_key pfd = (if pfd_fd pfd < 0 then - pfd_fd pfd - 1 else pfd_fd pfd)"

definition poll_watched :: "poll_poller \<Rightarrow> int \<rightharpoonup> 32 word \<times> chan_ptr" where
  "poll_watched p f =
     (if f < 0 then None
      else case List.find (\<lambda>pfd. pfd_fd pfd = f) (pp_pollfds p) of
             None \<Rightarrow> None
           | Some pfd \<Rightarrow> if pfd_events pfd = 0 then None
               else map_option (\<lambda>c. (ucast (pfd_events pfd), c)) (smap_get f (pp_channels p)))"

definition poll_entry :: "channel \<Rightarrow> pollfd \<Rightarrow> bool" where
  "poll_entry ch pfd \<longleftrightarrow> 0 \<le> ch_fd ch \<and> valid_events (ch_events ch) \<and>
     pfd_fd pfd = (if ch_events ch = 0 then - ch_fd ch - 1 else ch_fd ch) \<and> pfd_events pfd = ucast (ch_events ch)"

definition poll_slot :: "chan_store \<Rightarrow> pollfd list \<Rightarrow> chan_ptr \<Rightarrow> nat \<Rightarrow> bool" where
  "poll_slot st pfds c i \<longleftrightarrow> i < length pfds \<and> ch_index (st c) = int i \<and> poll_entry (st c) (pfds ! i)"

definition poll_inv :: "chan_store \<Rightarrow> poll_poller \<Rightarrow> bool" where
  "poll_inv st p \<longleftrightarrow>
     (\<forall>f c. smap_get f (pp_channels p) = Some c \<longrightarrow> ch_fd (st c) = f \<and> (\<exists>i. poll_slot st (pp_pollfds p) c i)) \<and>
     (\<forall>i < length (pp_pollfds p). \<exists>c. smap_get (ch_fd (st c)) (pp_channels p) = Some c \<and>
        poll_slot st (pp_pollfds p) c i)"

lemma poll_invD:
  assumes "poll_inv st p"
  shows "smap_get f (pp_channels p) = Some c \<Longrightarrow> ch_fd (st c) = f \<and> (\<exists>i. poll_slot st (pp_pollfds p) c i)"
    and "i < length (pp_pollfds p) \<Longrightarrow>
      \<exists>c. smap_get (ch_fd (st c)) (pp_channels p) = Some c \<and> poll_slot st (pp_pollfds p) c i"
  using assms unfolding poll_inv_def by blast+

lemma poll_entry_key: "poll_entry ch pfd \<Longrightarrow> pfd_key pfd = ch_fd ch"
  by (auto simp: poll_entry_def pfd_key_def)

lemma poll_slot_inj:
  assumes inv: "poll_inv st p"
    and c: "smap_get (ch_fd (st c)) (pp_channels p) = Some c" "poll_slot st (pp_pollfds p) c i"
    and d: "smap_get (ch_fd (st d)) (pp_channels p) = Some d" "poll_slot st (pp_pollfds p) d i"
  shows "c = d"
proof -
  have "ch_fd (st c) = ch_fd (st d)"
    using c(2) d(2) by (metis poll_slot_def poll_entry_key)
  with c(1) d(1) show ?thesis by (metis option.inject)
qed

lemma poll_slot_index: "poll_slot st pfds c i \<Longrightarrow> poll_slot st pfds c j \<Longrightarrow> i = j"
  by (simp add: poll_slot_def)

lemma small_mask [simp]:
  assumes "valid_events e"
  shows "(ucast (ucast e :: 16 word) :: 32 word) = e" "(scast (ucast e :: 16 word) :: 32 word) = e"
    "(ucast e :: 16 word) = 0 \<longleftrightarrow> e = 0"
  using assms by (auto simp: valid_events_def)

lemma poll_entry_on:
  "poll_entry ch pfd \<Longrightarrow> pfd_fd pfd = f \<Longrightarrow> 0 \<le> f \<Longrightarrow>
     ch_fd ch = f \<and> ch_events ch \<noteq> 0 \<and> pfd_events pfd \<noteq> 0 \<and> ucast (pfd_events pfd) = ch_events ch"
  by (auto simp: poll_entry_def split: if_splits)

lemma poll_watched_inv:
  assumes inv: "poll_inv st p"
  shows "poll_watched p f = (case smap_get f (pp_channels p) of None \<Rightarrow> None
    | Some c \<Rightarrow> if ch_events (st c) = 0 then None else Some (ch_events (st c), c))"
proof -
  show ?thesis
  proof (cases "List.find (\<lambda>pfd. pfd_fd pfd = f) (pp_pollfds p)")
    case None
    then have none: "\<And>i. i < length (pp_pollfds p) \<Longrightarrow> pfd_fd (pp_pollfds p ! i) \<noteq> f"
      by (simp add: find_None_iff)
    have "ch_events (st c) = 0" if c: "smap_get f (pp_channels p) = Some c" for c
    proof (rule ccontr)
      assume on: "ch_events (st c) \<noteq> 0"
      from poll_invD(1) [OF inv c] obtain i where "ch_fd (st c) = f" "i < length (pp_pollfds p)"
        "poll_entry (st c) (pp_pollfds p ! i)" by (auto simp: poll_slot_def)
      with none [of i] on show False by (simp add: poll_entry_def)
    qed
    then show ?thesis using None by (auto simp: poll_watched_def split: option.splits)
  next
    case (Some pfd)
    then obtain i where i: "i < length (pp_pollfds p)" "pp_pollfds p ! i = pfd" "pfd_fd pfd = f"
      by (auto simp: find_Some_iff)
    from poll_invD(2) [OF inv i(1)] obtain c where
      c: "smap_get (ch_fd (st c)) (pp_channels p) = Some c" "poll_slot st (pp_pollfds p) c i" by blast
    show ?thesis
    proof (cases "0 \<le> f")
      case True
      have "poll_entry (st c) pfd" using c(2) i(2) by (simp add: poll_slot_def)
      note on = poll_entry_on [OF this i(3) True]
      have get: "smap_get f (pp_channels p) = Some c" using c(1) on by simp
      show ?thesis unfolding get using True Some on get by (simp add: poll_watched_def)
    next
      case False
      then have "smap_get f (pp_channels p) = None"
        using poll_invD(1) [OF inv, of f] by (cases "smap_get f (pp_channels p)") (auto simp: poll_slot_def poll_entry_def)
      then show ?thesis using False by (simp add: poll_watched_def)
    qed
  qed
qed

lemma poll_slot_cong:
  "poll_slot st pfds c i \<Longrightarrow> st' c = st c \<Longrightarrow> i < length pfds' \<Longrightarrow> pfds' ! i = pfds ! i \<Longrightarrow> poll_slot st' pfds' c i"
  by (simp add: poll_slot_def)

text \<open>An update writes one entry, that of the channel updated, and leaves the others where they are.\<close>

lemma poll_inv_put:
  assumes inv: "poll_inv st p" and known: "smap_get (ch_fd (st c)) (pp_channels p) \<in> {None, Some c}"
    and st': "ch_fd (st' c) = ch_fd (st c)" "\<And>d. d \<noteq> c \<Longrightarrow> st' d = st d"
    and chs: "\<And>f. smap_get f (pp_channels p') = (if f = ch_fd (st c) then Some c else smap_get f (pp_channels p))"
    and slot_c: "poll_slot st' (pp_pollfds p') c i"
    and slot_d: "\<And>d j. smap_get (ch_fd (st d)) (pp_channels p) = Some d \<Longrightarrow> d \<noteq> c \<Longrightarrow> poll_slot st (pp_pollfds p) d j \<Longrightarrow>
      poll_slot st' (pp_pollfds p') d j"
    and old: "\<And>j. j < length (pp_pollfds p') \<Longrightarrow> j \<noteq> i \<Longrightarrow>
      \<exists>d. d \<noteq> c \<and> smap_get (ch_fd (st d)) (pp_channels p) = Some d \<and> poll_slot st (pp_pollfds p) d j"
  shows "poll_inv st' p'"
  unfolding poll_inv_def
proof (intro conjI allI impI)
  fix f d assume d: "smap_get f (pp_channels p') = Some d"
  have "d = c \<and> f = ch_fd (st c) \<or> d \<noteq> c \<and> smap_get f (pp_channels p) = Some d"
    using d chs [of f] poll_invD(1) [OF inv, of f d] by (auto split: if_splits)
  then show "ch_fd (st' d) = f" and "\<exists>i. poll_slot st' (pp_pollfds p') d i"
    using st' slot_c slot_d [of d] poll_invD(1) [OF inv, of f d] by auto
next
  fix j assume j: "j < length (pp_pollfds p')"
  show "\<exists>c. smap_get (ch_fd (st' c)) (pp_channels p') = Some c \<and> poll_slot st' (pp_pollfds p') c j"
  proof (cases "j = i")
    case True
    then show ?thesis using slot_c st'(1) chs by (intro exI [of _ c]) simp
  next
    case False
    from old [OF j this] obtain d where
      d: "d \<noteq> c" "smap_get (ch_fd (st d)) (pp_channels p) = Some d" "poll_slot st (pp_pollfds p) d j" by blast
    then have "ch_fd (st d) \<noteq> ch_fd (st c)" using known by auto
    then show ?thesis using slot_d [OF d(2,1,3)] d(1,2) st'(2) chs by (intro exI [of _ d]) simp
  qed
qed

lemma poll_update_known:
  assumes inv: "poll_inv st p" and e: "valid_events e" and known: "smap_get (ch_fd (st c)) (pp_channels p) = Some c"
  shows "\<exists>st' p'. PollPoller_UpdateChannel True c (st(c := Channel_set_events e (st c))) p = Inr (st', p') \<and>
    poll_inv st' p' \<and> pp_channels p' = pp_channels p \<and>
    st' = st(c := Channel_SetIndex (ch_index (st c)) (Channel_set_events e (st c)))"
proof -
  let ?fd = "ch_fd (st c)"
  from poll_invD(1) [OF inv known] obtain i where i: "poll_slot st (pp_pollfds p) c i" by blast
  then have ilt: "i < length (pp_pollfds p)" and idx: "ch_index (st c) = int i"
    and entry: "poll_entry (st c) (pp_pollfds p ! i)" by (auto simp: poll_slot_def)
  define st' where "st' = st(c := Channel_set_events e (st c))"
  define pfd where "pfd = (pp_pollfds p ! i)\<lparr>pfd_fd := (if e = 0 then - ?fd - 1 else ?fd),
    pfd_events := ucast e, pfd_revents := 0\<rparr>"
  define p' where "p' = p\<lparr>pp_pollfds := (pp_pollfds p)[i := pfd]\<rparr>"
  have st'c: "ch_fd (st' c) = ?fd" "ch_events (st' c) = e" "ch_index (st' c) = int i"
    and st'd: "\<And>d. d \<noteq> c \<Longrightarrow> st' d = st d"
    by (simp_all add: st'_def Channel_set_events_def idx)
  have "poll_inv st' p'"
  proof (rule poll_inv_put [where c = c and i = i, OF inv _ st'c(1) st'd])
    show "poll_slot st' (pp_pollfds p') c i"
      using e entry ilt st'c by (simp add: poll_slot_def poll_entry_def p'_def pfd_def)
    show "poll_slot st' (pp_pollfds p') d j"
      if "smap_get (ch_fd (st d)) (pp_channels p) = Some d" "d \<noteq> c" "poll_slot st (pp_pollfds p) d j" for d j
    proof -
      have "j \<noteq> i" using poll_slot_inj [OF inv known i that(1)] that(2,3) by blast
      then show ?thesis using that st'd by (simp add: poll_slot_def p'_def)
    qed
    show "\<exists>d. d \<noteq> c \<and> smap_get (ch_fd (st d)) (pp_channels p) = Some d \<and> poll_slot st (pp_pollfds p) d j"
      if "j < length (pp_pollfds p')" "j \<noteq> i" for j
    proof -
      have "j < length (pp_pollfds p)" using that(1) by (simp add: p'_def)
      from poll_invD(2) [OF inv this] obtain d where "smap_get (ch_fd (st d)) (pp_channels p) = Some d" "poll_slot st (pp_pollfds p) d j" by blast
      moreover from this(2) have "d \<noteq> c" using i that(2) poll_slot_index by blast
      ultimately show ?thesis by blast
    qed
  qed (use known in \<open>auto simp: p'_def\<close>)
  moreover have "PollPoller_UpdateChannel True c st' p = Inr (st', p')"
    using known entry ilt st'c
    by (cases "pp_pollfds p ! i") (simp add: PollPoller_UpdateChannel_def Let_def poll_entry_def p'_def pfd_def
        Channel_IsNoneEvent_def knone_event_def)
  moreover have "st' = st(c := Channel_SetIndex (ch_index (st c)) (Channel_set_events e (st c)))"
    by (cases "st c") (simp add: st'_def Channel_SetIndex_def Channel_set_events_def)
  ultimately show ?thesis unfolding st'_def by (intro exI [of _ "st(c := Channel_set_events e (st c))"] exI [of _ p']) (simp add: p'_def)
qed

lemma poll_update_new:
  assumes inv: "poll_inv st p" and e: "valid_events e" "e \<noteq> 0"
    and new: "smap_get (ch_fd (st c)) (pp_channels p) = None" "ch_index (st c) = -1" "0 \<le> ch_fd (st c)"
  defines "n \<equiv> length (pp_pollfds p)"
  shows "\<exists>st' p'. PollPoller_UpdateChannel True c (st(c := Channel_set_events e (st c))) p = Inr (st', p') \<and>
    poll_inv st' p' \<and> pp_channels p' = smap_put (ch_fd (st c)) c (pp_channels p) \<and>
    st' = st(c := Channel_SetIndex (int n) (Channel_set_events e (st c)))"
proof -
  let ?fd = "ch_fd (st c)"
  define st' where "st' = st(c := Channel_SetIndex (int n) (Channel_set_events e (st c)))"
  define p' where "p' = \<lparr>pp_channels = smap_put ?fd c (pp_channels p),
    pp_pollfds = pp_pollfds p @ [\<lparr>pfd_fd = ?fd, pfd_events = ucast e, pfd_revents = 0\<rparr>]\<rparr>"
  have st'c: "ch_fd (st' c) = ?fd" "ch_events (st' c) = e" "ch_index (st' c) = int n"
    and st'd: "\<And>d. d \<noteq> c \<Longrightarrow> st' d = st d"
    by (simp_all add: st'_def Channel_set_events_def Channel_SetIndex_def)
  have "poll_inv st' p'"
  proof (rule poll_inv_put [where c = c and i = n, OF inv _ st'c(1) st'd])
    show "poll_slot st' (pp_pollfds p') c n"
      using e new st'c by (simp add: poll_slot_def poll_entry_def p'_def n_def)
    show "poll_slot st' (pp_pollfds p') d j"
      if "smap_get (ch_fd (st d)) (pp_channels p) = Some d" "d \<noteq> c" "poll_slot st (pp_pollfds p) d j" for d j
      using that st'd by (simp add: poll_slot_def p'_def nth_append)
    show "\<exists>d. d \<noteq> c \<and> smap_get (ch_fd (st d)) (pp_channels p) = Some d \<and> poll_slot st (pp_pollfds p) d j"
      if "j < length (pp_pollfds p')" "j \<noteq> n" for j
      using that poll_invD(2) [OF inv, of j] new(1) by (force simp: p'_def n_def)
  qed (use new in \<open>auto simp: p'_def smap_get_put\<close>)
  moreover have "PollPoller_UpdateChannel True c (st(c := Channel_set_events e (st c))) p = Inr (st', p')"
    using new by (simp add: PollPoller_UpdateChannel_def Let_def p'_def st'_def n_def
        Channel_set_events_def Channel_SetIndex_def)
  ultimately show ?thesis by (intro exI [of _ st'] exI [of _ p']) (simp add: p'_def st'_def)
qed

text \<open>
  \<open>RemoveChannel\<close> moves the last entry, that of channel \<open>b\<close>, into the place \<open>i\<close> of the one that goes: the store and the
  poller it leaves.
\<close>

definition swap_out :: "chan_ptr \<Rightarrow> nat \<Rightarrow> chan_ptr \<Rightarrow> chan_store \<Rightarrow> poll_poller \<Rightarrow> chan_store \<times> poll_poller" where
  "swap_out c i b st p =
     (let m = length (pp_pollfds p) - 1; st0 = st(c := (st c)\<lparr>ch_added_to_loop := False\<rparr>)
      in (if i = m then st0 else st0(b := Channel_SetIndex (int i) (st b)),
          \<lparr>pp_channels = smap_erase (ch_fd (st c)) (pp_channels p), pp_pollfds = butlast ((pp_pollfds p)[i := pp_pollfds p ! m])\<rparr>))"

lemma swap_out_store:
  assumes "swap_out c i b st p = (st', p')"
  shows "ch_fd (st' d) = ch_fd (st d)" "ch_events (st' d) = ch_events (st d)" "d \<noteq> c \<Longrightarrow> d \<noteq> b \<Longrightarrow> st' d = st d"
    "pp_channels p' = smap_erase (ch_fd (st c)) (pp_channels p)" "length (pp_pollfds p') = length (pp_pollfds p) - 1"
  using assms by (auto simp: swap_out_def Let_def Channel_SetIndex_def)

lemma swap_out_slot:
  assumes inv: "poll_inv st p" and c: "smap_get (ch_fd (st c)) (pp_channels p) = Some c" "poll_slot st (pp_pollfds p) c i"
    and b: "smap_get (ch_fd (st b)) (pp_channels p) = Some b" "poll_slot st (pp_pollfds p) b (length (pp_pollfds p) - 1)"
    and sw: "swap_out c i b st p = (st', p')"
    and d: "smap_get (ch_fd (st d)) (pp_channels p) = Some d" "poll_slot st (pp_pollfds p) d j" "d \<noteq> c"
  shows "poll_slot st' (pp_pollfds p') d (if d = b then i else j)"
proof -
  let ?pfds = "pp_pollfds p" and ?m = "length (pp_pollfds p) - 1"
  have i: "i < length ?pfds" using c(2) by (simp add: poll_slot_def)
  have bc: "b = c \<longleftrightarrow> i = ?m" using poll_slot_inj [OF inv c b(1)] b(2) c(2) poll_slot_index by blast
  have nth': "pp_pollfds p' ! l = (if l = i then ?pfds ! ?m else ?pfds ! l)" if "l < ?m" for l
    using that i sw by (auto simp: swap_out_def Let_def nth_butlast)
  show ?thesis
  proof (cases "d = b")
    case True
    then have "i \<noteq> ?m" "j = ?m" using bc d(2,3) b(2) poll_slot_index by auto
    then show ?thesis using True b(2) i sw swap_out_store(5) [OF sw] nth' [of i]
      by (auto simp: poll_slot_def swap_out_def Let_def Channel_SetIndex_def poll_entry_def)
  next
    case False
    have "j \<noteq> i" using poll_slot_inj [OF inv c d(1)] d(2,3) by blast
    moreover have "j \<noteq> ?m" using poll_slot_inj [OF inv b d(1)] d(2) False by blast
    moreover have "j < length ?pfds" using d(2) by (simp add: poll_slot_def)
    ultimately show ?thesis using False d(2,3) swap_out_store(3,5) [OF sw] nth' [of j] by (auto simp: poll_slot_def)
  qed
qed

lemma swap_out_inv:
  assumes inv: "poll_inv st p" and c: "smap_get (ch_fd (st c)) (pp_channels p) = Some c" "poll_slot st (pp_pollfds p) c i"
    and b: "smap_get (ch_fd (st b)) (pp_channels p) = Some b" "poll_slot st (pp_pollfds p) b (length (pp_pollfds p) - 1)"
    and sw: "swap_out c i b st p = (st', p')"
  shows "poll_inv st' p'"
  unfolding poll_inv_def
proof (intro conjI allI impI)
  note keep = swap_out_store [OF sw] and slot = swap_out_slot [OF inv c b sw]
  fix f d assume "smap_get f (pp_channels p') = Some d"
  then have d: "smap_get f (pp_channels p) = Some d" "f \<noteq> ch_fd (st c)" by (auto simp: keep smap_get_erase split: if_splits)
  from poll_invD(1) [OF inv d(1)] obtain j where j: "ch_fd (st d) = f" "poll_slot st (pp_pollfds p) d j" by blast
  show "ch_fd (st' d) = f" using keep j by simp
  have "d \<noteq> c" using d(2) j(1) by auto
  then show "\<exists>i. poll_slot st' (pp_pollfds p') d i" using slot [OF _ j(2)] d(1) j(1) by blast
next
  note keep = swap_out_store [OF sw] and slot = swap_out_slot [OF inv c b sw]
  let ?m = "length (pp_pollfds p) - 1"
  fix j assume j: "j < length (pp_pollfds p')"
  define k where "k = (if j = i then ?m else j)"
  have "k < length (pp_pollfds p)" using j by (auto simp: k_def keep)
  from poll_invD(2) [OF inv this] obtain d where
    d: "smap_get (ch_fd (st d)) (pp_channels p) = Some d" "poll_slot st (pp_pollfds p) d k" by blast
  have "k \<noteq> i" using j by (auto simp: k_def keep)
  then have dc: "d \<noteq> c" using poll_slot_index [OF c(2)] d(2) by blast
  then have "ch_fd (st d) \<noteq> ch_fd (st c)" using d(1) c(1) by auto
  moreover have "d = b \<longleftrightarrow> k = ?m" using poll_slot_inj [OF inv b d(1)] d(2) b(2) poll_slot_index by blast
  ultimately show "\<exists>c. smap_get (ch_fd (st' c)) (pp_channels p') = Some c \<and> poll_slot st' (pp_pollfds p') c j"
    using slot [OF d dc] d(1) keep j by (intro exI [of _ d]) (auto simp: smap_get_erase k_def split: if_splits)
qed

lemma RemoveChannel_swaps_out:
  assumes inv: "poll_inv st p" and c: "smap_get (ch_fd (st c)) (pp_channels p) = Some c" "poll_slot st (pp_pollfds p) c i" "ch_events (st c) = 0"
    and b: "smap_get (ch_fd (st b)) (pp_channels p) = Some b" "poll_slot st (pp_pollfds p) b (length (pp_pollfds p) - 1)"
  shows "PollPoller_RemoveChannel True c (st(c := (st c)\<lparr>ch_added_to_loop := False\<rparr>)) p = Inr (swap_out c i b st p)"
proof -
  let ?pfds = "pp_pollfds p" and ?fd = "ch_fd (st c)"
  define m where "m = length ?pfds - 1"
  have i: "i < length ?pfds" "ch_index (st c) = int i" "poll_entry (st c) (?pfds ! i)" using c(2) by (auto simp: poll_slot_def)
  have last: "last ?pfds = ?pfds ! m" using i(1) by (subst last_conv_nth) (auto simp: m_def)
  have "pfd_key (?pfds ! m) = ch_fd (st b)" using b(2) poll_entry_key by (auto simp: poll_slot_def m_def)
  then have end_fd: "(if pfd_fd (?pfds ! m) < 0 then - pfd_fd (?pfds ! m) - 1 else pfd_fd (?pfds ! m)) = ch_fd (st b)"
    by (simp add: pfd_key_def)
  have bc: "b = c \<longleftrightarrow> i = m" using poll_slot_inj [OF inv c(1,2) b(1)] b(2) c(2) poll_slot_index by (auto simp: m_def)
  then have fd_b: "i \<noteq> m \<Longrightarrow> ch_fd (st b) \<noteq> ?fd" using b(1) c(1) by auto
  have asserts: "pfd_fd (?pfds ! i) = - ?fd - 1 \<and> scast (pfd_events (?pfds ! i)) = ch_events (st c)"
    using i(3) c(3) by (simp add: poll_entry_def)
  have m': "length ?pfds - Suc 0 = m" by (simp add: m_def)
  show ?thesis
    using c(1,3) i asserts fd_b bc b(1)
    by (auto simp: PollPoller_RemoveChannel_def swap_out_def Let_def Channel_IsNoneEvent_def knone_event_def last end_fd smap_get_erase m')
qed

lemma poll_remove_ok:
  assumes inv: "poll_inv st p" and known: "smap_get (ch_fd (st c)) (pp_channels p) = Some c" "ch_events (st c) = 0"
  shows "\<exists>st' p'. PollPoller_RemoveChannel True c (st(c := (st c)\<lparr>ch_added_to_loop := False\<rparr>)) p = Inr (st', p') \<and>
    poll_inv st' p' \<and>
    (\<forall>f. smap_get f (pp_channels p') = (if f = ch_fd (st c) then None else smap_get f (pp_channels p))) \<and>
    (\<forall>d. ch_fd (st' d) = ch_fd (st d) \<and> ch_events (st' d) = ch_events (st d) \<and>
      (smap_get (ch_fd (st d)) (pp_channels p) \<noteq> Some d \<longrightarrow> st' d = st d))"
proof -
  from poll_invD(1) [OF inv known(1)] obtain i where i: "poll_slot st (pp_pollfds p) c i" by blast
  then have "length (pp_pollfds p) - 1 < length (pp_pollfds p)" by (auto simp: poll_slot_def)
  from poll_invD(2) [OF inv this] obtain b where
    b: "smap_get (ch_fd (st b)) (pp_channels p) = Some b" "poll_slot st (pp_pollfds p) b (length (pp_pollfds p) - 1)" by blast
  obtain st' p' where sw: "swap_out c i b st p = (st', p')" by force
  have "st' d = st d" if "smap_get (ch_fd (st d)) (pp_channels p) \<noteq> Some d" for d
    using swap_out_store(3) [OF sw, of d] that known(1) b(1) by auto
  then show ?thesis
    using RemoveChannel_swaps_out [OF inv known(1) i known(2) b] swap_out_inv [OF inv known(1) i b sw] swap_out_store [OF sw] sw
    by (auto simp: smap_get_erase)
qed

interpretation pp: poller poll_inv pp_channels poll_watched
  "PollPoller_UpdateChannel True" "PollPoller_RemoveChannel True"
proof (unfold_locales, goal_cases)
  case (1 st p f c) then show ?case using poll_invD(1) by blast
next
  case (2 st p f) then show ?case by (rule poll_watched_inv)
next
  case (3 st p e c)
  then show ?case
    using poll_update_known [of st p e c] poll_update_new [of st p e c]
    by (auto simp: smap_get_put) blast+
next
  case (4 st p c) then show ?case by (rule poll_remove_ok)
qed

section \<open>Delivering events\<close>

lemma epoll_fill_ok:
  assumes "list_all (\<lambda>(e, c). smap_get (ch_fd (st c)) (ep_channels p) = Some c) evs" and "distinct (map snd evs)"
  shows "\<exists>st'. epoll_fill p evs st active = Inr (st', active @ map snd evs) \<and>
    (\<forall>(e, c)\<in>set evs. st' c = (st c)\<lparr>ch_revents := e\<rparr>) \<and> (\<forall>c. c \<notin> snd ` set evs \<longrightarrow> st' c = st c)"
  using assms
proof (induction evs arbitrary: st active)
  case (Cons ev evs)
  obtain e c where ev: "ev = (e, c)" by force
  define st1 where "st1 = st(c := Channel_SetRevents e (st c))"
  have fresh: "c \<notin> snd ` set evs" and dist: "distinct (map snd evs)" using Cons.prems(2) ev by auto
  have "list_all (\<lambda>(e, d). smap_get (ch_fd (st1 d)) (ep_channels p) = Some d) evs"
    using Cons.prems(1) by (auto simp: list_all_iff Channel_SetRevents_def st1_def)
  from Cons.IH [OF this dist, of "active @ [c]"] obtain st' where
    st': "epoll_fill p evs st1 (active @ [c]) = Inr (st', (active @ [c]) @ map snd evs)"
      "\<forall>(e, d)\<in>set evs. st' d = (st1 d)\<lparr>ch_revents := e\<rparr>" "\<forall>d. d \<notin> snd ` set evs \<longrightarrow> st' d = st1 d"
    by blast
  have "st' c = (st c)\<lparr>ch_revents := e\<rparr>" using st'(3) fresh by (simp add: st1_def Channel_SetRevents_def)
  moreover have "st1 d = st d" if "d \<in> snd ` set evs" for d using that fresh by (auto simp: st1_def)
  ultimately show ?case using st' Cons.prems(1) ev
    by (intro exI [of _ st']) (force simp: st1_def)
qed simp

lemma epoll_inv_cong:
  assumes "epoll_inv st p" and "ep_channels p' = ep_channels p" and "ep_ctl_log p' = ep_ctl_log p"
    and "\<And>c. ch_fd (st' c) = ch_fd (st c) \<and> ch_index (st' c) = ch_index (st c) \<and> ch_events (st' c) = ch_events (st c)"
  shows "epoll_inv st' p'"
  using assms(1) unfolding epoll_inv_def assms(2,3) by (simp add: assms(4) split: option.split)

lemma epoll_poll_ok:
  assumes inv: "epoll_inv st p" and size: "0 < ep_events_size p" "length evs \<le> ep_events_size p"
    and evs: "list_all (\<lambda>(e, c). smap_get (ch_fd (st c)) (ep_channels p) = Some c) evs" "distinct (map snd evs)"
  shows "\<exists>st' p'. EpollPoller_Poll (Inr evs) now [] st p = Inr (now, map snd evs, st', p') \<and> epoll_inv st' p' \<and>
    (\<forall>(e, c)\<in>set evs. ch_revents (st' c) = e) \<and> length evs < ep_events_size p' \<and> ep_channels p' = ep_channels p \<and>
    (\<forall>c. ch_fd (st' c) = ch_fd (st c) \<and> ch_index (st' c) = ch_index (st c) \<and> ch_events (st' c) = ch_events (st c))"
proof -
  from epoll_fill_ok [OF evs, of "[]"] obtain st' where
    st': "epoll_fill p evs st [] = Inr (st', map snd evs)" "\<forall>(e, c)\<in>set evs. st' c = (st c)\<lparr>ch_revents := e\<rparr>"
      "\<forall>c. c \<notin> snd ` set evs \<longrightarrow> st' c = st c" by auto
  define p' where "p' = (if evs \<noteq> [] \<and> length evs = ep_events_size p
    then p\<lparr>ep_events_size := ep_events_size p * 2\<rparr> else p)"
  have same: "ch_fd (st' c) = ch_fd (st c) \<and> ch_index (st' c) = ch_index (st c) \<and> ch_events (st' c) = ch_events (st c)" for c
  proof (cases "c \<in> snd ` set evs")
    case True
    then obtain e where "(e, c) \<in> set evs" by force
    then show ?thesis using st'(2) by auto
  qed (use st'(3) in simp)
  have "epoll_inv st' p'" by (rule epoll_inv_cong [OF inv]) (auto simp: p'_def same)
  moreover have "EpollPoller_Poll (Inr evs) now [] st p = Inr (now, map snd evs, st', p')"
    using size st'(1) by (cases evs) (auto simp: EpollPoller_Poll_def EpollPoller_FillActiveChannels_def p'_def)
  moreover have "length evs < ep_events_size p'" using size by (auto simp: p'_def)
  moreover have "\<forall>(e, c)\<in>set evs. ch_revents (st' c) = e" using st'(2) by auto
  ultimately show ?thesis using same by (auto simp: p'_def)
qed

section \<open>Properties\<close>

definition fresh_store :: "(chan_ptr \<Rightarrow> int) \<Rightarrow> chan_store \<Rightarrow> bool" where
  "fresh_store fd st \<longleftrightarrow> (\<forall>c. ch_fd (st c) = fd c \<and> ch_index (st c) = -1)"

definition empty_epoll :: epoll_poller where
  "empty_epoll = \<lparr>ep_channels = [], ep_events_size = kinit_event_list_size, ep_ctl_log = []\<rparr>"

lemma represents_empty:
  assumes "fresh_store fd st"
  shows "ep.represents fd ([], []) (st, empty_epoll)" and "pp.represents fd ([], []) (st, PollPoller_new)"
  using assms
  by (auto simp: ep.represents_def pp.represents_def fresh_store_def empty_epoll_def PollPoller_new_def
      epoll_inv_def poll_inv_def smap_get_def epoll_interest_def)

text \<open>The epoll poller implements the abstract poller: for every sequence of \<open>Channel::Update\<close> and
  \<open>Channel::Remove\<close> calls that the abstract poller accepts, starting from new channels and an empty
  poller, no assert fails, every \<open>epoll_ctl\<close> call is legal, and what the kernel is left watching is
  exactly the channels with a non-empty mask, with their descriptor, mask and pointer.\<close>

theorem epoll_watches_enabled:
  assumes "spec_run fd ops ([], []) = Some (a, used)" and "fresh_store fd st"
  shows "\<exists>st' p'. chan_run (EpollPoller_UpdateChannel True 0) (EpollPoller_RemoveChannel True 0) ops (st, empty_epoll)
      = Inr (st', p') \<and> epoll_legal Map.empty (ep_ctl_log p') \<and>
    (\<forall>f e c. epoll_watched p' f = Some (e, c) \<longleftrightarrow> fd c = f \<and> smap_get c a = Some e \<and> e \<noteq> 0)"
proof -
  from ep.run_refines [OF represents_empty(1) [OF assms(2)] assms(1)] obtain st' p' where
    r: "chan_run (EpollPoller_UpdateChannel True 0) (EpollPoller_RemoveChannel True 0) ops (st, empty_epoll) = Inr (st', p')"
      "ep.represents fd (a, used) (st', p')" by auto
  moreover have "epoll_inv st' p'" using r(2) by (simp add: ep.represents_def)
  ultimately show ?thesis using ep.represents_watched [OF r(2)] epoll_invD(1) by blast
qed

definition sample_ops :: "chan_op list" where
  "sample_ops = [Set_events 1 3, Set_events 2 3, Set_events 1 7, Set_events 1 0, Remove_chan 1, Set_events 2 4]"

lemma sample_ops_run: "spec_run int sample_ops ([], []) = Some ([(2, 4)], [2, 1, 1, 2, 1])"
  by (simp add: sample_ops_def valid_events_def smap_get_def smap_erase_def)

lemma fresh_sample: "fresh_store int (\<lambda>c. Channel_new (int c))"
  by (simp add: fresh_store_def Channel_new_def)

theorem epoll_watches_enabled_witness:
  "\<exists>st' p'. chan_run (EpollPoller_UpdateChannel True 0) (EpollPoller_RemoveChannel True 0) sample_ops
      (\<lambda>c. Channel_new (int c), empty_epoll) = Inr (st', p') \<and> epoll_watched p' 2 = Some (4, 2)"
  using epoll_watches_enabled [OF sample_ops_run fresh_sample] by (auto simp: smap_get_def)

text \<open>The poll poller implements the same abstract poller, although it keeps its channels in an
  array where a removed entry is replaced by the last one: no assert fails, and the entries
  \<open>poll(2)\<close> does not ignore are exactly the channels with a non-empty mask.\<close>

theorem poll_watches_enabled:
  assumes "spec_run fd ops ([], []) = Some (a, used)" and "fresh_store fd st"
  shows "\<exists>st' p'. chan_run (PollPoller_UpdateChannel True) (PollPoller_RemoveChannel True) ops (st, PollPoller_new)
      = Inr (st', p') \<and>
    (\<forall>f e c. poll_watched p' f = Some (e, c) \<longleftrightarrow> fd c = f \<and> smap_get c a = Some e \<and> e \<noteq> 0)"
proof -
  from pp.run_refines [OF represents_empty(2) [OF assms(2)] assms(1)] obtain st' p' where
    r: "chan_run (PollPoller_UpdateChannel True) (PollPoller_RemoveChannel True) ops (st, PollPoller_new) = Inr (st', p')"
      "pp.represents fd (a, used) (st', p')" by auto
  then show ?thesis using pp.represents_watched [OF r(2)] by blast
qed

theorem poll_watches_enabled_witness:
  "\<exists>st' p'. chan_run (PollPoller_UpdateChannel True) (PollPoller_RemoveChannel True) sample_ops
      (\<lambda>c. Channel_new (int c), PollPoller_new) = Inr (st', p') \<and> poll_watched p' 2 = Some (4, 2)"
  using poll_watches_enabled [OF sample_ops_run fresh_sample] by (auto simp: smap_get_def)

text \<open>\<open>EpollPoller::Poll\<close> delivers: when \<open>epoll_wait\<close> returns events of channels in its interest list, each
  at most once and no more than the array holds, no assert fails, the active channels are those of the
  events in the order returned, each has the returned mask in \<open>revents_\<close>, the invariant of the poller
  holds on, and the array has room for more events next time.\<close>

theorem epoll_poll_delivers:
  assumes inv: "epoll_inv st p" and size: "0 < ep_events_size p" "length evs \<le> ep_events_size p"
    and evs: "list_all (\<lambda>(e, c). \<exists>m. epoll_interest (ep_ctl_log p) (ch_fd (st c)) = Some (m, c)) evs"
      "distinct (map snd evs)"
  shows "\<exists>st' p'. EpollPoller_Poll (Inr evs) now [] st p = Inr (now, map snd evs, st', p') \<and> epoll_inv st' p' \<and>
    (\<forall>(e, c)\<in>set evs. ch_revents (st' c) = e) \<and> length evs < ep_events_size p'"
proof -
  have "smap_get (ch_fd (st c)) (ep_channels p) = Some c"
    if "epoll_interest (ep_ctl_log p) (ch_fd (st c)) = Some (m, c)" for c m
    using that epoll_invD(3) [OF inv, of "ch_fd (st c)"] by (auto split: option.splits if_splits)
  then have "list_all (\<lambda>(e, c). smap_get (ch_fd (st c)) (ep_channels p) = Some c) evs"
    using evs(1) by (auto simp: list_all_iff)
  from epoll_poll_ok [OF inv size this evs(2), of now] show ?thesis by blast
qed

theorem epoll_poll_delivers_witness:
  "\<exists>st' p'. EpollPoller_Poll (Inr [(1, 7)]) (Timestamp 3) []
      (\<lambda>c. (Channel_new (int c))\<lparr>ch_index := 1, ch_events := 3\<rparr>)
      \<lparr>ep_channels = [(7, 7)], ep_events_size = 1, ep_ctl_log = [\<lparr>ec_op = EPOLL_CTL_ADD, ec_fd = 7, ec_events = 3, ec_ptr = 7\<rparr>]\<rparr>
    = Inr (Timestamp 3, [7], st', p') \<and> ch_revents (st' 7) = 1 \<and> 1 < ep_events_size p'"
proof -
  let ?st = "\<lambda>c. (Channel_new (int c))\<lparr>ch_index := 1, ch_events := 3\<rparr>"
  let ?p = "\<lparr>ep_channels = [(7, 7)], ep_events_size = 1, ep_ctl_log = [\<lparr>ec_op = EPOLL_CTL_ADD, ec_fd = 7, ec_events = 3, ec_ptr = 7\<rparr>]\<rparr>"
  have "epoll_inv ?st ?p"
    by (auto simp: epoll_inv_def smap_get_def epoll_interest_def epoll_apply_def Channel_new_def kadded_def split: option.splits)
  from epoll_poll_delivers [OF this, of "[(1, 7)]" "Timestamp 3"] show ?thesis
    by (auto simp: epoll_interest_def epoll_apply_def Channel_new_def)
qed

end
