(* ===== verification/TcpConnection.thy ===== *)
theory TcpConnection
  imports Buffer Poller
begin

unbundle bit_operations_syntax

text \<open>
  \<open>dwater/net/tcp_connection.h\<close> and \<open>tcp_connection.cc\<close>: one TCP connection, driven by its channel and by
  the calls of its user. The record holds the members of the class; what a handler does outside the
  object (updates of the channel in the poller, functors given to the loop, callbacks, the shutdown of
  the socket) is appended to \<open>tc_effects\<close> in order. Two history variables record the bytes the socket
  accepted (\<open>tc_written\<close>) and the messages the connection took on (\<open>tc_accepted\<close>).

  The outcome of a system call is an argument: an error number, or the number of bytes written, or the
  bytes read; the kernel takes no more than it is offered (\<open>socket_Write\<close>) and stores no more than
  there is space for (\<open>socket_Readv\<close>). A user callback is the list of calls it makes on the connection;
  none of these calls makes a callback itself, so running a callback is running its list. \<open>in_loop\<close> is
  whether the caller runs in the loop's thread.
\<close>

section \<open>The connection\<close>

datatype conn_state = kdisconnected | kconnecting | kconnected | kdisconnecting

datatype loop_functor =
    F_send "char list"
  | F_shutdown
  | F_force_close
  | F_start_read
  | F_stop_read
  | F_write_complete
  | F_high_water nat

datatype conn_effect =
    Update_channel "32 word"
  | Remove_channel
  | Queue_functor loop_functor
  | Run_after rat
  | Connection_callback
  | Message_callback
  | Close_callback
  | Shutdown_write
  | Log_error

record tcp_connection =
  tc_state :: conn_state
  tc_reading :: bool
  tc_channel :: channel
  tc_high_water_mark :: nat
  tc_write_complete_callback :: bool
  tc_high_water_mark_callback :: bool
  tc_input :: buffer
  tc_output :: buffer
  tc_effects :: "conn_effect list"
  tc_written :: "char list"
  tc_accepted :: "char list"

definition EWOULDBLOCK :: int where "EWOULDBLOCK = 11"
definition EPIPE :: int where "EPIPE = 32"
definition ECONNRESET :: int where "ECONNRESET = 104"

fun socket_Write :: "int + nat \<Rightarrow> nat \<Rightarrow> int + nat" where
  "socket_Write (Inl err) len = Inl err"
| "socket_Write (Inr n) len = Inr (min n len)"

fun socket_Readv :: "int + char list \<Rightarrow> nat \<Rightarrow> int + char list" where
  "socket_Readv (Inl err) capacity = Inl err"
| "socket_Readv (Inr data) capacity = Inr (take capacity data)"

definition emit :: "conn_effect \<Rightarrow> tcp_connection \<Rightarrow> tcp_connection" where
  "emit e c = c\<lparr>tc_effects := tc_effects c @ [e]\<rparr>"

text \<open>A change of the channel's mask: \<open>Channel::Update\<close> hands it to the poller.\<close>

definition change_channel :: "(channel \<Rightarrow> channel) \<Rightarrow> tcp_connection \<Rightarrow> tcp_connection" where
  "change_channel f c = (let ch = f (tc_channel c) in emit (Update_channel (ch_events ch)) (c\<lparr>tc_channel := ch\<rparr>))"

definition TcpConnection_new :: "int \<Rightarrow> tcp_connection result" where
  "TcpConnection_new sockfd =
     bindr (Buffer_new kinitial_size) (\<lambda>input. bindr (Buffer_new kinitial_size) (\<lambda>output.
       Inr \<lparr>tc_state = kconnecting, tc_reading = True,
            tc_channel = Channel_SetErrorCallback (Channel_SetCloseCallback (Channel_SetWriteCallback
              (Channel_SetReadCallback (Channel_new sockfd)))),
            tc_high_water_mark = 64 * 1024 * 1024, tc_write_complete_callback = False,
            tc_high_water_mark_callback = False, tc_input = input, tc_output = output,
            tc_effects = [], tc_written = [], tc_accepted = []\<rparr>))"

definition TcpConnection_destroy :: "tcp_connection \<Rightarrow> unit result" where
  "TcpConnection_destroy c = c_assert (tc_state c = kdisconnected) (Inr ())"

definition TcpConnection_Connected :: "tcp_connection \<Rightarrow> bool" where
  "TcpConnection_Connected c \<longleftrightarrow> tc_state c = kconnected"

definition TcpConnection_DisConnected :: "tcp_connection \<Rightarrow> bool" where
  "TcpConnection_DisConnected c \<longleftrightarrow> tc_state c = kdisconnected"

definition TcpConnection_SetState :: "conn_state \<Rightarrow> tcp_connection \<Rightarrow> tcp_connection" where
  "TcpConnection_SetState s c = c\<lparr>tc_state := s\<rparr>"

definition TcpConnection_SetWriteCompleteCallback :: "tcp_connection \<Rightarrow> tcp_connection" where
  "TcpConnection_SetWriteCompleteCallback c = c\<lparr>tc_write_complete_callback := True\<rparr>"

definition TcpConnection_SetHighWaterMarkCallback :: "nat \<Rightarrow> tcp_connection \<Rightarrow> tcp_connection" where
  "TcpConnection_SetHighWaterMarkCallback mark c =
     c\<lparr>tc_high_water_mark_callback := True, tc_high_water_mark := mark\<rparr>"

fun TcpConnection_StateToString :: "conn_state \<Rightarrow> string" where
  "TcpConnection_StateToString kdisconnected = ''kdisconnected''"
| "TcpConnection_StateToString kconnecting = ''kconnecting''"
| "TcpConnection_StateToString kdisconnecting = ''kdisconnecting''"
| "TcpConnection_StateToString kconnected = ''kconnected''"

section \<open>Sending\<close>

text \<open>The direct write of \<open>SendInLoop\<close>: \<open>remaining\<close>, \<open>n_wrote\<close>, \<open>fault_error\<close> and the connection after it.\<close>

definition send_direct ::
  "int + nat \<Rightarrow> char list \<Rightarrow> tcp_connection \<Rightarrow> nat \<times> nat \<times> bool \<times> tcp_connection" where
  "send_direct write data c =
     (if \<not> Channel_IsWriting (tc_channel c) \<and> Buffer_ReadableBytes (tc_output c) = 0
      then case socket_Write write (length data) of
             Inr n \<Rightarrow>
               let remaining = szsub (length data) n;
                   c1 = c\<lparr>tc_written := tc_written c @ take n data\<rparr>
               in (remaining, n, False,
                   if remaining = 0 \<and> tc_write_complete_callback c
                   then emit (Queue_functor F_write_complete) c1 else c1)
           | Inl err \<Rightarrow>
               if err \<noteq> EWOULDBLOCK
               then (length data, 0, err = EPIPE \<or> err = ECONNRESET, emit Log_error c)
               else (length data, 0, False, c)
      else (length data, 0, False, c))"

definition TcpConnection_SendInLoop ::
  "bool \<Rightarrow> int + nat \<Rightarrow> char list \<Rightarrow> tcp_connection \<Rightarrow> tcp_connection result" where
  "TcpConnection_SendInLoop in_loop write data c =
     AssertInLoopThread in_loop
      (if tc_state c = kdisconnected then Inr c
       else case send_direct write data c of (remaining, n_wrote, fault_error, c1) \<Rightarrow>
         c_assert (remaining \<le> length data)
          (let c2 = (if fault_error then c1 else c1\<lparr>tc_accepted := tc_accepted c1 @ data\<rparr>) in
           if \<not> fault_error \<and> remaining > 0
           then let old_len = Buffer_ReadableBytes (tc_output c2);
                    c3 = (if szadd old_len remaining \<ge> tc_high_water_mark c2 \<and> old_len < tc_high_water_mark c2
                             \<and> tc_high_water_mark_callback c2
                          then emit (Queue_functor (F_high_water (szadd old_len remaining))) c2 else c2)
                in bindr (Buffer_Append (drop n_wrote data) remaining (tc_output c3)) (\<lambda>out.
                     let c4 = c3\<lparr>tc_output := out\<rparr>
                     in Inr (if \<not> Channel_IsWriting (tc_channel c4)
                             then change_channel Channel_EnableWriting c4 else c4))
           else Inr c2))"

text \<open>\<open>Send(const StringPiece&)\<close>, and \<open>Send(Buffer*)\<close>, which also empties the buffer.\<close>

definition TcpConnection_Send ::
  "bool \<Rightarrow> int + nat \<Rightarrow> char list \<Rightarrow> tcp_connection \<Rightarrow> tcp_connection result" where
  "TcpConnection_Send in_loop write message c =
     (if tc_state c = kconnected
      then if in_loop then TcpConnection_SendInLoop True write message c
           else Inr (emit (Queue_functor (F_send message)) c)
      else Inr c)"

definition TcpConnection_Send_buffer ::
  "bool \<Rightarrow> int + nat \<Rightarrow> buffer \<Rightarrow> tcp_connection \<Rightarrow> (buffer \<times> tcp_connection) result" where
  "TcpConnection_Send_buffer in_loop write buf c =
     (if tc_state c = kconnected
      then if in_loop
           then bindr (TcpConnection_SendInLoop True write
                        (take (Buffer_ReadableBytes buf) (drop (Buffer_Peek buf) (buf_buffer buf))) c)
                  (\<lambda>c'. Inr (Buffer_RetrieveAll buf, c'))
           else bindr (Buffer_RetrieveAllAsString buf) (\<lambda>(message, buf').
                  Inr (buf', emit (Queue_functor (F_send message)) c))
      else Inr (buf, c))"

section \<open>Closing\<close>

definition TcpConnection_ShutdownInLoop :: "bool \<Rightarrow> tcp_connection \<Rightarrow> tcp_connection result" where
  "TcpConnection_ShutdownInLoop in_loop c =
     AssertInLoopThread in_loop
      (if \<not> Channel_IsWriting (tc_channel c) then Inr (emit Shutdown_write c) else Inr c)"

definition TcpConnection_Shutdown :: "bool \<Rightarrow> tcp_connection \<Rightarrow> tcp_connection result" where
  "TcpConnection_Shutdown in_loop c =
     (if tc_state c = kconnected
      then let c1 = TcpConnection_SetState kdisconnecting c
           in if in_loop then TcpConnection_ShutdownInLoop True c1
              else Inr (emit (Queue_functor F_shutdown) c1)
      else Inr c)"

definition TcpConnection_ForceClose :: "tcp_connection \<Rightarrow> tcp_connection" where
  "TcpConnection_ForceClose c =
     (if tc_state c = kconnected \<or> tc_state c = kdisconnecting
      then emit (Queue_functor F_force_close) (TcpConnection_SetState kdisconnecting c) else c)"

definition TcpConnection_ForceCloseWithDelay :: "rat \<Rightarrow> tcp_connection \<Rightarrow> tcp_connection" where
  "TcpConnection_ForceCloseWithDelay seconds c =
     (if tc_state c = kconnected \<or> tc_state c = kdisconnecting
      then emit (Run_after seconds) (TcpConnection_SetState kdisconnecting c) else c)"

section \<open>Reading on and off\<close>

definition TcpConnection_StartReadInLoop :: "bool \<Rightarrow> tcp_connection \<Rightarrow> tcp_connection result" where
  "TcpConnection_StartReadInLoop in_loop c =
     AssertInLoopThread in_loop
      (Inr (if \<not> tc_reading c \<or> \<not> Channel_IsReading (tc_channel c)
            then (change_channel Channel_EnableReading c)\<lparr>tc_reading := True\<rparr> else c))"

definition TcpConnection_StopReadInLoop :: "bool \<Rightarrow> tcp_connection \<Rightarrow> tcp_connection result" where
  "TcpConnection_StopReadInLoop in_loop c =
     AssertInLoopThread in_loop
      (Inr (if tc_reading c \<or> Channel_IsReading (tc_channel c)
            then (change_channel Channel_DisableReading c)\<lparr>tc_reading := False\<rparr> else c))"

definition TcpConnection_StartRead :: "bool \<Rightarrow> tcp_connection \<Rightarrow> tcp_connection result" where
  "TcpConnection_StartRead in_loop c =
     (if in_loop then TcpConnection_StartReadInLoop True c else Inr (emit (Queue_functor F_start_read) c))"

definition TcpConnection_StopRead :: "bool \<Rightarrow> tcp_connection \<Rightarrow> tcp_connection result" where
  "TcpConnection_StopRead in_loop c =
     (if in_loop then TcpConnection_StopReadInLoop True c else Inr (emit (Queue_functor F_stop_read) c))"

section \<open>Callbacks of the user\<close>

datatype conn_call =
    Call_send "int + nat" "char list"
  | Call_shutdown
  | Call_force_close
  | Call_force_close_after rat
  | Call_start_read
  | Call_stop_read
  | Call_retrieve nat
  | Call_retrieve_all

text \<open>
  The user takes at most the readable bytes from the input buffer, and calls \<open>StartRead\<close> only on a
  connection that is not down.
\<close>

fun conn_call_exec :: "bool \<Rightarrow> conn_call \<Rightarrow> tcp_connection \<Rightarrow> tcp_connection result" where
  "conn_call_exec in_loop (Call_send write data) c = TcpConnection_Send in_loop write data c"
| "conn_call_exec in_loop Call_shutdown c = TcpConnection_Shutdown in_loop c"
| "conn_call_exec in_loop Call_force_close c = Inr (TcpConnection_ForceClose c)"
| "conn_call_exec in_loop (Call_force_close_after seconds) c = Inr (TcpConnection_ForceCloseWithDelay seconds c)"
| "conn_call_exec in_loop Call_start_read c =
     (if TcpConnection_DisConnected c then Inr c else TcpConnection_StartRead in_loop c)"
| "conn_call_exec in_loop Call_stop_read c = TcpConnection_StopRead in_loop c"
| "conn_call_exec in_loop (Call_retrieve n) c =
     bindr (Buffer_Retrieve (min n (Buffer_ReadableBytes (tc_input c))) (tc_input c)) (\<lambda>b. Inr (c\<lparr>tc_input := b\<rparr>))"
| "conn_call_exec in_loop Call_retrieve_all c = Inr (c\<lparr>tc_input := Buffer_RetrieveAll (tc_input c)\<rparr>)"

fun conn_calls :: "conn_call list \<Rightarrow> tcp_connection \<Rightarrow> tcp_connection result" where
  "conn_calls [] c = Inr c"
| "conn_calls (a # as) c = bindr (conn_call_exec True a c) (conn_calls as)"

section \<open>Handlers\<close>

definition TcpConnection_ConnectionEstablished ::
  "bool \<Rightarrow> conn_call list \<Rightarrow> tcp_connection \<Rightarrow> tcp_connection result" where
  "TcpConnection_ConnectionEstablished in_loop on_connection c =
     AssertInLoopThread in_loop
      (c_assert (tc_state c = kconnecting)
        (let c1 = TcpConnection_SetState kconnected c;
             c2 = c1\<lparr>tc_channel := Channel_Tie (tc_channel c1)\<rparr>;
             c3 = change_channel Channel_EnableReading c2
         in conn_calls on_connection (emit Connection_callback c3)))"

text \<open>\<open>channel_->Remove()\<close> asserts that the mask is empty.\<close>

definition TcpConnection_ConnectionDestroyed ::
  "bool \<Rightarrow> conn_call list \<Rightarrow> tcp_connection \<Rightarrow> tcp_connection result" where
  "TcpConnection_ConnectionDestroyed in_loop on_connection c =
     AssertInLoopThread in_loop
      (bindr (if tc_state c = kconnected
              then conn_calls on_connection
                     (emit Connection_callback (change_channel Channel_DisableAll (TcpConnection_SetState kdisconnected c)))
              else Inr c)
        (\<lambda>c'. c_assert (Channel_IsNoneEvent (tc_channel c'))
                (Inr (emit Remove_channel (c'\<lparr>tc_channel := (tc_channel c')\<lparr>ch_added_to_loop := False\<rparr>\<rparr>)))))"

definition TcpConnection_HandleClose ::
  "bool \<Rightarrow> conn_call list \<Rightarrow> tcp_connection \<Rightarrow> tcp_connection result" where
  "TcpConnection_HandleClose in_loop on_connection c =
     AssertInLoopThread in_loop
      (c_assert (tc_state c = kconnected \<or> tc_state c = kdisconnecting)
        (let c1 = change_channel Channel_DisableAll (TcpConnection_SetState kdisconnected c)
         in bindr (conn_calls on_connection (emit Connection_callback c1)) (\<lambda>c2. Inr (emit Close_callback c2))))"

definition TcpConnection_ForceCloseInLoop ::
  "bool \<Rightarrow> conn_call list \<Rightarrow> tcp_connection \<Rightarrow> tcp_connection result" where
  "TcpConnection_ForceCloseInLoop in_loop on_connection c =
     AssertInLoopThread in_loop
      (if tc_state c = kconnected \<or> tc_state c = kdisconnecting
       then TcpConnection_HandleClose in_loop on_connection c else Inr c)"

definition TcpConnection_HandleError :: "tcp_connection \<Rightarrow> tcp_connection" where
  "TcpConnection_HandleError c = emit Log_error c"

definition TcpConnection_HandleRead ::
  "bool \<Rightarrow> int + char list \<Rightarrow> conn_call list \<Rightarrow> conn_call list \<Rightarrow> tcp_connection \<Rightarrow> tcp_connection result" where
  "TcpConnection_HandleRead in_loop readv on_message on_connection c =
     AssertInLoopThread in_loop
      (bindr (Buffer_ReadFd (socket_Readv readv (readv_capacity (tc_input c))) (tc_input c)) (\<lambda>(n, saved_errno, b).
        let c1 = c\<lparr>tc_input := b\<rparr> in
        if n > 0 then conn_calls on_message (emit Message_callback c1)
        else if n = 0 then TcpConnection_HandleClose in_loop on_connection c1
        else Inr (TcpConnection_HandleError (emit Log_error c1))))"

definition TcpConnection_HandleWrite :: "bool \<Rightarrow> int + nat \<Rightarrow> tcp_connection \<Rightarrow> tcp_connection result" where
  "TcpConnection_HandleWrite in_loop write c =
     AssertInLoopThread in_loop
      (if Channel_IsWriting (tc_channel c)
       then case socket_Write write (Buffer_ReadableBytes (tc_output c)) of
              Inr n \<Rightarrow>
                if n > 0
                then let sent = take n (take (Buffer_ReadableBytes (tc_output c))
                                          (drop (Buffer_Peek (tc_output c)) (buf_buffer (tc_output c))))
                     in bindr (Buffer_Retrieve n (tc_output c)) (\<lambda>out.
                       let c1 = c\<lparr>tc_output := out, tc_written := tc_written c @ sent\<rparr> in
                       if Buffer_ReadableBytes out = 0
                       then let c2 = change_channel Channel_DisableWriting c1;
                                c3 = (if tc_write_complete_callback c2
                                      then emit (Queue_functor F_write_complete) c2 else c2)
                            in if tc_state c3 = kdisconnecting
                               then TcpConnection_ShutdownInLoop in_loop c3 else Inr c3
                       else Inr c1)
                else Inr (emit Log_error c)
            | Inl err \<Rightarrow> Inr (emit Log_error c)
       else Inr c)"

text \<open>
  What \<open>Channel::HandleEvent\<close> makes of the connection: the callbacks it makes, in order, on the mask
  \<open>revents\<close> the poller stored.
\<close>

fun conn_actions ::
  "int + char list \<Rightarrow> int + nat \<Rightarrow> conn_call list \<Rightarrow> conn_call list \<Rightarrow> chan_action list \<Rightarrow> tcp_connection \<Rightarrow> tcp_connection result"
where
  "conn_actions readv write on_message on_connection [] c = Inr c"
| "conn_actions readv write on_message on_connection (a # as) c =
     bindr (case a of
              Error_callback \<Rightarrow> Inr (TcpConnection_HandleError c)
            | Read_callback t \<Rightarrow> TcpConnection_HandleRead True readv on_message on_connection c
            | Write_callback \<Rightarrow> TcpConnection_HandleWrite True write c
            | _ \<Rightarrow> Inr c)
       (conn_actions readv write on_message on_connection as)"

definition TcpConnection_HandleEvent ::
  "32 word \<Rightarrow> timestamp \<Rightarrow> int + char list \<Rightarrow> int + nat \<Rightarrow> conn_call list \<Rightarrow> conn_call list \<Rightarrow> tcp_connection \<Rightarrow> tcp_connection result"
where
  "TcpConnection_HandleEvent revents now readv write on_message on_connection c =
     (let c1 = c\<lparr>tc_channel := Channel_SetRevents revents (tc_channel c)\<rparr>
      in bindr (Channel_HandleEvent True now (tc_channel c1)) (\<lambda>as.
           conn_actions readv write on_message on_connection as c1))"

section \<open>The life of a connection\<close>

text \<open>
  What drives a connection once it exists: \<open>ConnectionEstablished\<close>, an event of the poller, a call of the
  user outside a callback (in the loop's thread or not), a functor the loop runs. Every input carries
  the outcomes of the system calls and the scripts of the callbacks it may need.
\<close>

datatype conn_input =
    In_established "conn_call list"
  | In_event "32 word" timestamp "int + char list" "int + nat" "conn_call list" "conn_call list"
  | In_call bool conn_call
  | In_functor loop_functor "int + nat" "conn_call list"

fun functor_exec :: "loop_functor \<Rightarrow> int + nat \<Rightarrow> conn_call list \<Rightarrow> tcp_connection \<Rightarrow> tcp_connection result" where
  "functor_exec (F_send data) write calls c = TcpConnection_SendInLoop True write data c"
| "functor_exec F_shutdown write calls c = TcpConnection_ShutdownInLoop True c"
| "functor_exec F_force_close write calls c = TcpConnection_ForceCloseInLoop True calls c"
| "functor_exec F_start_read write calls c = TcpConnection_StartReadInLoop True c"
| "functor_exec F_stop_read write calls c = TcpConnection_StopReadInLoop True c"
| "functor_exec F_write_complete write calls c = conn_calls calls c"
| "functor_exec (F_high_water n) write calls c = conn_calls calls c"

fun conn_exec :: "conn_input \<Rightarrow> tcp_connection \<Rightarrow> tcp_connection result" where
  "conn_exec (In_established calls) c = TcpConnection_ConnectionEstablished True calls c"
| "conn_exec (In_event revents now readv write on_message on_connection) c =
     TcpConnection_HandleEvent revents now readv write on_message on_connection c"
| "conn_exec (In_call in_loop a) c = conn_call_exec in_loop a c"
| "conn_exec (In_functor f write calls) c = functor_exec f write calls c"

text \<open>
  When an input can come: the server establishes a connection once; the poller reports a channel it
  watches; the user has the connection from its connection callback on; \<open>StartRead\<close> does not reach a
  connection that is down.
\<close>

fun conn_guard :: "conn_input \<Rightarrow> tcp_connection \<Rightarrow> bool" where
  "conn_guard (In_established calls) c \<longleftrightarrow> tc_state c = kconnecting"
| "conn_guard (In_event revents now readv write on_message on_connection) c \<longleftrightarrow> \<not> Channel_IsNoneEvent (tc_channel c)"
| "conn_guard (In_call in_loop a) c \<longleftrightarrow> tc_state c \<noteq> kconnecting"
| "conn_guard (In_functor f write calls) c \<longleftrightarrow>
     tc_state c \<noteq> kconnecting \<and> (f = F_start_read \<longrightarrow> tc_state c \<noteq> kdisconnected)"

inductive conn_step :: "tcp_connection \<Rightarrow> conn_input \<Rightarrow> tcp_connection \<Rightarrow> bool" where
  step: "conn_guard i c \<Longrightarrow> conn_exec i c = Inr c' \<Longrightarrow> conn_step c i c'"

inductive conn_reach :: "tcp_connection \<Rightarrow> conn_input list \<Rightarrow> tcp_connection \<Rightarrow> bool" for c0 where
  start: "conn_reach c0 [] c0"
| next_step: "conn_reach c0 is c \<Longrightarrow> conn_step c i c' \<Longrightarrow> conn_reach c0 (is @ [i]) c'"

inductive_simps conn_step_simps [simp]: "conn_step c i c'"

section \<open>The invariant\<close>

lemma emit_simps [simp]:
  "tc_state (emit e c) = tc_state c" "tc_reading (emit e c) = tc_reading c" "tc_channel (emit e c) = tc_channel c"
  "tc_input (emit e c) = tc_input c" "tc_output (emit e c) = tc_output c" "tc_written (emit e c) = tc_written c"
  "tc_accepted (emit e c) = tc_accepted c" "tc_effects (emit e c) = tc_effects c @ [e]"
  "tc_write_complete_callback (emit e c) = tc_write_complete_callback c"
  by (simp_all add: emit_def)

lemma change_channel_simps [simp]:
  "tc_state (change_channel f c) = tc_state c" "tc_reading (change_channel f c) = tc_reading c"
  "tc_channel (change_channel f c) = f (tc_channel c)"
  "tc_input (change_channel f c) = tc_input c" "tc_output (change_channel f c) = tc_output c"
  "tc_written (change_channel f c) = tc_written c" "tc_accepted (change_channel f c) = tc_accepted c"
  "tc_effects (change_channel f c) = tc_effects c @ [Update_channel (ch_events (f (tc_channel c)))]"
  "tc_write_complete_callback (change_channel f c) = tc_write_complete_callback c"
  by (simp_all add: change_channel_def Let_def)

text \<open>The calls a connection's history makes on the poller, as operations of the abstract poller.\<close>

definition chan_ops :: "conn_effect list \<Rightarrow> chan_op list" where
  "chan_ops es = concat (map (\<lambda>e. case e of Update_channel m \<Rightarrow> [Set_events 0 m] | Remove_channel \<Rightarrow> [Remove_chan 0] | _ \<Rightarrow> []) es)"

lemma chan_ops_append [simp]: "chan_ops (es @ es') = chan_ops es @ chan_ops es'"
  by (simp add: chan_ops_def)

lemma spec_run_append:
  "spec_run fd (xs @ ys) w = (case spec_run fd xs w of None \<Rightarrow> None | Some w' \<Rightarrow> spec_run fd ys w')"
  by (induction xs arbitrary: w) (auto split: option.splits)

definition trace_is :: "bool \<Rightarrow> channel \<Rightarrow> conn_effect list \<Rightarrow> bool" where
  "trace_is reg ch es \<longleftrightarrow>
     (case spec_run (\<lambda>_. ch_fd ch) (chan_ops es) ([], []) of
        None \<Rightarrow> False
      | Some (a, used) \<Rightarrow> if reg then a = [(0, ch_events ch)] else a = [] \<and> used = [])"

definition quiet :: "conn_effect \<Rightarrow> bool" where
  "quiet e \<longleftrightarrow> chan_ops [e] = []"

lemma quiet_simps [simp]:
  "quiet (Queue_functor f)" "quiet (Run_after s)" "quiet Connection_callback" "quiet Message_callback"
  "quiet Close_callback" "quiet Shutdown_write" "quiet Log_error"
  by (simp_all add: quiet_def chan_ops_def)

lemma trace_quiet: "quiet e \<Longrightarrow> trace_is reg ch (es @ [e]) = trace_is reg ch es"
  by (simp add: trace_is_def quiet_def)

lemma trace_update:
  assumes "trace_is reg ch es" and "ch_fd ch' = ch_fd ch" and "0 \<le> ch_fd ch" and "valid_events (ch_events ch')"
    and "reg \<or> ch_events ch' \<noteq> 0"
  shows "trace_is True ch' (es @ [Update_channel (ch_events ch')])"
proof -
  from assms(1) obtain a used where r: "spec_run (\<lambda>_. ch_fd ch) (chan_ops es) ([], []) = Some (a, used)"
    "if reg then a = [(0, ch_events ch)] else a = [] \<and> used = []"
    by (auto simp: trace_is_def split: option.splits)
  have "chan_ops [Update_channel (ch_events ch')] = [Set_events 0 (ch_events ch')]" by (simp add: chan_ops_def)
  with r assms(2-5) show ?thesis
    by (cases reg) (simp_all add: trace_is_def spec_run_append smap_get_def)
qed

lemma trace_same: "trace_is reg ch es \<Longrightarrow> ch_fd ch' = ch_fd ch \<Longrightarrow> ch_events ch' = ch_events ch \<Longrightarrow> trace_is reg ch' es"
  by (auto simp: trace_is_def split: option.splits if_splits)

text \<open>
  \<open>conn_ok m c\<close>: the buffers are well formed with room for \<open>m\<close> more bytes; the bytes taken on are those
  written followed by those in the output buffer; while the connection is up the channel watches for
  writing exactly when the output buffer is not empty, and once it is down the channel watches for
  nothing; the calls on the poller were legal.
\<close>

definition buffers_ok :: "nat \<Rightarrow> tcp_connection \<Rightarrow> bool" where
  "buffers_ok m c \<longleftrightarrow> buf_inv (tc_input c) \<and> buf_inv (tc_output c) \<and> buf_room m (tc_output c) \<and>
     length (buf_buffer (tc_input c)) + extrabuf_size + m \<le> max_vector"

definition mask_ok :: "tcp_connection \<Rightarrow> bool" where
  "mask_ok c \<longleftrightarrow> 0 \<le> ch_fd (tc_channel c) \<and> valid_events (ch_events (tc_channel c)) \<and>
     ch_read_callback (tc_channel c) \<and> ch_write_callback (tc_channel c) \<and>
     ch_close_callback (tc_channel c) \<and> ch_error_callback (tc_channel c) \<and>
     (tc_state c = kconnecting \<longrightarrow> readable (tc_output c) = [] \<and> ch_events (tc_channel c) = 0) \<and>
     (tc_state c = kconnected \<or> tc_state c = kdisconnecting \<longrightarrow>
        (Channel_IsWriting (tc_channel c) \<longleftrightarrow> readable (tc_output c) \<noteq> [])) \<and>
     (tc_state c = kdisconnected \<longrightarrow> ch_events (tc_channel c) = 0)"

definition conn_ok :: "nat \<Rightarrow> tcp_connection \<Rightarrow> bool" where
  "conn_ok m c \<longleftrightarrow> buffers_ok m c \<and> mask_ok c \<and> tc_accepted c = tc_written c @ readable (tc_output c) \<and>
     trace_is (tc_state c \<noteq> kconnecting) (tc_channel c) (tc_effects c)"

lemma buffers_mono: "buffers_ok n c \<Longrightarrow> m \<le> n \<Longrightarrow> buffers_ok m c"
  using bq.room_mono by (auto simp: buffers_ok_def)

lemma conn_mono: "conn_ok n c \<Longrightarrow> m \<le> n \<Longrightarrow> conn_ok m c"
  using buffers_mono by (auto simp: conn_ok_def)

lemma conn_emit: "quiet e \<Longrightarrow> conn_ok m (emit e c) = conn_ok m c"
  by (simp add: conn_ok_def buffers_ok_def mask_ok_def trace_quiet)

lemma conn_bufs:
  assumes "conn_ok m c"
  shows "buf_inv (tc_input c)" "buf_inv (tc_output c)"
    "Buffer_ReadableBytes (tc_output c) = length (readable (tc_output c))" "valid_events (ch_events (tc_channel c))"
  using assms by (auto simp: conn_ok_def buffers_ok_def mask_ok_def ReadableBytes_readable)

lemma mask_keeps [simp]:
  "ch_fd (Channel_EnableReading ch) = ch_fd ch" "ch_fd (Channel_DisableReading ch) = ch_fd ch"
  "ch_fd (Channel_EnableWriting ch) = ch_fd ch" "ch_fd (Channel_DisableWriting ch) = ch_fd ch"
  "ch_fd (Channel_DisableAll ch) = ch_fd ch" "ch_events (Channel_DisableAll ch) = 0"
  by (simp_all add: Channel_EnableReading_def Channel_DisableReading_def Channel_EnableWriting_def
      Channel_DisableWriting_def Channel_DisableAll_def Channel_set_events_def knone_event_def)

lemma callback_keeps [simp]:
  "f \<in> {Channel_EnableReading, Channel_DisableReading, Channel_EnableWriting, Channel_DisableWriting, Channel_DisableAll} \<Longrightarrow>
   ch_read_callback (f ch) = ch_read_callback ch \<and> ch_write_callback (f ch) = ch_write_callback ch \<and>
   ch_close_callback (f ch) = ch_close_callback ch \<and> ch_error_callback (f ch) = ch_error_callback ch \<and>
   ch_fd (f ch) = ch_fd ch"
  by (auto simp: Channel_EnableReading_def Channel_DisableReading_def Channel_EnableWriting_def
      Channel_DisableWriting_def Channel_DisableAll_def Channel_set_events_def)

text \<open>Changing the mask of an established connection keeps the invariant when the new mask fits the
  output buffer.\<close>

lemma conn_change:
  assumes ok: "conn_ok m c" and est: "tc_state c \<noteq> kconnecting \<or> f = Channel_EnableReading"
    and f: "f \<in> {Channel_EnableReading, Channel_DisableReading, Channel_EnableWriting, Channel_DisableWriting, Channel_DisableAll}"
    and st: "st = kconnected \<or> st = kdisconnecting \<Longrightarrow> Channel_IsWriting (f (tc_channel c)) \<longleftrightarrow> readable (tc_output c) \<noteq> []"
    and st': "st = kdisconnected \<Longrightarrow> f = Channel_DisableAll" and nc: "st \<noteq> kconnecting"
  shows "conn_ok m (change_channel f (c\<lparr>tc_state := st\<rparr>))"
proof -
  let ?ch = "f (tc_channel c)"
  have v: "valid_events (ch_events ?ch)" using f valid_events_ops [OF conn_bufs(4) [OF ok]] by auto
  have tr: "trace_is True ?ch (tc_effects c @ [Update_channel (ch_events ?ch)])"
  proof (rule trace_update)
    show "trace_is (tc_state c \<noteq> kconnecting) (tc_channel c) (tc_effects c)" using ok by (simp add: conn_ok_def)
    show "tc_state c \<noteq> kconnecting \<or> ch_events ?ch \<noteq> 0"
      using est by (auto simp: Channel_EnableReading_def Channel_set_events_def event_masks or_eq_0_iff)
  qed (use ok f v in \<open>auto simp: conn_ok_def mask_ok_def\<close>)
  have "mask_ok (change_channel f (c\<lparr>tc_state := st\<rparr>))"
    using ok f v st st' nc by (auto simp: conn_ok_def mask_ok_def)
  then show ?thesis using ok tr nc by (simp add: conn_ok_def buffers_ok_def)
qed

section \<open>The calls keep the invariant\<close>

definition is_callback :: "conn_effect \<Rightarrow> bool" where
  "is_callback e \<longleftrightarrow> e = Connection_callback \<or> e = Message_callback \<or> e = Close_callback"

definition callbacks :: "tcp_connection \<Rightarrow> conn_effect list" where
  "callbacks c = filter is_callback (tc_effects c)"

lemma callbacks_emit [simp]: "callbacks (emit e c) = callbacks c @ (if is_callback e then [e] else [])"
  by (simp add: callbacks_def)

lemma callbacks_change [simp]: "callbacks (change_channel f c) = callbacks c"
  by (simp add: callbacks_def is_callback_def)

lemma is_callback_simps [simp]:
  "\<not> is_callback (Queue_functor f)" "\<not> is_callback (Run_after s)" "is_callback Connection_callback"
  "is_callback Message_callback" "is_callback Close_callback" "\<not> is_callback Shutdown_write"
  "\<not> is_callback Log_error" "\<not> is_callback (Update_channel m)" "\<not> is_callback Remove_channel"
  by (simp_all add: is_callback_def)

text \<open>What a call of the user can do to the state: nothing, or start the shutdown; and it makes no
  callback.\<close>

definition mild :: "tcp_connection \<Rightarrow> tcp_connection \<Rightarrow> bool" where
  "mild c c' \<longleftrightarrow> (tc_state c' = tc_state c \<or> tc_state c = kconnected \<and> tc_state c' = kdisconnecting) \<and>
     callbacks c' = callbacks c"

lemma mild_refl [simp]: "mild c c"
  by (simp add: mild_def)

lemma mild_trans: "mild a b \<Longrightarrow> mild b c \<Longrightarrow> mild a c"
  by (auto simp: mild_def)

fun call_bytes :: "conn_call \<Rightarrow> nat" where
  "call_bytes (Call_send write data) = length data"
| "call_bytes _ = 0"

definition calls_bytes :: "conn_call list \<Rightarrow> nat" where
  "calls_bytes calls = sum_list (map call_bytes calls)"

lemma calls_bytes_simps [simp]:
  "calls_bytes [] = 0" "calls_bytes (a # as) = call_bytes a + calls_bytes as"
  by (simp_all add: calls_bytes_def)

lemma conn_written:
  assumes "conn_ok m c" and "tc_state c \<noteq> kconnecting" and "readable (tc_output c) = []"
  shows "conn_ok m (c\<lparr>tc_written := tc_written c @ d, tc_accepted := tc_accepted c @ d\<rparr>)"
  using assms by (simp add: conn_ok_def buffers_ok_def mask_ok_def)

lemma conn_input_buffer:
  assumes "conn_ok m c" and "buf_inv b" and "length (buf_buffer b) + extrabuf_size + n \<le> max_vector" and "n \<le> m"
  shows "conn_ok n (c\<lparr>tc_input := b\<rparr>)"
  using conn_mono [OF assms(1,4)] assms(2,3) by (simp add: conn_ok_def buffers_ok_def mask_ok_def)

lemma conn_state_down:
  assumes "conn_ok m c" and "tc_state c = kconnected \<or> tc_state c = kdisconnecting"
  shows "conn_ok m (c\<lparr>tc_state := kdisconnecting\<rparr>)"
  using assms by (auto simp: conn_ok_def buffers_ok_def mask_ok_def)

text \<open>Appending to the output buffer and watching for writing.\<close>

lemma conn_queue_output:
  assumes ok: "conn_ok (length d + m) c" and up: "tc_state c = kconnected \<or> tc_state c = kdisconnecting" and d: "d \<noteq> []"
  shows "\<exists>out. Buffer_Append d (length d) (tc_output c) = Inr out \<and> readable out = readable (tc_output c) @ d \<and>
    (let c1 = c\<lparr>tc_output := out, tc_accepted := tc_accepted c @ d\<rparr>
     in conn_ok m (if \<not> Channel_IsWriting (tc_channel c1) then change_channel Channel_EnableWriting c1 else c1))"
proof -
  have inv: "buf_inv (tc_output c)" and room: "buf_room (length d + m) (tc_output c)" and v: "valid_events (ch_events (tc_channel c))"
    using ok by (simp_all add: conn_ok_def buffers_ok_def mask_ok_def)
  obtain out where out: "Buffer_put d (tc_output c) = Inr out" "buf_inv out" "readable out = readable (tc_output c) @ d"
    using bq.put_ok [OF inv bq.room_mono [OF room], of d] by auto
  have room': "buf_room m out" using bq.put_room [OF inv room out(1)] .
  let ?c1 = "c\<lparr>tc_output := out, tc_accepted := tc_accepted c @ d\<rparr>"
  let ?c2 = "if \<not> Channel_IsWriting (tc_channel ?c1) then change_channel Channel_EnableWriting ?c1 else ?c1"
  have tr: "trace_is True (Channel_EnableWriting (tc_channel c))
      (tc_effects c @ [Update_channel (ch_events (Channel_EnableWriting (tc_channel c)))])"
    using ok up v valid_events_ops [OF v]
    by (intro trace_update [where reg = True and ch = "tc_channel c"]) (auto simp: conn_ok_def mask_ok_def)
  have "buffers_ok m ?c2" using ok out room' by (auto simp: conn_ok_def buffers_ok_def)
  moreover have "mask_ok ?c2"
    using ok up d out(3) valid_events_ops [OF v] channel_flags [OF v] by (auto simp: conn_ok_def mask_ok_def)
  moreover have "trace_is True (tc_channel ?c2) (tc_effects ?c2)"
    using ok up tr by (auto simp: conn_ok_def)
  ultimately have "conn_ok m ?c2" using ok up out(3) by (auto simp: conn_ok_def)
  then show ?thesis using out by (simp add: Buffer_put_def Let_def)
qed

text \<open>The direct write: an error that ends the connection changes nothing; otherwise \<open>n\<close> bytes are
  written and the connection is sound with these taken on.\<close>

lemma send_direct_ok:
  assumes ok: "conn_ok k c" and up: "tc_state c = kconnected \<or> tc_state c = kdisconnecting"
    and sd: "send_direct write d c = (remaining, n, fault_error, c1)" and len: "length d < size_limit"
  shows "mild c c1" and "tc_state c1 = tc_state c" and "n \<le> length d" and "remaining = length d - n"
    and "fault_error \<Longrightarrow> conn_ok k c1"
    and "\<not> fault_error \<Longrightarrow> conn_ok k (c1\<lparr>tc_accepted := tc_accepted c1 @ take n d\<rparr>)"
proof -
  have e: "readable (tc_output c) = []" if "Buffer_ReadableBytes (tc_output c) = 0"
    using that conn_bufs(3) [OF ok] by simp
  have w: "conn_ok k (c\<lparr>tc_written := tc_written c @ x, tc_accepted := tc_accepted c @ x\<rparr>)"
    if "Buffer_ReadableBytes (tc_output c) = 0" for x
    using conn_written [OF ok _ e [OF that]] up by auto
  have sz: "szsub (length d) (min x (length d)) = length d - min x (length d)" for x
    using len by (intro szsub_in_range) auto
  have em: "conn_ok k (c\<lparr>tc_written := tc_written c @ x, tc_effects := tc_effects c @ [Queue_functor f], tc_accepted := tc_accepted c @ x\<rparr>)"
    if "Buffer_ReadableBytes (tc_output c) = 0" for x f
    using w [OF that] by (simp add: conn_ok_def buffers_ok_def mask_ok_def trace_quiet)
  have log: "conn_ok k (emit Log_error c)" using ok by (simp add: conn_emit)
  show "mild c c1" "tc_state c1 = tc_state c" "n \<le> length d" "remaining = length d - n"
    using sd by (cases "write"; auto simp: send_direct_def Let_def mild_def sz callbacks_def split: if_splits)+
  show "conn_ok k c1" if fault_error
    using sd that log ok by (cases "write"; auto simp: send_direct_def Let_def split: if_splits)
  show "conn_ok k (c1\<lparr>tc_accepted := tc_accepted c1 @ take n d\<rparr>)" if "\<not> fault_error"
  proof (cases "\<not> Channel_IsWriting (tc_channel c) \<and> Buffer_ReadableBytes (tc_output c) = 0")
    case True
    show ?thesis
    proof (cases "write")
      case (Inl err)
      then show ?thesis using sd that True log ok by (auto simp: send_direct_def Let_def split: if_splits)
    next
      case (Inr x)
      have "take (min x (length d)) d = take x d" by (simp add: min_def)
      then show ?thesis using sd that True Inr w [of "take x d"] em
        by (auto simp: send_direct_def Let_def emit_def split: if_splits)
    qed
  next
    case False
    then show ?thesis using sd ok by (auto simp: send_direct_def split: if_splits)
  qed
qed

lemma SendInLoop_ok:
  assumes ok: "conn_ok (length d + m) c" and nc: "tc_state c \<noteq> kconnecting"
  shows "\<exists>c'. TcpConnection_SendInLoop True write d c = Inr c' \<and> conn_ok m c' \<and> mild c c'"
proof (cases "tc_state c = kdisconnected")
  case True
  then show ?thesis using conn_mono [OF ok] by (simp add: TcpConnection_SendInLoop_def AssertInLoopThread_def)
next
  case False
  then have up: "tc_state c = kconnected \<or> tc_state c = kdisconnecting" using nc by (cases "tc_state c") auto
  have len: "length d < size_limit"
    using ok by (auto simp: conn_ok_def buffers_ok_def max_vector_def size_limit_def)
  obtain remaining n fe c1 where sd: "send_direct write d c = (remaining, n, fe, c1)" by (metis prod_cases4)
  note D = send_direct_ok [OF ok up sd len]
  show ?thesis
  proof (cases "fe \<or> remaining = 0")
    case True
    then have "conn_ok m (if fe then c1 else c1\<lparr>tc_accepted := tc_accepted c1 @ d\<rparr>)"
      using D conn_mono by (auto dest: conn_mono [where m = m])
    moreover have "mild c (if fe then c1 else c1\<lparr>tc_accepted := tc_accepted c1 @ d\<rparr>)"
      using D(1) by (simp add: mild_def callbacks_def)
    ultimately show ?thesis using True D(3,4) False sd
      by (auto simp: TcpConnection_SendInLoop_def AssertInLoopThread_def Let_def)
  next
    case pending: False
    let ?c2 = "c1\<lparr>tc_accepted := tc_accepted c1 @ take n d\<rparr>"
    define c3 where "c3 = (if szadd (Buffer_ReadableBytes (tc_output c1)) remaining \<ge> tc_high_water_mark c1
        \<and> Buffer_ReadableBytes (tc_output c1) < tc_high_water_mark c1 \<and> tc_high_water_mark_callback c1
        then emit (Queue_functor (F_high_water (szadd (Buffer_ReadableBytes (tc_output c1)) remaining))) ?c2 else ?c2)"
    have "conn_ok (length (drop n d) + m) ?c2" using D(6) pending by (auto intro: conn_mono)
    then have ok3: "conn_ok (length (drop n d) + m) c3" by (simp add: c3_def conn_emit)
    have up3: "tc_state c3 = kconnected \<or> tc_state c3 = kdisconnecting" using D(2) up by (simp add: c3_def)
    have "drop n d \<noteq> []" using pending D(4) by auto
    from conn_queue_output [OF ok3 up3 this] obtain out where
      out: "Buffer_Append (drop n d) (length (drop n d)) (tc_output c3) = Inr out"
      "let c4 = c3\<lparr>tc_output := out, tc_accepted := tc_accepted c3 @ drop n d\<rparr> in
       conn_ok m (if \<not> Channel_IsWriting (tc_channel c4) then change_channel Channel_EnableWriting c4 else c4)"
      by blast
    let ?c4 = "c3\<lparr>tc_output := out, tc_accepted := tc_accepted c3 @ drop n d\<rparr>"
    let ?r = "if \<not> Channel_IsWriting (tc_channel ?c4) then change_channel Channel_EnableWriting ?c4 else ?c4"
    have "mild c ?r" using D(1) by (auto simp: mild_def c3_def callbacks_def is_callback_def)
    moreover have "TcpConnection_SendInLoop True write d c = Inr ?r"
      using pending D(3,4) False sd out(1)
      by (auto simp: TcpConnection_SendInLoop_def AssertInLoopThread_def Let_def c3_def emit_def change_channel_def)
    ultimately show ?thesis using out(2) by (simp add: Let_def)
  qed
qed

lemma Shutdown_ok:
  assumes "conn_ok m c"
  shows "\<exists>c'. TcpConnection_Shutdown in_loop c = Inr c' \<and> conn_ok m c' \<and> mild c c'"
  using conn_state_down [OF assms] assms
  by (auto simp: TcpConnection_Shutdown_def TcpConnection_ShutdownInLoop_def TcpConnection_SetState_def
      AssertInLoopThread_def Let_def conn_emit mild_def callbacks_def)

lemma change_reading_ok:
  assumes ok: "conn_ok m c" and nc: "tc_state c \<noteq> kconnecting"
    and f: "f = Channel_DisableReading \<or> f = Channel_EnableReading \<and> tc_state c \<noteq> kdisconnected"
  shows "conn_ok m ((change_channel f c)\<lparr>tc_reading := r\<rparr>)" and "mild c ((change_channel f c)\<lparr>tc_reading := r\<rparr>)"
proof -
  have v: "valid_events (ch_events (tc_channel c))" using conn_bufs(4) [OF ok] .
  have tr: "trace_is True (f (tc_channel c)) (tc_effects c @ [Update_channel (ch_events (f (tc_channel c)))])"
    using ok nc f valid_events_ops [OF v]
    by (intro trace_update [where reg = True and ch = "tc_channel c"]) (auto simp: conn_ok_def mask_ok_def)
  have down: "ch_events (Channel_DisableReading (tc_channel c)) = 0" if "tc_state c = kdisconnected"
    using ok that by (simp add: conn_ok_def mask_ok_def Channel_DisableReading_def Channel_set_events_def)
  have "mask_ok (change_channel f c)"
    using ok nc f down valid_events_ops [OF v] channel_flags(5,6) [OF v] by (auto simp: conn_ok_def mask_ok_def)
  then have "conn_ok m (change_channel f c)" using ok nc tr by (simp add: conn_ok_def buffers_ok_def)
  then show "conn_ok m ((change_channel f c)\<lparr>tc_reading := r\<rparr>)" by (simp add: conn_ok_def buffers_ok_def mask_ok_def)
  show "mild c ((change_channel f c)\<lparr>tc_reading := r\<rparr>)"
    by (simp add: mild_def callbacks_def)
qed

lemma Start_StopRead_ok:
  assumes "conn_ok m c" and "tc_state c \<noteq> kconnecting"
  shows "tc_state c \<noteq> kdisconnected \<Longrightarrow> \<exists>c'. TcpConnection_StartReadInLoop True c = Inr c' \<and> conn_ok m c' \<and> mild c c'"
    and "\<exists>c'. TcpConnection_StopReadInLoop True c = Inr c' \<and> conn_ok m c' \<and> mild c c'"
  using assms change_reading_ok [OF assms]
  by (auto simp: TcpConnection_StartReadInLoop_def TcpConnection_StopReadInLoop_def AssertInLoopThread_def)

lemma queued_ok: "conn_ok m c \<Longrightarrow> conn_ok m (emit (Queue_functor f) c) \<and> mild c (emit (Queue_functor f) c)"
  by (simp add: conn_emit mild_def)

lemma ForceClose_ok:
  assumes "conn_ok m c"
  shows "conn_ok m (TcpConnection_ForceClose c)" "mild c (TcpConnection_ForceClose c)"
    "conn_ok m (TcpConnection_ForceCloseWithDelay s c)" "mild c (TcpConnection_ForceCloseWithDelay s c)"
  using conn_state_down [OF assms] assms
  by (auto simp: TcpConnection_ForceClose_def TcpConnection_ForceCloseWithDelay_def TcpConnection_SetState_def
      conn_emit mild_def callbacks_def)

text \<open>Taking bytes out of the input buffer does not grow it.\<close>

lemma Retrieve_length: "Buffer_Retrieve n b = Inr b' \<Longrightarrow> buf_buffer b' = buf_buffer b"
  by (auto simp: Buffer_Retrieve_def Buffer_RetrieveAll_def c_assert_def split: if_splits)

lemma retrieve_call_ok:
  assumes ok: "conn_ok m c"
  shows "\<exists>b. Buffer_Retrieve (min n (Buffer_ReadableBytes (tc_input c))) (tc_input c) = Inr b \<and>
      conn_ok m (c\<lparr>tc_input := b\<rparr>) \<and> mild c (c\<lparr>tc_input := b\<rparr>)"
    and "conn_ok m (c\<lparr>tc_input := Buffer_RetrieveAll (tc_input c)\<rparr>)"
    and "mild c (c\<lparr>tc_input := Buffer_RetrieveAll (tc_input c)\<rparr>)"
proof -
  have inv: "buf_inv (tc_input c)" and len: "length (buf_buffer (tc_input c)) + extrabuf_size + m \<le> max_vector"
    using ok by (simp_all add: conn_ok_def buffers_ok_def)
  obtain b where b: "Buffer_Retrieve (min n (Buffer_ReadableBytes (tc_input c))) (tc_input c) = Inr b" "buf_inv b"
    using bq.get_ok [OF inv, of "min n (Buffer_ReadableBytes (tc_input c))"] ReadableBytes_readable [OF inv] by auto
  have "conn_ok m (c\<lparr>tc_input := b\<rparr>)"
    using conn_input_buffer [OF ok b(2) _ order_refl] len Retrieve_length [OF b(1)] by simp
  then show "\<exists>b. Buffer_Retrieve (min n (Buffer_ReadableBytes (tc_input c))) (tc_input c) = Inr b \<and>
      conn_ok m (c\<lparr>tc_input := b\<rparr>) \<and> mild c (c\<lparr>tc_input := b\<rparr>)"
    using b by (auto simp: mild_def callbacks_def)
  show "conn_ok m (c\<lparr>tc_input := Buffer_RetrieveAll (tc_input c)\<rparr>)"
    using conn_input_buffer [OF ok RetrieveAll_inv(1) [OF inv] _ order_refl] len by (simp add: Buffer_RetrieveAll_def)
  show "mild c (c\<lparr>tc_input := Buffer_RetrieveAll (tc_input c)\<rparr>)"
    by (simp add: mild_def callbacks_def)
qed

lemma call_ok:
  assumes ok: "conn_ok (call_bytes a + m) c" and nc: "tc_state c \<noteq> kconnecting"
  shows "\<exists>c'. conn_call_exec in_loop a c = Inr c' \<and> conn_ok m c' \<and> mild c c'"
proof (cases a)
  case (Call_send w d)
  then show ?thesis
    using SendInLoop_ok [of d m c w] ok nc conn_mono [OF ok, of m] queued_ok [of m c "F_send d"]
    by (auto simp: TcpConnection_Send_def)
next
  case Call_shutdown
  then show ?thesis using Shutdown_ok ok by simp
next
  case Call_start_read
  then show ?thesis using Start_StopRead_ok [of m c] queued_ok [of m c] ok nc
    by (auto simp: TcpConnection_StartRead_def TcpConnection_DisConnected_def)
next
  case Call_stop_read
  then show ?thesis using Start_StopRead_ok [of m c] queued_ok [of m c] ok nc
    by (auto simp: TcpConnection_StopRead_def)
next
  case (Call_retrieve n)
  then show ?thesis using retrieve_call_ok(1) [of m c n] ok by auto
qed (use ForceClose_ok retrieve_call_ok(2,3) ok in auto)

lemma calls_ok:
  assumes "conn_ok (calls_bytes as + m) c" and "tc_state c \<noteq> kconnecting"
  shows "\<exists>c'. conn_calls as c = Inr c' \<and> conn_ok m c' \<and> mild c c'"
  using assms
proof (induction as arbitrary: c)
  case (Cons a as)
  obtain c1 where c1: "conn_call_exec True a c = Inr c1" "conn_ok (calls_bytes as + m) c1" "mild c c1"
    using call_ok [of a "calls_bytes as + m" c True] Cons.prems by (auto simp: add.assoc)
  then have "tc_state c1 \<noteq> kconnecting" using Cons.prems(2) by (auto simp: mild_def)
  from Cons.IH [OF c1(2) this] c1 show ?case by (auto intro: mild_trans)
qed simp

section \<open>The handlers keep the invariant\<close>

definition up :: "tcp_connection \<Rightarrow> bool" where
  "up c \<longleftrightarrow> tc_state c = kconnected \<or> tc_state c = kdisconnecting"

definition closes :: "tcp_connection \<Rightarrow> tcp_connection \<Rightarrow> bool" where
  "closes c c' \<longleftrightarrow> up c \<and> tc_state c' = kdisconnected \<and> callbacks c' = callbacks c @ [Connection_callback, Close_callback]"

definition reads :: "tcp_connection \<Rightarrow> tcp_connection \<Rightarrow> bool" where
  "reads c c' \<longleftrightarrow> up c \<and> callbacks c' = callbacks c @ [Message_callback] \<and>
     (tc_state c' = tc_state c \<or> tc_state c = kconnected \<and> tc_state c' = kdisconnecting)"

lemma conn_update_channel:
  assumes "conn_ok m c" and "ch' = (tc_channel c)\<lparr>ch_revents := r, ch_tied := t\<rparr>"
  shows "conn_ok m (c\<lparr>tc_channel := ch'\<rparr>)"
proof -
  have "trace_is b ch' (tc_effects c)" if "trace_is b (tc_channel c) (tc_effects c)" for b
    using trace_same [OF that] assms(2) by simp
  then show ?thesis using assms by (auto simp: conn_ok_def buffers_ok_def mask_ok_def Channel_IsWriting_def)
qed

lemma up_when_watched:
  assumes "conn_ok m c" and "\<not> Channel_IsNoneEvent (tc_channel c)"
  shows "up c"
  using assms by (cases "tc_state c") (auto simp: conn_ok_def mask_ok_def up_def Channel_IsNoneEvent_def knone_event_def)

lemma writing_watched: "Channel_IsWriting ch \<Longrightarrow> \<not> Channel_IsNoneEvent ch"
  by (auto simp: Channel_IsWriting_def Channel_IsNoneEvent_def knone_event_def)

lemma HandleClose_ok:
  assumes ok: "conn_ok (calls_bytes calls + m) c" and up: "up c"
  shows "\<exists>c'. TcpConnection_HandleClose True calls c = Inr c' \<and> conn_ok m c' \<and> closes c c'"
proof -
  let ?c1 = "change_channel Channel_DisableAll (TcpConnection_SetState kdisconnected c)"
  have "conn_ok (calls_bytes calls + m) ?c1"
    unfolding TcpConnection_SetState_def by (rule conn_change [OF ok]) (use up in \<open>auto simp: up_def\<close>)
  then have "conn_ok (calls_bytes calls + m) (emit Connection_callback ?c1)" by (simp add: conn_emit)
  from calls_ok [OF this] obtain c2 where
    "conn_calls calls (emit Connection_callback ?c1) = Inr c2" "conn_ok m c2" "mild (emit Connection_callback ?c1) c2"
    by (auto simp: TcpConnection_SetState_def)
  then show ?thesis using up
    by (auto simp: TcpConnection_HandleClose_def AssertInLoopThread_def up_def closes_def Let_def mild_def conn_emit
        callbacks_def TcpConnection_SetState_def is_callback_def)
qed

definition read_bytes :: "int + char list \<Rightarrow> nat" where
  "read_bytes readv = (case readv of Inl err \<Rightarrow> 0 | Inr d \<Rightarrow> length d)"

lemma ReadFd_conn:
  assumes ok: "conn_ok (read_bytes readv + m) c"
  shows "\<exists>n e b. Buffer_ReadFd (socket_Readv readv (readv_capacity (tc_input c))) (tc_input c) = Inr (n, e, b) \<and>
    conn_ok m (c\<lparr>tc_input := b\<rparr>)"
proof (cases readv)
  case (Inl err)
  have "c\<lparr>tc_input := tc_input c\<rparr> = c" by simp
  then show ?thesis using Inl ok by (simp add: Buffer_ReadFd_def Let_def read_bytes_def)
next
  case (Inr d)
  let ?d = "take (readv_capacity (tc_input c)) d"
  have inv: "buf_inv (tc_input c)" and len: "length (buf_buffer (tc_input c)) + extrabuf_size + (length d + m) \<le> max_vector"
    using ok Inr by (simp_all add: conn_ok_def buffers_ok_def read_bytes_def)
  have room: "max kcheap_prepend (length (buf_buffer (tc_input c))) + extrabuf_size \<le> max_vector"
    using len buf_invD(3) [OF inv] by simp
  have cap: "length ?d \<le> readv_capacity (tc_input c)" by simp
  from ReadFd_ok [OF inv cap room] obtain b where
    b: "Buffer_ReadFd (Inr ?d) (tc_input c) = Inr (int (length ?d), None, b)" "buf_inv b" by blast
  have "length (buf_buffer b) \<le> length (buf_buffer (tc_input c)) + length ?d" using ReadFd_length [OF inv cap b(1) room] .
  then have "conn_ok m (c\<lparr>tc_input := b\<rparr>)" using conn_input_buffer [OF ok b(2), of m] len by simp
  then show ?thesis using b Inr by auto
qed

lemma HandleRead_ok:
  assumes ok: "conn_ok (read_bytes readv + calls_bytes on_message + calls_bytes on_connection + m) c" and up: "up c"
  shows "\<exists>c'. TcpConnection_HandleRead True readv on_message on_connection c = Inr c' \<and> conn_ok m c' \<and>
    (mild c c' \<or> reads c c' \<or> closes c c')"
proof -
  let ?k = "calls_bytes on_message + calls_bytes on_connection + m"
  obtain n e b where r: "Buffer_ReadFd (socket_Readv readv (readv_capacity (tc_input c))) (tc_input c) = Inr (n, e, b)"
    and ok1: "conn_ok ?k (c\<lparr>tc_input := b\<rparr>)"
    using ReadFd_conn [of readv ?k c] ok by (auto simp: add.assoc)
  let ?c1 = "c\<lparr>tc_input := b\<rparr>"
  have cb: "callbacks ?c1 = callbacks c" by (simp add: callbacks_def)
  consider "n > 0" | "n = 0" | "n < 0" by linarith
  then show ?thesis
  proof cases
    case 1
    have "conn_ok (calls_bytes on_message + m) (emit Message_callback ?c1)"
      using conn_mono [OF ok1, of "calls_bytes on_message + m"] by (simp add: conn_emit)
    from calls_ok [OF this] up obtain c2 where
      "conn_calls on_message (emit Message_callback ?c1) = Inr c2" "conn_ok m c2" "mild (emit Message_callback ?c1) c2"
      by (auto simp: up_def)
    then show ?thesis using 1 r up cb
      by (auto simp: TcpConnection_HandleRead_def AssertInLoopThread_def Let_def reads_def mild_def)
  next
    case 2
    have "conn_ok (calls_bytes on_connection + m) ?c1" using conn_mono [OF ok1] by simp
    moreover have "up ?c1" using up by (simp add: up_def)
    ultimately show ?thesis using HandleClose_ok [of on_connection m ?c1] 2 r cb
      by (auto simp: TcpConnection_HandleRead_def AssertInLoopThread_def Let_def closes_def up_def)
  next
    case 3
    then show ?thesis using conn_mono [OF ok1, of m] r cb
      by (auto simp: TcpConnection_HandleRead_def AssertInLoopThread_def Let_def TcpConnection_HandleError_def conn_emit mild_def)
  qed
qed

text \<open>A write takes bytes off the front of the output buffer; when none are left the channel stops
  watching for writing, and a connection that is shutting down shuts the socket down.\<close>

lemma conn_take_output:
  assumes ok: "conn_ok m c" and w: "Channel_IsWriting (tc_channel c)" and n: "n \<le> length (readable (tc_output c))"
  shows "\<exists>out. Buffer_Retrieve n (tc_output c) = Inr out \<and> buf_inv out \<and> readable out = drop n (readable (tc_output c)) \<and>
    (let c1 = c\<lparr>tc_output := out, tc_written := tc_written c @ take n (readable (tc_output c))\<rparr>
     in conn_ok m (if readable out = [] then change_channel Channel_DisableWriting c1 else c1))"
proof -
  have inv: "buf_inv (tc_output c)" and room: "buf_room m (tc_output c)" and v: "valid_events (ch_events (tc_channel c))"
    using ok by (simp_all add: conn_ok_def buffers_ok_def mask_ok_def)
  have up: "tc_state c = kconnected \<or> tc_state c = kdisconnecting"
    using up_when_watched [OF ok writing_watched [OF w]] by (simp add: up_def)
  obtain out where out: "Buffer_Retrieve n (tc_output c) = Inr out" "buf_inv out" "readable out = drop n (readable (tc_output c))"
    using bq.get_ok [OF inv n] by blast
  have room': "buf_room m out" using bq.get_room [OF inv room out(1)] .
  let ?c1 = "c\<lparr>tc_output := out, tc_written := tc_written c @ take n (readable (tc_output c))\<rparr>"
  let ?c2 = "if readable out = [] then change_channel Channel_DisableWriting ?c1 else ?c1"
  have tr: "trace_is True (Channel_DisableWriting (tc_channel c))
      (tc_effects c @ [Update_channel (ch_events (Channel_DisableWriting (tc_channel c)))])"
    using ok up v valid_events_ops [OF v]
    by (intro trace_update [where reg = True and ch = "tc_channel c"]) (auto simp: conn_ok_def mask_ok_def)
  have "buffers_ok m ?c2" using ok out room' by (auto simp: conn_ok_def buffers_ok_def)
  moreover have "mask_ok ?c2"
    using ok up w valid_events_ops [OF v] channel_flags [OF v] by (auto simp: conn_ok_def mask_ok_def)
  moreover have "trace_is True (tc_channel ?c2) (tc_effects ?c2)"
    using ok up tr by (auto simp: conn_ok_def)
  moreover have "tc_accepted ?c2 = tc_written ?c2 @ readable (tc_output ?c2)" using ok out(3) by (simp add: conn_ok_def)
  ultimately have "conn_ok m ?c2" using up by (auto simp: conn_ok_def)
  then show ?thesis using out by (simp add: Let_def)
qed

lemma HandleWrite_takes:
  assumes ok: "conn_ok m c" and w: "Channel_IsWriting (tc_channel c)" and x: "x > 0"
  shows "\<exists>c'. TcpConnection_HandleWrite True (Inr x) c = Inr c' \<and> conn_ok m c' \<and> mild c c' \<and>
    tc_state c' = tc_state c \<and> tc_accepted c' = tc_accepted c \<and>
    tc_written c' = tc_written c @ take x (readable (tc_output c)) \<and>
    readable (tc_output c') = drop x (readable (tc_output c)) \<and>
    (\<exists>es. tc_effects c' = tc_effects c @ es \<and>
      (Shutdown_write \<in> set es \<longleftrightarrow> tc_state c = kdisconnecting \<and> length (readable (tc_output c)) \<le> x))"
proof -
  let ?r = "readable (tc_output c)" let ?n = "min x (length ?r)"
  have inv: "buf_inv (tc_output c)" and up: "up c" and v: "valid_events (ch_events (tc_channel c))"
    using ok up_when_watched [OF ok writing_watched [OF w]] by (simp_all add: conn_ok_def buffers_ok_def mask_ok_def)
  have ne: "?r \<noteq> []" using ok up w by (auto simp: conn_ok_def mask_ok_def up_def)
  obtain out where out: "Buffer_Retrieve ?n (tc_output c) = Inr out" "buf_inv out" "readable out = drop ?n ?r"
    and ok1: "let c1 = c\<lparr>tc_output := out, tc_written := tc_written c @ take ?n ?r\<rparr>
     in conn_ok m (if readable out = [] then change_channel Channel_DisableWriting c1 else c1)"
    using conn_take_output [OF ok w, of ?n] by auto
  let ?c1 = "c\<lparr>tc_output := out, tc_written := tc_written c @ take ?n ?r\<rparr>"
  have sent: "take ?n (take (Buffer_ReadableBytes (tc_output c)) (drop (Buffer_Peek (tc_output c)) (buf_buffer (tc_output c)))) = take ?n ?r"
    using take_readable [OF inv order_refl] by (simp add: ReadableBytes_readable [OF inv])
  have eqs: "take ?n ?r = take x ?r" "drop ?n ?r = drop x ?r" by (simp_all add: min_def)
  have rb: "Buffer_ReadableBytes out = 0 \<longleftrightarrow> readable out = []" by (simp add: ReadableBytes_readable [OF out(2)])
  have n0: "?n > 0" using x ne by simp
  have go: "TcpConnection_HandleWrite True (Inr x) c =
    (if readable out = []
     then let c2 = change_channel Channel_DisableWriting ?c1;
              c3 = (if tc_write_complete_callback c2 then emit (Queue_functor F_write_complete) c2 else c2)
          in if tc_state c3 = kdisconnecting then TcpConnection_ShutdownInLoop True c3 else Inr c3
     else Inr ?c1)"
    using w n0 sent out(1) unfolding TcpConnection_HandleWrite_def AssertInLoopThread_def
    by (simp add: ReadableBytes_readable [OF inv] rb Let_def)
  have nw: "\<not> Channel_IsWriting (Channel_DisableWriting (tc_channel c))" using channel_flags(2) [OF v] .
  show ?thesis
  proof (cases "readable out = []")
    case True
    have le: "length ?r \<le> x" using True out(3) eqs by simp
    show ?thesis unfolding go using True ok1 out(3) eqs le nw
      by (auto simp: Let_def TcpConnection_ShutdownInLoop_def AssertInLoopThread_def conn_emit mild_def callbacks_def is_callback_def)
  next
    case False
    have gt: "\<not> length ?r \<le> x" using False out(3) eqs by auto
    show ?thesis unfolding go using False ok1 out(3) eqs gt by (auto simp: Let_def mild_def callbacks_def)
  qed
qed

lemma HandleWrite_ok:
  assumes ok: "conn_ok m c"
  shows "\<exists>c'. TcpConnection_HandleWrite True write c = Inr c' \<and> conn_ok m c' \<and> mild c c'"
proof (cases "Channel_IsWriting (tc_channel c)")
  case w: True
  show ?thesis
  proof (cases "write")
    case (Inr x)
    show ?thesis
    proof (cases "x > 0")
      case True
      then show ?thesis using HandleWrite_takes [OF ok w, of x] Inr by blast
    qed (use Inr ok w in \<open>auto simp: TcpConnection_HandleWrite_def AssertInLoopThread_def conn_emit mild_def\<close>)
  qed (use ok w in \<open>auto simp: TcpConnection_HandleWrite_def AssertInLoopThread_def conn_emit mild_def\<close>)
qed (use ok in \<open>auto simp: TcpConnection_HandleWrite_def AssertInLoopThread_def\<close>)

text \<open>The order of the callbacks of one event.\<close>

lemma HandleEvent_shape:
  assumes "ch_read_callback ch" "ch_write_callback ch" "ch_close_callback ch" "ch_error_callback ch"
  shows "\<exists>pre rd wr. Channel_HandleEvent True now ch = Inr (pre @ rd @ wr) \<and>
    (\<forall>a\<in>set pre. \<forall>t. a \<noteq> Read_callback t \<and> a \<noteq> Write_callback) \<and>
    (rd = [] \<or> rd = [Read_callback now]) \<and> (wr = [] \<or> wr = [Write_callback])"
proof -
  let ?rv = "ch_revents ch"
  let ?hup = "if ?rv AND POLLHUP \<noteq> 0 \<and> ?rv AND POLLIN = 0
    then (if ch_log_hup ch then [Log_warn_hup (ch_fd ch)] else []) @ [Error_callback] else []"
  let ?pre = "Log_trace (Channel_ReventsToString ch) # ?hup @ (if ?rv AND POLLNVAL \<noteq> 0 then [Log_warn_nval (ch_fd ch)] else [])
    @ (if ?rv AND (POLLERR OR POLLNVAL) \<noteq> 0 then [Error_callback] else [])"
  let ?rd = "if ?rv AND (POLLIN OR POLLPRI OR POLLRDHUP) \<noteq> 0 then [Read_callback now] else []"
  let ?wr = "if ?rv AND POLLOUT \<noteq> 0 then [Write_callback] else []"
  have "Channel_HandleEvent True now ch = Inr (?pre @ ?rd @ ?wr)"
    using assms by (simp add: Channel_HandleEvent_def Channel_HandleEventWithGuard_def Let_def)
  then show ?thesis by (intro exI [of _ ?pre] exI [of _ ?rd] exI [of _ ?wr]) auto
qed

lemma conn_actions_append:
  "conn_actions r w om oc (xs @ ys) c = bindr (conn_actions r w om oc xs c) (conn_actions r w om oc ys)"
  by (induction xs arbitrary: c) (simp_all add: bindr_def split: sum.split)

lemma conn_actions_quiet:
  assumes "conn_ok m c" and "\<forall>a\<in>set as. \<forall>t. a \<noteq> Read_callback t \<and> a \<noteq> Write_callback"
  shows "\<exists>c'. conn_actions r w om oc as c = Inr c' \<and> conn_ok m c' \<and> mild c c'"
  using assms
proof (induction as arbitrary: c)
  case (Cons a as)
  show ?case
  proof (cases "a = Error_callback")
    case True
    have "conn_ok m (emit Log_error c)" using Cons.prems by (simp add: conn_emit)
    from Cons.IH [OF this] Cons.prems show ?thesis using True
      by (auto simp: TcpConnection_HandleError_def mild_def)
  next
    case False
    then show ?thesis using Cons by (cases a) auto
  qed
qed simp

lemma HandleEvent_ok:
  assumes ok: "conn_ok (read_bytes readv + calls_bytes on_message + calls_bytes on_connection + m) c" and up: "up c"
  shows "\<exists>c'. TcpConnection_HandleEvent revents now readv write on_message on_connection c = Inr c' \<and> conn_ok m c' \<and>
    (mild c c' \<or> reads c c' \<or> closes c c')"
proof -
  let ?k = "read_bytes readv + calls_bytes on_message + calls_bytes on_connection + m"
  let ?acts = "conn_actions readv write on_message on_connection"
  define c1 where "c1 = c\<lparr>tc_channel := Channel_SetRevents revents (tc_channel c)\<rparr>"
  have c1: "conn_ok ?k c1" unfolding c1_def
    by (rule conn_update_channel [OF ok, where r = revents and t = "ch_tied (tc_channel c)"]) (simp add: Channel_SetRevents_def)
  have same: "mild c c1" "up c1" using up by (simp_all add: c1_def mild_def callbacks_def up_def)
  have "ch_read_callback (tc_channel c1)" "ch_write_callback (tc_channel c1)" "ch_close_callback (tc_channel c1)"
    "ch_error_callback (tc_channel c1)" using c1 by (simp_all add: conn_ok_def mask_ok_def)
  from HandleEvent_shape [OF this, of now] obtain pre rd wr where
    ev: "Channel_HandleEvent True now (tc_channel c1) = Inr (pre @ rd @ wr)"
    and pre: "\<forall>a\<in>set pre. \<forall>t. a \<noteq> Read_callback t \<and> a \<noteq> Write_callback"
    and rd: "rd = [] \<or> rd = [Read_callback now]" and wr: "wr = [] \<or> wr = [Write_callback]" by blast
  obtain c2 where c2: "?acts pre c1 = Inr c2" "conn_ok ?k c2" "mild c1 c2" using conn_actions_quiet [OF c1 pre] by blast
  have up2: "up c2" using c2(3) same(2) by (auto simp: mild_def up_def)
  obtain c3 where c3: "?acts rd c2 = Inr c3" "conn_ok m c3" "mild c2 c3 \<or> reads c2 c3 \<or> closes c2 c3"
    using rd HandleRead_ok [OF c2(2) up2] conn_mono [OF c2(2), of m] by auto
  obtain c4 where c4: "?acts wr c3 = Inr c4" "conn_ok m c4" "mild c3 c4"
    using wr HandleWrite_ok [OF c3(2), of "write"] c3(2) by auto
  have "mild c c4 \<or> reads c c4 \<or> closes c c4"
    using same(1) c2(3) c3(3) c4(3) up by (auto simp: mild_def reads_def closes_def up_def)
  then show ?thesis using ev c2(1) c3(1) c4(1,2)
    by (auto simp: TcpConnection_HandleEvent_def c1_def [symmetric] Let_def conn_actions_append)
qed

lemma ConnectionEstablished_ok:
  assumes ok: "conn_ok (calls_bytes calls + m) c" and st: "tc_state c = kconnecting"
  shows "\<exists>c'. TcpConnection_ConnectionEstablished True calls c = Inr c' \<and> conn_ok m c' \<and> up c' \<and>
    callbacks c' = callbacks c @ [Connection_callback]"
proof -
  let ?k = "calls_bytes calls + m"
  let ?c1 = "c\<lparr>tc_channel := Channel_Tie (tc_channel c)\<rparr>"
  let ?c2 = "change_channel Channel_EnableReading (?c1\<lparr>tc_state := kconnected\<rparr>)"
  have ok1: "conn_ok ?k ?c1"
    by (rule conn_update_channel [OF ok, where r = "ch_revents (tc_channel c)" and t = True]) (simp add: Channel_Tie_def)
  have v: "valid_events (ch_events (tc_channel ?c1))" using conn_bufs(4) [OF ok1] .
  have "conn_ok ?k ?c2"
  proof (rule conn_change [OF ok1])
    show "Channel_IsWriting (Channel_EnableReading (tc_channel ?c1)) \<longleftrightarrow> readable (tc_output ?c1) \<noteq> []"
      unfolding channel_flags(5) [OF v] using ok1 st by (simp add: conn_ok_def mask_ok_def Channel_IsWriting_def)
  qed auto
  then have "conn_ok ?k (emit Connection_callback ?c2)" by (simp add: conn_emit)
  from calls_ok [OF this] obtain c3 where
    "conn_calls calls (emit Connection_callback ?c2) = Inr c3" "conn_ok m c3" "mild (emit Connection_callback ?c2) c3" by auto
  moreover have "TcpConnection_ConnectionEstablished True calls c = conn_calls calls (emit Connection_callback ?c2)"
    using st by (cases c) (simp add: TcpConnection_ConnectionEstablished_def AssertInLoopThread_def TcpConnection_SetState_def Let_def)
  ultimately show ?thesis by (auto simp: mild_def up_def callbacks_def)
qed

fun functor_bytes :: "loop_functor \<Rightarrow> nat" where
  "functor_bytes (F_send data) = length data"
| "functor_bytes _ = 0"

fun input_bytes :: "conn_input \<Rightarrow> nat" where
  "input_bytes (In_established calls) = calls_bytes calls"
| "input_bytes (In_event revents now readv write on_message on_connection) =
     read_bytes readv + calls_bytes on_message + calls_bytes on_connection"
| "input_bytes (In_call in_loop a) = call_bytes a"
| "input_bytes (In_functor f write calls) = functor_bytes f + calls_bytes calls"

lemma functor_ok:
  assumes ok: "conn_ok (functor_bytes f + calls_bytes calls + m) c" and nc: "tc_state c \<noteq> kconnecting"
    and sr: "f = F_start_read \<longrightarrow> tc_state c \<noteq> kdisconnected"
  shows "\<exists>c'. functor_exec f write calls c = Inr c' \<and> conn_ok m c' \<and> (mild c c' \<or> closes c c')"
proof -
  have m: "conn_ok m c" using conn_mono [OF ok] by simp
  have k: "conn_ok (calls_bytes calls + m) c" using conn_mono [OF ok] by simp
  show ?thesis
  proof (cases f)
    case (F_send d)
    have "conn_ok (length d + m) c" using conn_mono [OF ok] F_send by simp
    then show ?thesis using SendInLoop_ok [of d m c "write"] nc F_send by auto
  next
    case F_shutdown
    then show ?thesis using m by (auto simp: TcpConnection_ShutdownInLoop_def AssertInLoopThread_def conn_emit mild_def)
  next
    case F_force_close
    then show ?thesis using HandleClose_ok [OF k] m
      by (auto simp: TcpConnection_ForceCloseInLoop_def AssertInLoopThread_def up_def)
  qed (use Start_StopRead_ok [OF m nc] sr calls_ok [OF k nc] in auto)
qed

text \<open>Every input that can come is handled without a fault, and keeps the invariant.\<close>

lemma conn_exec_ok:
  assumes ok: "conn_ok (input_bytes i + m) c" and g: "conn_guard i c"
  shows "\<exists>c'. conn_exec i c = Inr c' \<and> conn_ok m c' \<and>
    (mild c c' \<or> reads c c' \<or> closes c c' \<or>
     tc_state c = kconnecting \<and> up c' \<and> callbacks c' = callbacks c @ [Connection_callback])"
proof (cases i)
  case (In_established calls)
  then show ?thesis using ConnectionEstablished_ok [of calls m c] ok g by auto
next
  case (In_event revents now readv w om oc)
  have "up c" using up_when_watched [OF ok] g In_event by simp
  with In_event ok show ?thesis using HandleEvent_ok [of readv om oc m c revents now w] by auto
next
  case (In_call in_loop a)
  then show ?thesis using call_ok [of a m c in_loop] ok g by auto
next
  case (In_functor f w calls)
  then show ?thesis using functor_ok [of f calls m c w] ok g by auto
qed

section \<open>Reachable connections\<close>

text \<open>
  The bytes a connection may see in its whole life before a vector could outgrow the address space:
  far beyond any run, and the only bound the lemmas need.
\<close>

definition conn_capacity :: nat where
  "conn_capacity = max_vector - extrabuf_size - kinitial_size - kcheap_prepend"

definition inputs_bytes :: "conn_input list \<Rightarrow> nat" where
  "inputs_bytes is = sum_list (map input_bytes is)"

text \<open>The order of the callbacks the user sees.\<close>

fun protocol :: "conn_state \<Rightarrow> conn_effect list \<Rightarrow> bool" where
  "protocol kconnecting cbs \<longleftrightarrow> cbs = []"
| "protocol kdisconnected cbs \<longleftrightarrow>
     (\<exists>k. cbs = Connection_callback # replicate k Message_callback @ [Connection_callback, Close_callback])"
| "protocol _ cbs \<longleftrightarrow> (\<exists>k. cbs = Connection_callback # replicate k Message_callback)"

lemma protocol_up: "up c \<Longrightarrow> protocol (tc_state c) cbs \<longleftrightarrow> (\<exists>k. cbs = Connection_callback # replicate k Message_callback)"
  by (auto simp: up_def)

fun state_rank :: "conn_state \<Rightarrow> nat" where
  "state_rank kconnecting = 0"
| "state_rank kconnected = 1"
| "state_rank kdisconnecting = 2"
| "state_rank kdisconnected = 3"

lemma TcpConnection_new_ok:
  assumes "0 \<le> fd"
  shows "\<exists>c. TcpConnection_new fd = Inr c \<and> conn_ok conn_capacity c \<and> protocol (tc_state c) (callbacks c)"
proof -
  obtain b where b: "Buffer_new kinitial_size = Inr b" "buf_inv b" "readable b = []" "buf_writer_index b = kcheap_prepend"
    "length (buf_buffer b) = kcheap_prepend + kinitial_size"
    using Buffer_new_ok [of kinitial_size] by (auto simp: kinitial_size_def kcheap_prepend_def max_vector_def)
  then show ?thesis using assms
    by (simp add: TcpConnection_new_def conn_ok_def buffers_ok_def mask_ok_def buf_room_def conn_capacity_def kinitial_size_def
        kcheap_prepend_def extrabuf_size_def max_vector_def trace_is_def chan_ops_def callbacks_def valid_events_def
        Channel_new_def Channel_SetReadCallback_def Channel_SetWriteCallback_def Channel_SetCloseCallback_def
        Channel_SetErrorCallback_def Channel_IsWriting_def)
qed

lemma step_keeps:
  assumes "conn_ok (input_bytes i + m) c" and "protocol (tc_state c) (callbacks c)" and "conn_step c i c'"
  shows "conn_ok m c'" and "protocol (tc_state c') (callbacks c')" and "state_rank (tc_state c) \<le> state_rank (tc_state c')"
proof -
  from assms(3) have g: "conn_guard i c" "conn_exec i c = Inr c'" by simp_all
  have k: "conn_ok m c'" "mild c c' \<or> reads c c' \<or> closes c c' \<or>
     tc_state c = kconnecting \<and> up c' \<and> callbacks c' = callbacks c @ [Connection_callback]"
    using conn_exec_ok [OF assms(1) g(1)] g(2) by auto
  show "conn_ok m c'" by (rule k(1))
  show "state_rank (tc_state c) \<le> state_rank (tc_state c')" using k(2) by (auto simp: mild_def reads_def closes_def up_def)
  from k(2) consider "mild c c'" | "reads c c'" | "closes c c'"
    | "tc_state c = kconnecting" "up c'" "callbacks c' = callbacks c @ [Connection_callback]" by auto
  then show "protocol (tc_state c') (callbacks c')"
  proof cases
    case 1
    then show ?thesis using assms(2) by (auto simp: mild_def)
  next
    case 2
    then have "up c" "up c'" by (auto simp: reads_def up_def)
    then obtain k where "callbacks c = Connection_callback # replicate k Message_callback" using assms(2) protocol_up by blast
    then have "callbacks c' = Connection_callback # replicate (Suc k) Message_callback"
      using 2 by (simp add: reads_def replicate_append_same)
    then show ?thesis using protocol_up [OF \<open>up c'\<close>] by blast
  next
    case 3
    then have "up c" by (simp add: closes_def)
    then show ?thesis using 3 assms(2) unfolding protocol_up [OF \<open>up c\<close>] by (auto simp: closes_def)
  next
    case 4
    then show ?thesis using assms(2) unfolding protocol_up [OF \<open>up c'\<close>] by (auto intro: exI [of _ 0])
  qed
qed

lemma reach_keeps:
  assumes "conn_reach c0 is c" and "TcpConnection_new fd = Inr c0" and "0 \<le> fd" and "inputs_bytes is + m \<le> conn_capacity"
  shows "conn_ok m c \<and> protocol (tc_state c) (callbacks c)"
  using assms
proof (induction arbitrary: m rule: conn_reach.induct)
  case start
  then show ?case using TcpConnection_new_ok [of fd] conn_mono by auto
next
  case (next_step "is" c i c')
  then have "conn_ok (input_bytes i + m) c \<and> protocol (tc_state c) (callbacks c)"
    using next_step.IH [of "input_bytes i + m"] by (simp add: inputs_bytes_def)
  with step_keeps [of i m c c'] next_step.hyps show ?case by blast
qed


text \<open>C2. Stream integrity and the write watch, in every reachable connection: the messages taken on are, in
  order and without loss or duplication, the bytes the socket accepted followed by the bytes of the output
  buffer; while the connection is up its channel watches for writing exactly when that buffer is not
  empty (no lost wake-up, no busy loop), and once it is down the channel watches for nothing.\<close>

theorem connection_stream:
  assumes "TcpConnection_new fd = Inr c0" and "0 \<le> fd" and "conn_reach c0 is c" and "inputs_bytes is \<le> conn_capacity"
  shows "tc_accepted c = tc_written c @ readable (tc_output c) \<and>
    (tc_state c = kconnected \<or> tc_state c = kdisconnecting \<longrightarrow>
      (Channel_IsWriting (tc_channel c) \<longleftrightarrow> readable (tc_output c) \<noteq> [])) \<and>
    (tc_state c = kdisconnected \<longrightarrow> Channel_IsNoneEvent (tc_channel c))"
  using reach_keeps [OF assms(3,1,2), of 0] assms(4)
  by (auto simp: conn_ok_def mask_ok_def Channel_IsNoneEvent_def knone_event_def)


text \<open>A connection on which the user sends \<open>hello\<close> from its connection callback, and the socket takes
  two bytes of it.\<close>

definition sample_inputs :: "conn_input list" where
  "sample_inputs = [In_established [Call_send (Inr 2) ''hello'']]"

definition sample_connection :: tcp_connection where
  "sample_connection = (case bindr (TcpConnection_new 5) (conn_exec (hd sample_inputs)) of Inr c \<Rightarrow> c)"

lemma sample_facts:
  "tc_state sample_connection = kconnected" "tc_written sample_connection = ''he''"
  "readable (tc_output sample_connection) = ''llo''" "ch_events (tc_channel sample_connection) = 7"
  by (simp_all add: sample_connection_def sample_inputs_def TcpConnection_new_def Buffer_new_def vresize_def kcheap_prepend_def
      kinitial_size_def max_vector_def szadd_def szsub_def size_limit_def Buffer_ReadableBytes_def Buffer_WritableBytes_def
      Buffer_PrependableBytes_def TcpConnection_ConnectionEstablished_def AssertInLoopThread_def TcpConnection_SetState_def
      Channel_new_def Channel_SetReadCallback_def Channel_SetWriteCallback_def Channel_SetCloseCallback_def
      Channel_SetErrorCallback_def Channel_Tie_def change_channel_def emit_def Channel_EnableReading_def Channel_EnableWriting_def
      Channel_set_events_def Channel_IsWriting_def event_masks TcpConnection_Send_def TcpConnection_SendInLoop_def send_direct_def
      Buffer_Append_def Buffer_EnsureWritableBytes_def Buffer_hasWritten_def Buffer_BeginWrite_def readable_def slice_def
      overwrite_def Let_def)

lemma sample_reach:
  "\<exists>c0. TcpConnection_new 5 = Inr c0 \<and> conn_reach c0 sample_inputs sample_connection"
  "inputs_bytes sample_inputs = 5"
proof -
  show bytes: "inputs_bytes sample_inputs = 5" by (simp add: inputs_bytes_def sample_inputs_def)
  obtain c0 where c0: "TcpConnection_new 5 = Inr c0" "conn_ok conn_capacity c0" "protocol (tc_state c0) (callbacks c0)"
    using TcpConnection_new_ok [of 5] by auto
  have st: "tc_state c0 = kconnecting" using c0(1)
    by (cases "Buffer_new kinitial_size") (auto simp: TcpConnection_new_def)
  let ?i = "hd sample_inputs"
  have "conn_ok (input_bytes ?i + 0) c0" by (rule conn_mono [OF c0(2)])
    (simp add: sample_inputs_def conn_capacity_def max_vector_def extrabuf_size_def kinitial_size_def kcheap_prepend_def)
  moreover have g: "conn_guard ?i c0" using st by (simp add: sample_inputs_def)
  ultimately obtain c where "conn_exec ?i c0 = Inr c" using conn_exec_ok by blast
  then have "conn_exec ?i c0 = Inr sample_connection" by (simp add: sample_connection_def c0(1))
  then have "conn_reach c0 ([] @ [?i]) sample_connection" using g by (intro conn_reach.next_step [OF conn_reach.start]) simp
  then show "\<exists>c0. TcpConnection_new 5 = Inr c0 \<and> conn_reach c0 sample_inputs sample_connection"
    using c0(1) by (auto simp: sample_inputs_def)
qed

lemma conn_capacity_big: "1000000 \<le> conn_capacity"
  by (simp add: conn_capacity_def max_vector_def extrabuf_size_def kinitial_size_def kcheap_prepend_def)


theorem connection_stream_witness:
  "tc_accepted sample_connection = ''hello'' \<and> Channel_IsWriting (tc_channel sample_connection)"
proof -
  obtain c0 where "TcpConnection_new 5 = Inr c0" "conn_reach c0 sample_inputs sample_connection" using sample_reach(1) by blast
  from connection_stream [OF this(1) _ this(2)] show ?thesis
    using conn_capacity_big by (auto simp: sample_facts sample_reach(2))
qed


section \<open>Closing\<close>

text \<open>The write events of the poller, with the number of bytes the socket takes at each.\<close>

fun write_events :: "nat list \<Rightarrow> tcp_connection \<Rightarrow> tcp_connection result" where
  "write_events [] c = Inr c"
| "write_events (x # xs) c = bindr (TcpConnection_HandleWrite True (Inr x) c) (write_events xs)"

lemma write_events_idle: "\<not> Channel_IsWriting (tc_channel c) \<Longrightarrow> write_events xs c = Inr c"
  by (induction xs) (simp_all add: TcpConnection_HandleWrite_def AssertInLoopThread_def)

lemma write_events_drain:
  assumes "conn_ok m c" and "tc_state c = kdisconnecting" and "Channel_IsWriting (tc_channel c)" and "\<forall>x\<in>set xs. 0 < x"
  shows "\<exists>c' es. write_events xs c = Inr c' \<and> tc_effects c' = tc_effects c @ es \<and>
    tc_written c' = tc_written c @ take (sum_list xs) (readable (tc_output c)) \<and>
    (Shutdown_write \<in> set es \<longleftrightarrow> length (readable (tc_output c)) \<le> sum_list xs)"
  using assms
proof (induction xs arbitrary: c)
  case Nil
  then have "readable (tc_output c) \<noteq> []" by (simp add: conn_ok_def mask_ok_def)
  then show ?case by simp
next
  case (Cons x xs)
  let ?r = "readable (tc_output c)"
  from HandleWrite_takes [OF Cons.prems(1,3), of x] Cons.prems(2,4) obtain c1 es1 where
    c1: "TcpConnection_HandleWrite True (Inr x) c = Inr c1" "conn_ok m c1" "tc_state c1 = kdisconnecting"
      "tc_written c1 = tc_written c @ take x ?r" "readable (tc_output c1) = drop x ?r"
      "tc_effects c1 = tc_effects c @ es1" "Shutdown_write \<in> set es1 \<longleftrightarrow> length ?r \<le> x"
    by auto
  have w: "Channel_IsWriting (tc_channel c1) \<longleftrightarrow> drop x ?r \<noteq> []" using c1(2,3,5) by (simp add: conn_ok_def mask_ok_def)
  show ?case
  proof (cases "length ?r \<le> x")
    case True
    then show ?thesis using c1 w write_events_idle [of c1 xs] by auto
  next
    case False
    then have "Channel_IsWriting (tc_channel c1)" using w by simp
    from Cons.IH [OF c1(2,3) this] Cons.prems(4) obtain c' es where
      "write_events xs c1 = Inr c'" "tc_effects c' = tc_effects c1 @ es"
      "tc_written c' = tc_written c1 @ take (sum_list xs) (drop x ?r)"
      "Shutdown_write \<in> set es \<longleftrightarrow> length (drop x ?r) \<le> sum_list xs" using c1(5) by auto
    then show ?thesis using c1 False by (auto simp: take_add)
  qed
qed

lemma Shutdown_effect:
  assumes "conn_ok m c" and "tc_state c = kconnected"
  shows "\<exists>c1. TcpConnection_Shutdown True c = Inr c1 \<and> conn_ok m c1 \<and> tc_state c1 = kdisconnecting \<and>
    tc_output c1 = tc_output c \<and> tc_written c1 = tc_written c \<and> tc_channel c1 = tc_channel c \<and>
    tc_effects c1 = tc_effects c @ (if readable (tc_output c) = [] then [Shutdown_write] else [])"
proof -
  have "Channel_IsWriting (tc_channel c) \<longleftrightarrow> readable (tc_output c) \<noteq> []"
    using assms by (simp add: conn_ok_def mask_ok_def)
  then show ?thesis using assms conn_state_down [OF assms(1)]
    by (simp add: TcpConnection_Shutdown_def TcpConnection_ShutdownInLoop_def TcpConnection_SetState_def AssertInLoopThread_def
        Let_def conn_emit)
qed

text \<open>C3. Graceful shutdown: after \<open>Shutdown\<close> the writing side of the socket is shut down exactly when all pending
  output has been written, not earlier; and the write events deliver it, in order, whatever number of bytes
  the socket takes at each.\<close>

theorem shutdown_flushes:
  assumes "TcpConnection_new fd = Inr c0" and "0 \<le> fd" and "conn_reach c0 is c" and "inputs_bytes is \<le> conn_capacity"
    and "tc_state c = kconnected" and "\<forall>x\<in>set xs. 0 < x"
  shows "\<exists>c' es. bindr (TcpConnection_Shutdown True c) (write_events xs) = Inr c' \<and> tc_effects c' = tc_effects c @ es \<and>
    tc_written c' = tc_written c @ take (sum_list xs) (readable (tc_output c)) \<and>
    (Shutdown_write \<in> set es \<longleftrightarrow> length (readable (tc_output c)) \<le> sum_list xs)"
proof -
  have ok: "conn_ok 0 c" using reach_keeps [OF assms(3,1,2), of 0] assms(4) by simp
  obtain c1 where c1: "TcpConnection_Shutdown True c = Inr c1" "conn_ok 0 c1" "tc_state c1 = kdisconnecting"
    "tc_output c1 = tc_output c" "tc_written c1 = tc_written c" "tc_channel c1 = tc_channel c"
    "tc_effects c1 = tc_effects c @ (if readable (tc_output c) = [] then [Shutdown_write] else [])"
    using Shutdown_effect [OF ok assms(5)] by blast
  have w: "Channel_IsWriting (tc_channel c1) \<longleftrightarrow> readable (tc_output c) \<noteq> []" using c1(2,3,4) by (simp add: conn_ok_def mask_ok_def)
  show ?thesis
  proof (cases "readable (tc_output c) = []")
    case True
    then show ?thesis using c1 w write_events_idle [of c1 xs] by auto
  next
    case False
    then show ?thesis using write_events_drain [OF c1(2,3) _ assms(6)] w c1 by auto
  qed
qed

theorem shutdown_flushes_witness:
  "\<exists>c'. bindr (TcpConnection_Shutdown True sample_connection) (write_events [1, 4]) = Inr c' \<and>
    tc_written c' = ''hello'' \<and> Shutdown_write \<in> set (tc_effects c')"
proof -
  obtain c0 where "TcpConnection_new 5 = Inr c0" "conn_reach c0 sample_inputs sample_connection" using sample_reach(1) by blast
  from shutdown_flushes [OF this(1) _ this(2), of "[1, 4]"] show ?thesis
    using conn_capacity_big by (auto simp: sample_facts sample_reach(2))
qed

text \<open>The end of a connection: its channel leaves the poller.\<close>

lemma trace_remove:
  assumes "trace_is True ch es" and "ch_events ch = 0"
  shows "\<exists>used. spec_run (\<lambda>_. ch_fd ch) (chan_ops (es @ [Remove_channel])) ([], []) = Some ([], used)"
proof -
  from assms(1) obtain used where "spec_run (\<lambda>_. ch_fd ch) (chan_ops es) ([], []) = Some ([(0, ch_events ch)], used)"
    by (auto simp: trace_is_def split: option.splits)
  moreover have "chan_ops [Remove_channel] = [Remove_chan 0]" by (simp add: chan_ops_def)
  ultimately show ?thesis using assms(2) by (simp add: spec_run_append smap_get_def smap_erase_def)
qed

lemma SendInLoop_fd: "TcpConnection_SendInLoop True w d c = Inr c' \<Longrightarrow> ch_fd (tc_channel c') = ch_fd (tc_channel c)"
  by (auto simp: TcpConnection_SendInLoop_def AssertInLoopThread_def send_direct_def c_assert_def Let_def bindr_eq_Inr
      split: if_splits sum.splits)

lemma conn_call_fd: "conn_call_exec True a c = Inr c' \<Longrightarrow> ch_fd (tc_channel c') = ch_fd (tc_channel c)"
  by (cases a) (auto simp: TcpConnection_Send_def TcpConnection_Shutdown_def TcpConnection_ShutdownInLoop_def Let_def
      TcpConnection_SetState_def AssertInLoopThread_def TcpConnection_ForceClose_def TcpConnection_ForceCloseWithDelay_def
      TcpConnection_StartRead_def TcpConnection_StopRead_def TcpConnection_StartReadInLoop_def
      TcpConnection_StopReadInLoop_def bindr_eq_Inr dest: SendInLoop_fd split: if_splits)

lemma conn_calls_fd: "conn_calls as c = Inr c' \<Longrightarrow> ch_fd (tc_channel c') = ch_fd (tc_channel c)"
  by (induction as arbitrary: c) (auto simp: bindr_eq_Inr dest: conn_call_fd)

lemma ConnectionDestroyed_ok:
  assumes ok: "conn_ok (calls_bytes calls + m) c" and st: "tc_state c = kconnected \<or> tc_state c = kdisconnected"
  shows "\<exists>c' used. TcpConnection_ConnectionDestroyed True calls c = Inr c' \<and> TcpConnection_destroy c' = Inr () \<and>
    ch_fd (tc_channel c') = ch_fd (tc_channel c) \<and>
    spec_run (\<lambda>_. ch_fd (tc_channel c)) (chan_ops (tc_effects c')) ([], []) = Some ([], used)"
proof -
  let ?go = "if tc_state c = kconnected
     then conn_calls calls (emit Connection_callback (change_channel Channel_DisableAll (TcpConnection_SetState kdisconnected c)))
     else Inr c"
  have "\<exists>c1. ?go = Inr c1 \<and> conn_ok m c1 \<and> tc_state c1 = kdisconnected \<and> ch_fd (tc_channel c1) = ch_fd (tc_channel c)"
  proof (cases "tc_state c = kconnected")
    case True
    have "conn_ok (calls_bytes calls + m) (change_channel Channel_DisableAll (TcpConnection_SetState kdisconnected c))"
      unfolding TcpConnection_SetState_def by (rule conn_change [OF ok]) (use True in auto)
    then have e: "conn_ok (calls_bytes calls + m) (emit Connection_callback
        (change_channel Channel_DisableAll (TcpConnection_SetState kdisconnected c)))" by (simp add: conn_emit)
    from calls_ok [OF this] obtain c1 where c1: "conn_calls calls (emit Connection_callback
        (change_channel Channel_DisableAll (TcpConnection_SetState kdisconnected c))) = Inr c1" "conn_ok m c1" "tc_state c1 = kdisconnected"
      by (auto simp: mild_def TcpConnection_SetState_def)
    from conn_calls_fd [OF c1(1)] c1 True show ?thesis by (simp add: TcpConnection_SetState_def)
  qed (use st conn_mono [OF ok] in auto)
  then obtain c1 where c1: "?go = Inr c1" "conn_ok m c1" "tc_state c1 = kdisconnected" "ch_fd (tc_channel c1) = ch_fd (tc_channel c)"
    by blast
  then have ev: "ch_events (tc_channel c1) = 0" and tr: "trace_is True (tc_channel c1) (tc_effects c1)"
    by (simp_all add: conn_ok_def mask_ok_def)
  from trace_remove [OF tr ev] c1 ev show ?thesis
    by (simp add: TcpConnection_ConnectionDestroyed_def AssertInLoopThread_def TcpConnection_destroy_def
        Channel_IsNoneEvent_def knone_event_def)
qed

text \<open>Destroying a connection that is up or down leaves nothing behind: \<open>ConnectionDestroyed\<close> and the
  destructor pass their asserts, and all the calls the connection made on its poller in its whole life,
  replayed on an epoll poller, pass the poller's asserts and leave no descriptor in the interest list.\<close>

theorem destroyed_leaves_poller:
  assumes "TcpConnection_new fd = Inr c0" and "0 \<le> fd" and "conn_reach c0 is c"
    and "inputs_bytes is + calls_bytes calls \<le> conn_capacity" and "tc_state c = kconnected \<or> tc_state c = kdisconnected"
  shows "\<exists>c' st' p'. TcpConnection_ConnectionDestroyed True calls c = Inr c' \<and> TcpConnection_destroy c' = Inr () \<and>
    chan_run (EpollPoller_UpdateChannel True 0) (EpollPoller_RemoveChannel True 0) (chan_ops (tc_effects c'))
      (\<lambda>_. Channel_new (ch_fd (tc_channel c)), empty_epoll) = Inr (st', p') \<and> (\<forall>f. epoll_watched p' f = None)"
proof -
  have "conn_ok (calls_bytes calls + 0) c" using reach_keeps [OF assms(3,1,2)] assms(4) by simp
  from ConnectionDestroyed_ok [OF this assms(5)] obtain c' used where
    c': "TcpConnection_ConnectionDestroyed True calls c = Inr c'" "TcpConnection_destroy c' = Inr ()"
    and run: "spec_run (\<lambda>_. ch_fd (tc_channel c)) (chan_ops (tc_effects c')) ([], []) = Some ([], used)" by blast
  have "fresh_store (\<lambda>_. ch_fd (tc_channel c)) (\<lambda>_. Channel_new (ch_fd (tc_channel c)))"
    by (simp add: fresh_store_def Channel_new_def)
  from ep.run_refines [OF represents_empty(1) [OF this] run] obtain st' p' where
    r: "chan_run (EpollPoller_UpdateChannel True 0) (EpollPoller_RemoveChannel True 0) (chan_ops (tc_effects c'))
      (\<lambda>_. Channel_new (ch_fd (tc_channel c)), empty_epoll) = Inr (st', p')"
      "ep.represents (\<lambda>_. ch_fd (tc_channel c)) ([], used) (st', p')" by auto
  have "epoll_watched p' f = None" for f
    using ep.represents_watched [OF r(2), of f] by (cases "epoll_watched p' f") (auto simp: smap_get_def)
  then show ?thesis using c' r(1) by blast
qed

theorem destroyed_leaves_poller_witness:
  "\<exists>c'. TcpConnection_ConnectionDestroyed True [] sample_connection = Inr c' \<and> TcpConnection_destroy c' = Inr ()"
proof -
  obtain c0 where "TcpConnection_new 5 = Inr c0" "conn_reach c0 sample_inputs sample_connection" using sample_reach(1) by blast
  from destroyed_leaves_poller [OF this(1) _ this(2), of "[]"] show ?thesis
    using conn_capacity_big by (auto simp: sample_facts sample_reach(2))
qed

text \<open>C19. Destroying a connection that is shutting down and still watches for something fails: its state is
  neither \<open>kconnected\<close> nor is its mask empty, so \<open>channel_->Remove()\<close> trips its assert. A server that is
  destroyed while a connection has its writing side shut down and waits for the peer does this. And
  \<open>StartRead\<close> reaching a connection that is down watches it again, with the same end.\<close>

theorem destroy_while_closing_fails:
  assumes "tc_state c = kdisconnecting" and "\<not> Channel_IsNoneEvent (tc_channel c)"
    and "tc_state d = kdisconnected" and "Channel_IsNoneEvent (tc_channel d)"
  shows "TcpConnection_ConnectionDestroyed True calls c = Inl Assert_failed \<and>
    bindr (TcpConnection_StartReadInLoop True d) (TcpConnection_ConnectionDestroyed True calls) = Inl Assert_failed"
proof -
  have "\<not> Channel_IsReading (tc_channel d)" and "ch_events (Channel_EnableReading (tc_channel d)) \<noteq> 0"
    using assms(4) by (simp_all add: Channel_IsNoneEvent_def Channel_IsReading_def Channel_EnableReading_def
        Channel_set_events_def event_masks)
  then show ?thesis using assms
    by (simp add: TcpConnection_ConnectionDestroyed_def TcpConnection_StartReadInLoop_def AssertInLoopThread_def
        Channel_IsNoneEvent_def knone_event_def)
qed

theorem destroy_while_closing_fails_witness:
  "TcpConnection_ConnectionDestroyed True [] (sample_connection\<lparr>tc_state := kdisconnecting\<rparr>) = Inl Assert_failed"
  using destroy_while_closing_fails [of "sample_connection\<lparr>tc_state := kdisconnecting\<rparr>"
      "change_channel Channel_DisableAll (sample_connection\<lparr>tc_state := kdisconnected\<rparr>)" "[]"]
  by (simp add: sample_facts Channel_IsNoneEvent_def knone_event_def)

end
