(* ===== verification/HttpServer.thy ===== *)
theory HttpServer
  imports Http TcpConnection
begin

text \<open>
  \<open>dwater/net/http/http_server.h\<close> and \<open>http_server.cc\<close>: what the server's callbacks do with a connection, its input
  buffer and the parser that is the connection's context. The callback of the user computes the response from the
  request and the response it is given; the outcome of \<open>write\<close> is an argument. \<open>None\<close> is a parser that does not return.
\<close>

section \<open>The server's callbacks\<close>

definition DefaultHttpCallback :: "http_request \<Rightarrow> http_response \<Rightarrow> http_response" where
  "DefaultHttpCallback req resp =
     HttpResponse_SetCloseConnection True (HttpResponse_SetStatusMessage ''NOT FOUND'' (HttpResponse_SetStatusCode k404NotFound resp))"

text \<open>The context of a connection: an empty \<open>boost::any\<close> until the first connection callback.\<close>

definition HttpServer_OnConnection :: "tcp_connection \<Rightarrow> http_context option \<Rightarrow> http_context option" where
  "HttpServer_OnConnection conn context =
     (if TcpConnection_Connected conn then Some HttpContext_new else context)"

definition wants_close :: "http_request \<Rightarrow> bool" where
  "wants_close req \<longleftrightarrow>
     (let connection = HttpRequest_GetHeader ''Connection'' req
      in connection = ''close'' \<or> (req_version req = khttp10 \<and> connection \<noteq> ''Keep-Alive''))"

definition HttpServer_OnRequest ::
  "(http_request \<Rightarrow> http_response \<Rightarrow> http_response) \<Rightarrow> int + nat \<Rightarrow> http_request \<Rightarrow> tcp_connection \<Rightarrow> tcp_connection result" where
  "HttpServer_OnRequest http_callback write req conn =
     (let response = http_callback req (HttpResponse_new (wants_close req))
      in bindr (Buffer_new kinitial_size) (\<lambda>buf.
         bindr (HttpResponse_AppendToBuffer response buf) (\<lambda>buf.
         bindr (TcpConnection_Send_buffer True write buf conn) (\<lambda>(buf, conn).
           if resp_close_connection response then TcpConnection_Shutdown True conn else Inr conn))))"

definition bad_request :: string where
  "bad_request = ''HTTP/1.1 400 Bad Requeset'' @ kCRLF @ kCRLF"

definition HttpServer_OnMessage ::
  "(http_request \<Rightarrow> http_response \<Rightarrow> http_response) \<Rightarrow> timestamp \<Rightarrow> int + nat \<Rightarrow> http_context option \<Rightarrow> tcp_connection \<Rightarrow>
   (http_context \<times> tcp_connection) result option" where
  "HttpServer_OnMessage http_callback receive_time write context conn =
     (case context of None \<Rightarrow> Some (Inl Bad_access)
      | Some context \<Rightarrow>
        (case HttpContext_ParseRequest receive_time context (tc_input conn) of
           None \<Rightarrow> None
         | Some (Inl e) \<Rightarrow> Some (Inl e)
         | Some (Inr (good, context, buf)) \<Rightarrow>
             Some (bindr (if \<not> good
                     then bindr (TcpConnection_Send True write bad_request (conn\<lparr>tc_input := buf\<rparr>)) (TcpConnection_Shutdown True)
                     else Inr (conn\<lparr>tc_input := buf\<rparr>)) (\<lambda>conn.
               if HttpContext_GotAll context
               then bindr (HttpServer_OnRequest http_callback write (ctx_request context) conn) (\<lambda>conn.
                      Inr (HttpContext_Reset context, conn))
               else Inr (context, conn)))))"

section \<open>Lemmas\<close>

lemma RetrieveUntil_memory: "Buffer_RetrieveUntil e b = Inr b' \<Longrightarrow> buf_buffer b' = buf_buffer b"
  by (auto simp: Buffer_RetrieveUntil_def Buffer_Retrieve_def Buffer_RetrieveAll_def res_simps split: if_splits)

lemma ParseStep_memory:
  "HttpContext_ParseStep t good c b = Inr (good', more', c', b') \<Longrightarrow> buf_buffer b' = buf_buffer b"
  by (auto simp: HttpContext_ParseStep_def res_simps Let_def dest: RetrieveUntil_memory
      split: http_parse_state.splits option.splits if_splits)

lemma ParseRequest_memory:
  assumes "HttpContext_ParseRequest t c b = Some (Inr (good, c', b'))"
  shows "buf_buffer b' = buf_buffer b"
proof -
  have "\<forall>good' c' b'. res = Inr (good', c', b') \<longrightarrow> buf_buffer b' = buf_buffer b"
    if "HttpContext_ParseLoop t good c b = Some res" for t good c b res
    using that
  proof (rule HttpContext_ParseLoop.raw_induct
      [where P = "\<lambda>t good c b res. \<forall>good' c' b'. res = Inr (good', c', b') \<longrightarrow> buf_buffer b' = buf_buffer b", rotated])
    fix loop t good c b r
    assume IH: "\<And>t good c b r. loop t good c b = Some r \<Longrightarrow>
        \<forall>good' c' b'. r = Inr (good', c', b') \<longrightarrow> buf_buffer b' = buf_buffer b"
      and step: "(case HttpContext_ParseStep t good c b of Inl e \<Rightarrow> Some (Inl e)
        | Inr (good', has_more, c', buf') \<Rightarrow> if has_more then loop t good' c' buf' else Some (Inr (good', c', buf'))) = Some r"
    show "\<forall>good' c' b'. r = Inr (good', c', b') \<longrightarrow> buf_buffer b' = buf_buffer b"
    proof (cases "HttpContext_ParseStep t good c b")
      case (Inl e)
      then have "r = Inl e" using step by (simp only: sum.case option.inject)
      then show ?thesis by simp
    next
      case (Inr res)
      obtain good1 more1 c1 b1 where res: "res = (good1, more1, c1, b1)" by (metis prod_cases4)
      have m: "buf_buffer b1 = buf_buffer b" using ParseStep_memory Inr res by blast
      show ?thesis
      proof (cases more1)
        case True
        then have "loop t good1 c1 b1 = Some r" using step by (simp only: Inr res sum.case prod.case if_True)
        from IH [OF this] show ?thesis unfolding m .
      next
        case False
        then have "r = Inr (good1, c1, b1)" using step by (simp only: Inr res sum.case prod.case if_False option.inject)
        then show ?thesis using m by simp
      qed
    qed
  qed
  from this [OF assms [unfolded HttpContext_ParseRequest_def]] show ?thesis by blast
qed

text \<open>A write that does not find the connection broken: all the data is taken on.\<close>

definition write_ok :: "int + nat \<Rightarrow> bool" where
  "write_ok write \<longleftrightarrow> (case write of Inl err \<Rightarrow> err \<noteq> EPIPE \<and> err \<noteq> ECONNRESET | Inr n \<Rightarrow> True)"

lemma SendInLoop_takes:
  assumes "TcpConnection_SendInLoop True write data c = Inr c'" and "tc_state c \<noteq> kdisconnected" and "write_ok write"
  shows "tc_accepted c' = tc_accepted c @ data" and "tc_state c' = tc_state c" and "tc_input c' = tc_input c"
  using assms
  by (cases "write"; auto simp: TcpConnection_SendInLoop_def send_direct_def write_ok_def Let_def res_simps split: if_splits)+

lemma send_all:
  assumes "conn_ok (length data + m) c" and "tc_state c = kconnected" and "write_ok write"
  shows "\<exists>c'. TcpConnection_SendInLoop True write data c = Inr c' \<and> conn_ok m c' \<and> tc_state c' = kconnected \<and>
    tc_accepted c' = tc_accepted c @ data \<and> tc_input c' = tc_input c"
proof -
  have "tc_state c \<noteq> kconnecting" using assms(2) by simp
  from SendInLoop_ok [OF assms(1) this] obtain c' where "TcpConnection_SendInLoop True write data c = Inr c'" "conn_ok m c'" by blast
  then show ?thesis using SendInLoop_takes [of "write" data c c'] assms(2,3) by auto
qed

lemma Shutdown_keeps:
  "TcpConnection_Shutdown True c = Inr c' \<Longrightarrow> tc_accepted c' = tc_accepted c \<and> tc_input c' = tc_input c \<and>
   (tc_state c = kconnected \<longrightarrow> tc_state c' = kdisconnecting)"
  by (auto simp: TcpConnection_Shutdown_def TcpConnection_ShutdownInLoop_def TcpConnection_SetState_def Let_def split: if_splits)

lemma OnRequest_answers:
  assumes resp: "response = http_callback req (HttpResponse_new (wants_close req))"
    and small: "length (response_text response) < 2 ^ 31"
    and ok: "conn_ok (length (response_text response) + m) c" "tc_state c = kconnected" "write_ok write"
  shows "\<exists>c'. HttpServer_OnRequest http_callback write req c = Inr c' \<and> conn_ok m c' \<and>
    tc_accepted c' = tc_accepted c @ response_text response \<and> tc_input c' = tc_input c \<and>
    tc_state c' = (if resp_close_connection response then kdisconnecting else kconnected)"
proof -
  obtain b where b: "Buffer_new kinitial_size = Inr b" "buf_inv b" "readable b = []" "buf_writer_index b = kcheap_prepend"
    using Buffer_new_ok [of kinitial_size] by (auto simp: kinitial_size_def kcheap_prepend_def max_vector_def)
  have "buf_room (length (response_text response)) b"
    using small b(4) by (simp add: buf_room_def kcheap_prepend_def max_vector_def)
  then have room: "buf_room (length (concat (response_pieces response))) b"
    using small concat_response_pieces [of response] by (simp add: response_text_def)
  obtain b1 where b1: "HttpResponse_AppendToBuffer response b = Inr b1" "buf_inv b1" "readable b1 = response_text response"
    using append_all_ok [OF b(2) small_pieces [OF small] room] b(3) concat_response_pieces [of response] small
    by (auto simp: HttpResponse_AppendToBuffer_def response_text_def)
  have "Buffer_ReadableBytes b1 = buf_writer_index b1 - buf_reader_index b1"
    using ReadableBytes_readable [OF b1(2)] b1(2) by (auto simp: readable_def slice_def buf_inv_def)
  then have data: "take (Buffer_ReadableBytes b1) (drop (Buffer_Peek b1) (buf_buffer b1)) = response_text response"
    using b1(3) by (simp add: readable_def slice_def Buffer_Peek_def)
  obtain c1 where c1: "TcpConnection_SendInLoop True write (response_text response) c = Inr c1" "conn_ok m c1"
    "tc_state c1 = kconnected" "tc_accepted c1 = tc_accepted c @ response_text response" "tc_input c1 = tc_input c"
    using send_all [OF ok] by blast
  have send: "TcpConnection_Send_buffer True write b1 c = Inr (Buffer_RetrieveAll b1, c1)"
    using c1(1) ok(2) by (simp add: TcpConnection_Send_buffer_def data)
  obtain c2 where c2: "TcpConnection_Shutdown True c1 = Inr c2" "conn_ok m c2" using Shutdown_ok [OF c1(2)] by blast
  show ?thesis
    using b(1) b1(1) send c1 c2 Shutdown_keeps [OF c2(1)]
    by (auto simp: HttpServer_OnRequest_def Let_def resp [symmetric])
qed

text \<open>\<open>OnMessage\<close> by what the reference parser says of the input: more is needed, or a request is there.\<close>

lemma ParseRequest_conn:
  assumes "http_spec t ctx (readable (tc_input c)) = Inr (True, ctx', zs)" and "parsing ctx" and "conn_ok m c"
  shows "\<exists>b. HttpContext_ParseRequest t ctx (tc_input c) = Some (Inr (True, ctx', b)) \<and> readable b = zs \<and> conn_ok m (c\<lparr>tc_input := b\<rparr>)"
proof -
  obtain b where b: "HttpContext_ParseRequest t ctx (tc_input c) = Some (Inr (True, ctx', b))" "buf_inv b" "readable b = zs"
    using ParseLoop_spec [OF conn_bufs(1) [OF assms(3)] assms(2) refl, of t] assms(1)
    by (auto simp: HttpContext_ParseRequest_def agrees_def)
  have "buf_buffer b = buf_buffer (tc_input c)" by (rule ParseRequest_memory [OF b(1)])
  then have "conn_ok m (c\<lparr>tc_input := b\<rparr>)"
    using conn_input_buffer [OF assms(3) b(2) _ le_refl] assms(3) by (auto simp: conn_ok_def buffers_ok_def)
  then show ?thesis using b by blast
qed

lemma OnMessage_more:
  assumes "http_spec t ctx (readable (tc_input c)) = Inr (True, ctx', zs)" and "parsing ctx" "parsing ctx'" and "conn_ok m c"
  shows "\<exists>c'. HttpServer_OnMessage cb t w (Some ctx) c = Some (Inr (ctx', c')) \<and> conn_ok m c' \<and>
    tc_accepted c' = tc_accepted c \<and> readable (tc_input c') = zs \<and> tc_state c' = tc_state c"
  using ParseRequest_conn [OF assms(1,2,4)] assms(3)
  by (auto simp: HttpServer_OnMessage_def HttpContext_GotAll_def parsing_def)

lemma OnMessage_request:
  assumes "http_spec t ctx (readable (tc_input c)) = Inr (True, \<lparr>ctx_state = k_got_all, ctx_request = req\<rparr>, zs)" and "parsing ctx"
    and resp: "response = cb req (HttpResponse_new (wants_close req))" "length (response_text response) < 2 ^ 31"
    and ok: "conn_ok (length (response_text response) + m) c" "tc_state c = kconnected" "write_ok w"
  shows "\<exists>c'. HttpServer_OnMessage cb t w (Some ctx) c = Some (Inr (HttpContext_new, c')) \<and> conn_ok m c' \<and>
    tc_accepted c' = tc_accepted c @ response_text response \<and> readable (tc_input c') = zs \<and>
    tc_state c' = (if resp_close_connection response then kdisconnecting else kconnected)"
proof -
  obtain b where b: "HttpContext_ParseRequest t ctx (tc_input c) = Some (Inr (True, \<lparr>ctx_state = k_got_all, ctx_request = req\<rparr>, b))"
    "readable b = zs" "conn_ok (length (response_text response) + m) (c\<lparr>tc_input := b\<rparr>)"
    using ParseRequest_conn [OF assms(1,2) ok(1)] by blast
  obtain c' where "HttpServer_OnRequest cb w req (c\<lparr>tc_input := b\<rparr>) = Inr c'" "conn_ok m c'"
    "tc_accepted c' = tc_accepted c @ response_text response" "tc_input c' = b"
    "tc_state c' = (if resp_close_connection response then kdisconnecting else kconnected)"
    using OnRequest_answers [where http_callback = cb and req = req, OF resp b(3)] ok(2,3) by auto
  then show ?thesis using b(1,2)
    by (auto simp: HttpServer_OnMessage_def HttpContext_GotAll_def HttpContext_Reset_def HttpRequest_Swap_def HttpContext_new_def)
qed

lemma wants_close_time [simp]: "wants_close (r\<lparr>req_receive_time := t\<rparr>) = wants_close r"
  by (simp add: wants_close_def HttpRequest_GetHeader_def Let_def)

section \<open>Properties\<close>

text \<open>C34. The HTTP server answers: when a connected client's input begins with a request in the wire format, the server
  calls the user's callback with exactly that request and a response that closes the connection when the request asks for
  it, the connection takes on exactly the text of the response, the parser is ready for the next request, whatever follows
  the request stays in the input buffer, and the connection is shut down exactly when the response says so. (When the rest
  is already a complete request it waits there until more input arrives.)\<close>

theorem http_server_answers:
  assumes "printable r" and "readable (tc_input conn) = request_text r @ rest"
    and "response = http_callback (r\<lparr>req_receive_time := t\<rparr>) (HttpResponse_new (wants_close r))"
    and "length (response_text response) < 2 ^ 31"
    and "conn_ok (length (response_text response) + m) conn" and "tc_state conn = kconnected" and "write_ok write"
  shows "\<exists>conn'. HttpServer_OnMessage http_callback t write (HttpServer_OnConnection conn None) conn =
      Some (Inr (HttpContext_new, conn')) \<and> conn_ok m conn' \<and>
    tc_accepted conn' = tc_accepted conn @ response_text response \<and> readable (tc_input conn') = rest \<and>
    tc_state conn' = (if resp_close_connection response then kdisconnecting else kconnected)"
proof -
  let ?r = "r\<lparr>req_receive_time := t\<rparr>"
  have "http_spec t HttpContext_new (readable (tc_input conn)) = Inr (True, \<lparr>ctx_state = k_got_all, ctx_request = ?r\<rparr>, rest)"
    using http_spec_printed [OF assms(1)] assms(2) by simp
  from OnMessage_request [where cb = http_callback, OF this fresh_context(2) _ assms(4-7)] assms(3,6) show ?thesis
    by (simp add: HttpServer_OnConnection_def TcpConnection_Connected_def)
qed

definition http_sample :: tcp_connection where
  "http_sample = sample_connection\<lparr>tc_input := filled (request_text sample_request @ ''GET'')\<rparr>"

lemma http_sample_facts:
  "readable (tc_input http_sample) = request_text sample_request @ ''GET''" "tc_state http_sample = kconnected"
  "conn_ok 1000 http_sample"
proof -
  have len: "length (request_text sample_request @ ''GET'') \<le> 1000"
    by (simp add: request_text_def request_line_def header_line_def sample_request_def kCRLF_def)
  obtain c0 where c0: "TcpConnection_new 5 = Inr c0" "conn_reach c0 sample_inputs sample_connection"
    using sample_reach(1) by blast
  have "conn_ok 1000 sample_connection"
    using reach_keeps [OF c0(2,1), of 1000] conn_capacity_big sample_reach(2) by simp
  moreover have "length (buf_buffer (filled (request_text sample_request @ ''GET''))) + extrabuf_size + 1000 \<le> max_vector"
    using len by (simp add: filled_def max_vector_def extrabuf_size_def)
  ultimately show "conn_ok 1000 http_sample"
    unfolding http_sample_def using conn_input_buffer [OF _ filled_inv(1) [OF len] _ le_refl] by blast
qed (simp_all add: http_sample_def sample_facts)

theorem http_server_answers_witness:
  "\<exists>conn'. HttpServer_OnMessage DefaultHttpCallback (Timestamp 7) (Inr 0) (HttpServer_OnConnection http_sample None) http_sample =
      Some (Inr (HttpContext_new, conn')) \<and> readable (tc_input conn') = ''GET'' \<and> tc_state conn' = kdisconnecting"
proof -
  let ?resp = "DefaultHttpCallback (sample_request\<lparr>req_receive_time := Timestamp 7\<rparr>) (HttpResponse_new (wants_close sample_request))"
  have "length (response_text ?resp) \<le> 100"
    by (simp add: DefaultHttpCallback_def HttpResponse_SetCloseConnection_def HttpResponse_SetStatusMessage_def
        HttpResponse_SetStatusCode_def HttpResponse_new_def response_text_def kCRLF_def int_dec_def nat_dec.simps)
  then have ok: "length (response_text ?resp) < 2 ^ 31" "conn_ok (length (response_text ?resp) + 0) http_sample"
    using conn_mono [OF http_sample_facts(3)] by simp_all
  have "write_ok (Inr 0)" "resp_close_connection ?resp"
    by (simp_all add: write_ok_def DefaultHttpCallback_def HttpResponse_SetCloseConnection_def)
  with http_server_answers [where http_callback = DefaultHttpCallback and t = "Timestamp 7",
      OF sample_printable http_sample_facts(1) refl ok http_sample_facts(2)] show ?thesis by auto
qed

end
