(* ===== verification/TimerQueue.thy ===== *)
theory TimerQueue
  imports Poller "HOL-Library.Product_Lexorder"
begin

text \<open>
  \<open>dwater/base/atomic.h\<close>, \<open>dwater/net/timer.h\<close>, \<open>timer.cc\<close>, \<open>timerid.h\<close>, \<open>timer_queue.h\<close> and
  \<open>timer_queue.cc\<close>. Timers live on a heap (\<open>timer_ptr\<close> to \<open>timer\<close>, \<open>None\<close> where nothing is
  allocated), so that a use of a deleted timer is a \<open>Bad_access\<close>; \<open>std::set\<close> is the sorted list of
  its elements, and \<open>Entry\<close> and \<open>ActiveTimer\<close> are ordered as pairs. \<open>operator new\<close> is a parameter
  that gives an address or fails. A timer callback is an identifier, and \<open>script\<close> says which calls
  of \<open>AddTimer\<close> and \<open>Cancel\<close> it makes when it runs; they happen at once, because the callback runs in
  the loop's thread. The time is an argument (\<open>now\<close> as read on entry,
  \<open>clock\<close> as later readings see it), and every \<open>timerfd_settime\<close> is recorded.
\<close>

section \<open>Atomic integers\<close>

text \<open>One atomic operation is one step on the value. \<open>DecrementAndGet\<close> adds one, as the source has it.\<close>

definition AtomicInteger_Get :: "'a::len word \<Rightarrow> 'a word \<times> 'a word" where
  "AtomicInteger_Get v = (v, if v = 0 then 0 else v)"

definition AtomicInteger_GetAndAdd :: "'a::len word \<Rightarrow> 'a word \<Rightarrow> 'a word \<times> 'a word" where
  "AtomicInteger_GetAndAdd x v = (v, v + x)"

definition AtomicInteger_AddAndGet :: "'a::len word \<Rightarrow> 'a word \<Rightarrow> 'a word \<times> 'a word" where
  "AtomicInteger_AddAndGet x v = (case AtomicInteger_GetAndAdd x v of (old, v') \<Rightarrow> (old + x, v'))"

definition AtomicInteger_IncrementAndGet :: "'a::len word \<Rightarrow> 'a word \<times> 'a word" where
  "AtomicInteger_IncrementAndGet = AtomicInteger_AddAndGet 1"

definition AtomicInteger_DecrementAndGet :: "'a::len word \<Rightarrow> 'a word \<times> 'a word" where
  "AtomicInteger_DecrementAndGet = AtomicInteger_AddAndGet 1"

definition AtomicInteger_GetAndSet :: "'a::len word \<Rightarrow> 'a word \<Rightarrow> 'a word \<times> 'a word" where
  "AtomicInteger_GetAndSet new_value v = (v, new_value)"

section \<open>Timers\<close>

type_synonym timer_ptr = nat

record timer =
  tm_callback :: nat
  tm_expiration :: timestamp
  tm_interval :: rat
  tm_repeat :: bool
  tm_sequence :: "64 word"

type_synonym timer_heap = "timer_ptr \<rightharpoonup> timer"

text \<open>The constructor; \<open>created\<close> is \<open>s_num_created_\<close>, and the second result its new value.\<close>

definition Timer_new :: "nat \<Rightarrow> timestamp \<Rightarrow> rat \<Rightarrow> 64 word \<Rightarrow> timer \<times> 64 word" where
  "Timer_new cb when interval created =
     (case AtomicInteger_IncrementAndGet created of (sequence, created') \<Rightarrow>
        (\<lparr>tm_callback = cb, tm_expiration = when, tm_interval = interval, tm_repeat = (interval > 0),
          tm_sequence = sequence\<rparr>, created'))"

definition Timer_Restart :: "timestamp \<Rightarrow> timer \<Rightarrow> timer" where
  "Timer_Restart now tm =
     (if tm_repeat tm then tm\<lparr>tm_expiration := AddTime now (tm_interval tm)\<rparr>
      else tm\<lparr>tm_expiration := Timestamp_Invalid\<rparr>)"

datatype timer_id = TimerId timer_ptr "64 word"

section \<open>The queue\<close>

type_synonym timer_entry = "timestamp \<times> timer_ptr"
type_synonym active_timer = "timer_ptr \<times> 64 word"

record timer_queue =
  tq_heap :: timer_heap
  tq_num_created :: "64 word"
  tq_timers :: "timer_entry list"
  tq_active :: "active_timer list"
  tq_calling :: bool
  tq_canceling :: "active_timer list"
  tq_settime :: "(timestamp \<times> int \<times> int) list"
  tq_settime_ok :: bool

text \<open>\<open>tq_settime_ok\<close>: whether the kernel accepts \<open>timerfd_settime\<close> on the queue's descriptor.\<close>

definition TimerQueue_new :: timer_queue where
  "TimerQueue_new = \<lparr>tq_heap = Map.empty, tq_num_created = 0, tq_timers = [], tq_active = [],
     tq_calling = False, tq_canceling = [], tq_settime = [], tq_settime_ok = True\<rparr>"

definition UINTPTR_MAX :: nat where
  "UINTPTR_MAX = 2 ^ 64 - 1"

definition deref :: "timer_heap \<Rightarrow> timer_ptr \<Rightarrow> timer result" where
  "deref h p = (case h p of None \<Rightarrow> Inl Bad_access | Some tm \<Rightarrow> Inr tm)"

text \<open>The seconds and nanoseconds of the \<open>timespec\<close>.\<close>

definition HowMuchTimeFromNow :: "timestamp \<Rightarrow> timestamp \<Rightarrow> int \<times> int" where
  "HowMuchTimeFromNow now when =
     (let microseconds = MicroSecondsSinceEpoch when - MicroSecondsSinceEpoch now;
          microseconds' = (if microseconds < 100 then 100 else microseconds)
      in (cdiv microseconds' kmicro_seconds_per_second, cmod microseconds' kmicro_seconds_per_second * 1000))"

definition ResetTimerfd :: "timestamp \<Rightarrow> timestamp \<Rightarrow> timer_queue \<Rightarrow> timer_queue result" where
  "ResetTimerfd now expiration q =
     (let q' = q\<lparr>tq_settime := (now, HowMuchTimeFromNow now expiration) # tq_settime q\<rparr>
      in if tq_settime_ok q then Inr q' else Inl Log_fatal)"

definition TimerQueue_Insert :: "timer_ptr \<Rightarrow> timer_queue \<Rightarrow> (bool \<times> timer_queue) result" where
  "TimerQueue_Insert p q =
     c_assert (length (tq_timers q) = length (tq_active q))
      (bindr (deref (tq_heap q) p) (\<lambda>tm.
        let when = tm_expiration tm;
            earliest_changed = (tq_timers q = [] \<or> when < fst (hd (tq_timers q)))
        in c_assert ((when, p) \<notin> set (tq_timers q))
            (c_assert ((p, tm_sequence tm) \<notin> set (tq_active q))
              (let q' = q\<lparr>tq_timers := insort (when, p) (tq_timers q),
                          tq_active := insort (p, tm_sequence tm) (tq_active q)\<rparr>
               in c_assert (length (tq_timers q') = length (tq_active q')) (Inr (earliest_changed, q'))))))"

definition TimerQueue_AddTimerInLoop :: "bool \<Rightarrow> timestamp \<Rightarrow> timer_ptr \<Rightarrow> timer_queue \<Rightarrow> timer_queue result" where
  "TimerQueue_AddTimerInLoop in_loop now p q =
     AssertInLoopThread in_loop
      (bindr (TimerQueue_Insert p q) (\<lambda>(earliest_changed, q').
        if earliest_changed
        then bindr (deref (tq_heap q') p) (\<lambda>tm. ResetTimerfd now (tm_expiration tm) q')
        else Inr q'))"

text \<open>
  \<open>AddTimer\<close> called in the loop's thread: \<open>alloc\<close> is \<open>operator new\<close>.
\<close>

definition TimerQueue_AddTimer ::
  "(timer_heap \<Rightarrow> timer_ptr option) \<Rightarrow> timestamp \<Rightarrow> nat \<Rightarrow> timestamp \<Rightarrow> rat \<Rightarrow> timer_queue \<Rightarrow>
     (timer_id \<times> timer_queue) result" where
  "TimerQueue_AddTimer alloc now cb when interval q =
     (case alloc (tq_heap q) of
        None \<Rightarrow> Inl Bad_alloc
      | Some p \<Rightarrow>
          (case Timer_new cb when interval (tq_num_created q) of (tm, created) \<Rightarrow>
             bindr (TimerQueue_AddTimerInLoop True now p
                     (q\<lparr>tq_heap := (tq_heap q)(p \<mapsto> tm), tq_num_created := created\<rparr>))
               (\<lambda>q'. Inr (TimerId p (tm_sequence tm), q'))))"

definition TimerQueue_CancelInLoop :: "bool \<Rightarrow> timer_id \<Rightarrow> timer_queue \<Rightarrow> timer_queue result" where
  "TimerQueue_CancelInLoop in_loop tid q =
     AssertInLoopThread in_loop
      (c_assert (length (tq_timers q) = length (tq_active q))
        (case tid of TimerId p s \<Rightarrow>
          bindr (if (p, s) \<in> set (tq_active q)
                 then bindr (deref (tq_heap q) p) (\<lambda>tm.
                   c_assert ((tm_expiration tm, p) \<in> set (tq_timers q))
                     (Inr (q\<lparr>tq_timers := remove1 (tm_expiration tm, p) (tq_timers q),
                             tq_heap := (tq_heap q)(p := None),
                             tq_active := remove1 (p, s) (tq_active q)\<rparr>)))
                 else if tq_calling q
                 then Inr (q\<lparr>tq_canceling := List.insert (p, s) (tq_canceling q)\<rparr>)
                 else Inr q)
           (\<lambda>q'. c_assert (length (tq_timers q') = length (tq_active q')) (Inr q'))))"

definition TimerQueue_Cancel :: "timer_id \<Rightarrow> timer_queue \<Rightarrow> timer_queue result" where
  "TimerQueue_Cancel tid q = TimerQueue_CancelInLoop True tid q"

fun erase_active :: "timer_entry list \<Rightarrow> timer_queue \<Rightarrow> timer_queue result" where
  "erase_active [] q = Inr q"
| "erase_active ((t, p) # es) q =
     bindr (deref (tq_heap q) p) (\<lambda>tm.
       c_assert ((p, tm_sequence tm) \<in> set (tq_active q))
         (erase_active es (q\<lparr>tq_active := remove1 (p, tm_sequence tm) (tq_active q)\<rparr>)))"

definition TimerQueue_GetExpired :: "timestamp \<Rightarrow> timer_queue \<Rightarrow> (timer_entry list \<times> timer_queue) result" where
  "TimerQueue_GetExpired now q =
     c_assert (length (tq_timers q) = length (tq_active q))
      (let sentry = (now, UINTPTR_MAX);
           expired = takeWhile (\<lambda>e. e < sentry) (tq_timers q);
           rest = dropWhile (\<lambda>e. e < sentry) (tq_timers q)
       in c_assert (rest = [] \<or> now < fst (hd rest))
           (bindr (erase_active expired (q\<lparr>tq_timers := rest\<rparr>)) (\<lambda>q'.
             c_assert (length (tq_timers q') = length (tq_active q')) (Inr (expired, q')))))"

fun reset_expired :: "timestamp \<Rightarrow> timer_entry list \<Rightarrow> timer_queue \<Rightarrow> timer_queue result" where
  "reset_expired now [] q = Inr q"
| "reset_expired now ((t, p) # es) q =
     bindr (deref (tq_heap q) p) (\<lambda>tm.
       if tm_repeat tm \<and> (p, tm_sequence tm) \<notin> set (tq_canceling q)
       then bindr (TimerQueue_Insert p (q\<lparr>tq_heap := (tq_heap q)(p \<mapsto> Timer_Restart now tm)\<rparr>))
              (\<lambda>(changed, q'). reset_expired now es q')
       else reset_expired now es (q\<lparr>tq_heap := (tq_heap q)(p := None)\<rparr>))"

definition TimerQueue_Reset ::
  "timer_entry list \<Rightarrow> timestamp \<Rightarrow> timestamp \<Rightarrow> timer_queue \<Rightarrow> timer_queue result" where
  "TimerQueue_Reset expired now clock q =
     bindr (reset_expired now expired q) (\<lambda>q'.
       bindr (if tq_timers q' \<noteq> []
              then bindr (deref (tq_heap q') (snd (hd (tq_timers q')))) (\<lambda>tm. Inr (tm_expiration tm))
              else Inr (Timestamp 0))
        (\<lambda>next_expired. if Timestamp_Valid next_expired then ResetTimerfd clock next_expired q' else Inr q'))"

text \<open>
  What a timer callback does to the queue it runs in, and \<open>HandleRead\<close>, which returns the callbacks it
  fired in order.
\<close>

datatype timer_action = Add_timer nat timestamp rat | Cancel_timer timer_id

fun run_actions ::
  "(timer_heap \<Rightarrow> timer_ptr option) \<Rightarrow> timestamp \<Rightarrow> timer_action list \<Rightarrow> timer_queue \<Rightarrow> timer_queue result" where
  "run_actions alloc now [] q = Inr q"
| "run_actions alloc now (Add_timer cb when interval # as) q =
     bindr (TimerQueue_AddTimer alloc now cb when interval q) (\<lambda>(tid, q'). run_actions alloc now as q')"
| "run_actions alloc now (Cancel_timer tid # as) q =
     bindr (TimerQueue_Cancel tid q) (run_actions alloc now as)"

fun run_expired ::
  "(timer_heap \<Rightarrow> timer_ptr option) \<Rightarrow> (nat \<Rightarrow> timer_action list) \<Rightarrow> timestamp \<Rightarrow> timer_entry list \<Rightarrow> timer_queue \<Rightarrow>
     (nat list \<times> timer_queue) result" where
  "run_expired alloc script now [] q = Inr ([], q)"
| "run_expired alloc script now ((t, p) # es) q =
     bindr (deref (tq_heap q) p) (\<lambda>tm.
       bindr (run_actions alloc now (script (tm_callback tm)) q) (\<lambda>q'.
         bindr (run_expired alloc script now es q') (\<lambda>(fired, q''). Inr (tm_callback tm # fired, q''))))"

definition TimerQueue_HandleRead ::
  "(timer_heap \<Rightarrow> timer_ptr option) \<Rightarrow> (nat \<Rightarrow> timer_action list) \<Rightarrow> bool \<Rightarrow> timestamp \<Rightarrow> timestamp \<Rightarrow> timer_queue \<Rightarrow>
     (nat list \<times> timer_queue) result" where
  "TimerQueue_HandleRead alloc script in_loop now clock q =
     AssertInLoopThread in_loop
      (bindr (TimerQueue_GetExpired now q) (\<lambda>(expired, q1).
        bindr (run_expired alloc script clock expired (q1\<lparr>tq_calling := True, tq_canceling := []\<rparr>)) (\<lambda>(fired, q2).
          bindr (TimerQueue_Reset expired now clock (q2\<lparr>tq_calling := False\<rparr>)) (\<lambda>q3. Inr (fired, q3)))))"

section \<open>The invariant\<close>

text \<open>
  \<open>tq_ok\<close>: the entries are sorted, every entry points to a live timer with that expiration, and
  \<open>active_timers_\<close> holds the same timers with their sequence numbers. \<open>detached D\<close>: the timers of \<open>D\<close> are
  alive and in neither set, as those of \<open>expired\<close> are while their callbacks run.
\<close>

definition active_key :: "timer_heap \<Rightarrow> timer_entry \<Rightarrow> active_timer" where
  "active_key h e = (snd e, tm_sequence (the (h (snd e))))"

definition entry_ok :: "timer_heap \<Rightarrow> timer_entry \<Rightarrow> bool" where
  "entry_ok h e \<longleftrightarrow> snd e < UINTPTR_MAX \<and> (\<exists>tm. h (snd e) = Some tm \<and> tm_expiration tm = fst e)"

definition tq_ok :: "timer_queue \<Rightarrow> bool" where
  "tq_ok q \<longleftrightarrow> sorted (tq_timers q) \<and> distinct (tq_timers q) \<and> distinct (tq_active q) \<and>
     list_all (entry_ok (tq_heap q)) (tq_timers q) \<and>
     set (tq_active q) = active_key (tq_heap q) ` set (tq_timers q) \<and> tq_settime_ok q"

definition detached :: "timer_ptr list \<Rightarrow> timer_queue \<Rightarrow> bool" where
  "detached D q \<longleftrightarrow> distinct D \<and> list_all (\<lambda>p. p < UINTPTR_MAX \<and> tq_heap q p \<noteq> None) D \<and>
     set D \<inter> snd ` set (tq_timers q) = {}"

definition alloc_ok :: "(timer_heap \<Rightarrow> timer_ptr option) \<Rightarrow> bool" where
  "alloc_ok alloc \<longleftrightarrow> (\<forall>h p. alloc h = Some p \<longrightarrow> h p = None \<and> p < UINTPTR_MAX)"

lemma entry_unique: "entry_ok h e \<Longrightarrow> entry_ok h e' \<Longrightarrow> snd e = snd e' \<Longrightarrow> e = e'"
  by (auto simp: entry_ok_def prod_eq_iff)

lemma tq_okD:
  assumes "tq_ok q"
  shows "sorted (tq_timers q)" "distinct (tq_timers q)" "distinct (tq_active q)"
    "e \<in> set (tq_timers q) \<Longrightarrow> entry_ok (tq_heap q) e"
    "set (tq_active q) = active_key (tq_heap q) ` set (tq_timers q)" "tq_settime_ok q"
  using assms by (auto simp: tq_ok_def list_all_iff)

lemma key_inj: "tq_ok q \<Longrightarrow> inj_on (active_key (tq_heap q)) (set (tq_timers q))"
  by (rule inj_onI) (metis active_key_def entry_unique tq_okD(4) fst_conv)

lemma tq_lengths: "tq_ok q \<Longrightarrow> length (tq_timers q) = length (tq_active q)"
proof -
  assume ok: "tq_ok q"
  have "card (set (tq_active q)) = card (set (tq_timers q))"
    unfolding tq_okD(5) [OF ok] by (rule card_image [OF key_inj [OF ok]])
  then show ?thesis using tq_okD(2,3) [OF ok] by (simp add: distinct_card)
qed

lemma active_iff:
  assumes ok: "tq_ok q"
  shows "(p, s) \<in> set (tq_active q) \<longleftrightarrow>
    (\<exists>tm. tq_heap q p = Some tm \<and> tm_sequence tm = s \<and> (tm_expiration tm, p) \<in> set (tq_timers q))"
  unfolding tq_okD(5) [OF ok]
proof
  assume "(p, s) \<in> active_key (tq_heap q) ` set (tq_timers q)"
  then obtain t where e: "(t, p) \<in> set (tq_timers q)" "s = tm_sequence (the (tq_heap q p))"
    by (auto simp: active_key_def)
  with tq_okD(4) [OF ok e(1)] show "\<exists>tm. tq_heap q p = Some tm \<and> tm_sequence tm = s \<and> (tm_expiration tm, p) \<in> set (tq_timers q)"
    by (auto simp: entry_ok_def)
next
  assume "\<exists>tm. tq_heap q p = Some tm \<and> tm_sequence tm = s \<and> (tm_expiration tm, p) \<in> set (tq_timers q)"
  then show "(p, s) \<in> active_key (tq_heap q) ` set (tq_timers q)" by (force simp: active_key_def)
qed

text \<open>Two heaps that agree on the timers of the queue are interchangeable.\<close>

lemma key_cong: "h' (snd e) = h (snd e) \<Longrightarrow> active_key h' e = active_key h e \<and> entry_ok h' e = entry_ok h e"
  by (simp add: active_key_def entry_ok_def)

section \<open>Operations\<close>

lemma Insert_ok:
  assumes ok: "tq_ok q" and tm: "tq_heap q p = Some tm" and p: "p < UINTPTR_MAX" "p \<notin> snd ` set (tq_timers q)"
  shows "\<exists>q'. TimerQueue_Insert p q =
      Inr (tq_timers q = [] \<or> tm_expiration tm < fst (hd (tq_timers q)), q') \<and> tq_ok q' \<and>
    q' = q\<lparr>tq_timers := insort (tm_expiration tm, p) (tq_timers q),
           tq_active := insort (p, tm_sequence tm) (tq_active q)\<rparr>"
proof -
  define q' where "q' = q\<lparr>tq_timers := insort (tm_expiration tm, p) (tq_timers q),
    tq_active := insort (p, tm_sequence tm) (tq_active q)\<rparr>"
  have new: "(tm_expiration tm, p) \<notin> set (tq_timers q)" using p(2) by force
  have new': "(p, tm_sequence tm) \<notin> set (tq_active q)"
    using active_iff [OF ok, of p "tm_sequence tm"] p(2) by force
  have "tq_ok q'"
    using tq_okD [OF ok] new new' tm p(1)
    by (auto simp: tq_ok_def q'_def sorted_insort distinct_insort set_insort_key list_all_iff entry_ok_def active_key_def)
  moreover from this have "length (tq_timers q') = length (tq_active q')" by (rule tq_lengths)
  ultimately show ?thesis
    using tq_lengths [OF ok] tm new new'
    by (auto simp: TimerQueue_Insert_def deref_def Let_def q'_def)
qed

lemma remove_entry_ok:
  assumes ok: "tq_ok q" and e: "(t, p) \<in> set (tq_timers q)" and tm: "tq_heap q p = Some tm"
  defines "q' \<equiv> q\<lparr>tq_timers := remove1 (t, p) (tq_timers q), tq_heap := (tq_heap q)(p := None),
    tq_active := remove1 (p, tm_sequence tm) (tq_active q)\<rparr>"
  shows "tq_ok q'"
proof -
  have others: "snd e' \<noteq> p" if "e' \<in> set (tq_timers q)" "e' \<noteq> (t, p)" for e'
    using entry_unique [OF tq_okD(4) [OF ok that(1)] tq_okD(4) [OF ok e]] that(2) by auto
  have keys: "active_key (tq_heap q') e' = active_key (tq_heap q) e' \<and> entry_ok (tq_heap q') e'"
    if "e' \<in> set (tq_timers q) - {(t, p)}" for e'
    using key_cong [of "tq_heap q'" e' "tq_heap q"] others [of e'] tq_okD(4) [OF ok, of e'] that by (auto simp: q'_def)
  have "active_key (tq_heap q) ` {(t, p)} = {(p, tm_sequence tm)}" using tm by (simp add: active_key_def)
  then have "set (tq_active q) - {(p, tm_sequence tm)} = active_key (tq_heap q) ` (set (tq_timers q) - {(t, p)})"
    unfolding tq_okD(5) [OF ok] using inj_on_image_set_diff [OF key_inj [OF ok], of "set (tq_timers q)" "{(t, p)}"] e by auto
  also have "\<dots> = active_key (tq_heap q') ` (set (tq_timers q) - {(t, p)})"
    using keys by (intro image_cong) auto
  finally show ?thesis
    using tq_okD [OF ok] keys
    by (auto simp: tq_ok_def q'_def sorted_remove1 list_all_iff)
qed

text \<open>What a callback leaves alone: the detached timers, the mode, the cancellations so far.\<close>

definition tq_keeps :: "timer_ptr list \<Rightarrow> timer_queue \<Rightarrow> timer_queue \<Rightarrow> bool" where
  "tq_keeps D q q' \<longleftrightarrow> tq_ok q' \<and> detached D q' \<and> (\<forall>d\<in>set D. tq_heap q' d = tq_heap q d) \<and>
     tq_calling q' = tq_calling q \<and> set (tq_canceling q) \<subseteq> set (tq_canceling q')"

lemma tq_keeps_refl: "tq_ok q \<Longrightarrow> detached D q \<Longrightarrow> tq_keeps D q q"
  by (simp add: tq_keeps_def)

lemma tq_keeps_trans: "tq_keeps D q q' \<Longrightarrow> tq_keeps D q' q'' \<Longrightarrow> tq_keeps D q q''"
  by (auto simp: tq_keeps_def)

lemma tq_keepsD: "tq_keeps D q q' \<Longrightarrow> tq_ok q'" "tq_keeps D q q' \<Longrightarrow> detached D q'"
  by (simp_all add: tq_keeps_def)

lemma Cancel_ok:
  assumes ok: "tq_ok q" and D: "detached D q"
  shows "\<exists>q'. TimerQueue_CancelInLoop True (TimerId p s) q = Inr q' \<and>
    tq_keeps D q q' \<and> (p, s) \<notin> set (tq_active q') \<and>
    set (tq_timers q') \<subseteq> set (tq_timers q) \<and> tq_settime q' = tq_settime q \<and>
    ((p, s) \<notin> set (tq_active q) \<and> tq_calling q \<longrightarrow> (p, s) \<in> set (tq_canceling q'))"
proof (cases "(p, s) \<in> set (tq_active q)")
  case True
  then obtain tm where tm: "tq_heap q p = Some tm" "tm_sequence tm = s" "(tm_expiration tm, p) \<in> set (tq_timers q)"
    using active_iff [OF ok] by auto
  define q' where "q' = q\<lparr>tq_timers := remove1 (tm_expiration tm, p) (tq_timers q), tq_heap := (tq_heap q)(p := None),
    tq_active := remove1 (p, s) (tq_active q)\<rparr>"
  have ok': "tq_ok q'" using remove_entry_ok [OF ok tm(3,1)] tm(2) by (simp add: q'_def)
  have pD: "p \<notin> set D" using D tm(3) by (force simp: detached_def)
  have "TimerQueue_CancelInLoop True (TimerId p s) q = Inr q'"
    using True tm tq_lengths [OF ok] tq_lengths [OF ok'] by (simp add: TimerQueue_CancelInLoop_def deref_def q'_def)
  moreover have "detached D q'"
    using D pD notin_set_remove1 by (fastforce simp: detached_def q'_def list_all_iff)
  ultimately show ?thesis using ok' pD True tq_okD(2,3) [OF ok] by (auto simp: q'_def tq_keeps_def)
next
  case False
  define q' where "q' = (if tq_calling q then q\<lparr>tq_canceling := List.insert (p, s) (tq_canceling q)\<rparr> else q)"
  have "tq_ok q'" "detached D q'" using ok D by (auto simp: q'_def tq_ok_def detached_def)
  moreover have "TimerQueue_CancelInLoop True (TimerId p s) q = Inr q'"
    using False tq_lengths [OF ok] by (simp add: TimerQueue_CancelInLoop_def q'_def)
  ultimately show ?thesis using False by (auto simp: q'_def tq_keeps_def)
qed

lemma tq_ok_heap:
  assumes ok: "tq_ok q" and p: "p \<notin> snd ` set (tq_timers q)"
  shows "tq_ok (q\<lparr>tq_heap := (tq_heap q)(p := x)\<rparr>)"
proof -
  have "active_key ((tq_heap q)(p := x)) e = active_key (tq_heap q) e \<and> entry_ok ((tq_heap q)(p := x)) e"
    if e: "e \<in> set (tq_timers q)" for e
  proof -
    have "snd e \<noteq> p" using p e by auto
    then show ?thesis using key_cong [of "(tq_heap q)(p := x)" e "tq_heap q"] tq_okD(4) [OF ok e] by simp
  qed
  then show ?thesis using tq_okD [OF ok] by (auto simp: tq_ok_def list_all_iff)
qed

lemma tq_ok_alloc:
  assumes ok: "tq_ok q" and p: "tq_heap q p = None"
  shows "tq_ok (q\<lparr>tq_heap := (tq_heap q)(p \<mapsto> tm), tq_num_created := n\<rparr>)" and "p \<notin> snd ` set (tq_timers q)"
proof -
  show new: "p \<notin> snd ` set (tq_timers q)"
    using tq_okD(4) [OF ok] p by (force simp: entry_ok_def)
  show "tq_ok (q\<lparr>tq_heap := (tq_heap q)(p \<mapsto> tm), tq_num_created := n\<rparr>)"
    using tq_ok_heap [OF ok new, of "Some tm"] by (simp add: tq_ok_def)
qed

text \<open>
  The timer descriptor is set no later than the first expiration (or a tenth of a millisecond after
  the call that set it, when that is later).
\<close>

definition armed :: "timer_queue \<Rightarrow> bool" where
  "armed q \<longleftrightarrow> tq_timers q = [] \<or>
     (case tq_settime q of [] \<Rightarrow> False
      | (since, sec, nsec) # _ \<Rightarrow>
          1000 * (MicroSecondsSinceEpoch since + sec * kmicro_seconds_per_second) + nsec
            \<le> 1000 * max (MicroSecondsSinceEpoch (fst (hd (tq_timers q)))) (MicroSecondsSinceEpoch since + 100))"

lemma HowMuchTime_exact:
  assumes "HowMuchTimeFromNow now when = (sec, nsec)"
  shows "1000 * (MicroSecondsSinceEpoch now + sec * kmicro_seconds_per_second) + nsec =
    1000 * max (MicroSecondsSinceEpoch when) (MicroSecondsSinceEpoch now + 100)"
proof -
  define us where "us = (let d = MicroSecondsSinceEpoch when - MicroSecondsSinceEpoch now in if d < 100 then 100 else d)"
  have "sec = cdiv us kmicro_seconds_per_second" "nsec = cmod us kmicro_seconds_per_second * 1000"
    using assms by (simp_all add: HowMuchTimeFromNow_def us_def Let_def)
  then have "1000 * (sec * kmicro_seconds_per_second) + nsec = 1000 * us"
    using cdiv_cmod [of us kmicro_seconds_per_second] by simp
  moreover have "MicroSecondsSinceEpoch now + us = max (MicroSecondsSinceEpoch when) (MicroSecondsSinceEpoch now + 100)"
    by (auto simp: us_def Let_def)
  ultimately show ?thesis by (simp add: distrib_left)
qed

lemma armed_Reset: "fst (hd (tq_timers q)) = t \<Longrightarrow> ResetTimerfd now t q = Inr q' \<Longrightarrow> armed q'"
  using HowMuchTime_exact [of now t]
  by (cases "HowMuchTimeFromNow now t") (auto simp: armed_def ResetTimerfd_def split: if_splits)

lemma armed_cong:
  assumes "tq_timers q' = tq_timers q" and "tq_settime q' = tq_settime q"
  shows "armed q' = armed q"
  unfolding armed_def assms by (rule refl)

lemma armed_later:
  assumes "armed q" and "tq_settime q' = tq_settime q"
    and "tq_timers q' \<noteq> [] \<Longrightarrow> tq_timers q \<noteq> [] \<and> fst (hd (tq_timers q)) \<le> fst (hd (tq_timers q'))"
  shows "armed q'"
proof (cases "tq_timers q' = []")
  case True
  then show ?thesis by (simp add: armed_def)
next
  case False
  note later = assms(3) [OF False]
  from assms(1) later obtain since sec nsec rest where st: "tq_settime q = (since, sec, nsec) # rest"
    and le: "1000 * (MicroSecondsSinceEpoch since + sec * kmicro_seconds_per_second) + nsec
      \<le> 1000 * max (MicroSecondsSinceEpoch (fst (hd (tq_timers q)))) (MicroSecondsSinceEpoch since + 100)"
    by (auto simp: armed_def split: list.splits)
  have "max (MicroSecondsSinceEpoch (fst (hd (tq_timers q)))) (MicroSecondsSinceEpoch since + 100)
      \<le> max (MicroSecondsSinceEpoch (fst (hd (tq_timers q')))) (MicroSecondsSinceEpoch since + 100)"
    using later by (intro max.mono) (auto simp: less_eq_timestamp_def)
  then show ?thesis unfolding armed_def assms(2) st list.case prod.case by (intro disjI2 order_trans [OF le]) simp
qed

lemma hd_insort: "sorted xs \<Longrightarrow> hd (insort x xs) = (if xs = [] \<or> x \<le> hd xs then x else hd xs)"
  by (cases xs) auto

lemma AddTimerInLoop_ok:
  assumes ok: "tq_ok q" and tm: "tq_heap q p = Some tm" and p: "p < UINTPTR_MAX" "p \<notin> snd ` set (tq_timers q)"
  shows "\<exists>q'. TimerQueue_AddTimerInLoop True now p q = Inr q' \<and> tq_ok q' \<and>
    tq_heap q' = tq_heap q \<and> tq_calling q' = tq_calling q \<and> tq_canceling q' = tq_canceling q \<and>
    tq_timers q' = insort (tm_expiration tm, p) (tq_timers q) \<and> (armed q \<longrightarrow> armed q')"
proof -
  obtain q1 where q1: "TimerQueue_Insert p q =
      Inr (tq_timers q = [] \<or> tm_expiration tm < fst (hd (tq_timers q)), q1)" "tq_ok q1"
    "q1 = q\<lparr>tq_timers := insort (tm_expiration tm, p) (tq_timers q),
           tq_active := insort (p, tm_sequence tm) (tq_active q)\<rparr>"
    using Insert_ok [OF assms] by blast
  note first = hd_insort [OF tq_okD(1) [OF ok], of "(tm_expiration tm, p)"]
  show ?thesis
  proof (cases "tq_timers q = [] \<or> tm_expiration tm < fst (hd (tq_timers q))")
    case True
    define q2 where "q2 = q1\<lparr>tq_settime := (now, HowMuchTimeFromNow now (tm_expiration tm)) # tq_settime q1\<rparr>"
    have q2: "ResetTimerfd now (tm_expiration tm) q1 = Inr q2"
      using tq_okD(6) [OF q1(2)] by (simp add: ResetTimerfd_def q2_def)
    have "fst (hd (tq_timers q1)) = tm_expiration tm" using first True q1(3) by (auto simp: less_eq_prod_def)
    from armed_Reset [OF this q2] have "armed q2" .
    moreover have "tq_ok q2" using q1(2) by (simp add: tq_ok_def q2_def)
    moreover have "TimerQueue_AddTimerInLoop True now p q = Inr q2"
      using True q1(1) q2 tm by (simp add: TimerQueue_AddTimerInLoop_def deref_def q1(3))
    ultimately show ?thesis by (intro exI [of _ q2]) (simp add: q2_def q1(3))
  next
    case False
    then have "fst (hd (tq_timers q)) \<le> fst (hd (tq_timers q1))" using first q1(3) by (auto simp: less_eq_prod_def)
    then have "armed q \<longrightarrow> armed q1" using False q1(3) armed_later [of q q1] by auto
    then show ?thesis using False q1 by (auto simp: TimerQueue_AddTimerInLoop_def)
  qed
qed

lemma AddTimer_ok:
  assumes ok: "tq_ok q" and D: "detached D q" and al: "alloc_ok alloc"
  shows "case TimerQueue_AddTimer alloc now cb wh interval q of
      Inl e \<Rightarrow> e = Bad_alloc
    | Inr (TimerId p s, q') \<Rightarrow> tq_keeps D q q' \<and> tq_heap q p = None \<and> (wh, p) \<in> set (tq_timers q') \<and>
        (p, s) \<in> set (tq_active q') \<and> set (tq_timers q') = insert (wh, p) (set (tq_timers q)) \<and> (armed q \<longrightarrow> armed q')"
proof (cases "alloc (tq_heap q)")
  case None
  then show ?thesis by (simp add: TimerQueue_AddTimer_def)
next
  case (Some p)
  with al have p: "tq_heap q p = None" "p < UINTPTR_MAX" by (auto simp: alloc_ok_def)
  obtain tm n where tm: "Timer_new cb wh interval (tq_num_created q) = (tm, n)" by force
  then have exp: "tm_expiration tm = wh" by (auto simp: Timer_new_def split: prod.splits)
  let ?q = "q\<lparr>tq_heap := (tq_heap q)(p \<mapsto> tm), tq_num_created := n\<rparr>"
  note alloc = tq_ok_alloc [OF ok p(1)]
  from AddTimerInLoop_ok [OF alloc(1) [where tm = tm and n = n], where p = p and tm = tm and now = now] p alloc(2) obtain q' where
    q': "TimerQueue_AddTimerInLoop True now p ?q = Inr q'" "tq_ok q'" "tq_heap q' = (tq_heap q)(p \<mapsto> tm)"
      "tq_calling q' = tq_calling q" "tq_canceling q' = tq_canceling q"
      "tq_timers q' = insort (wh, p) (tq_timers q)" "armed ?q \<longrightarrow> armed q'"
    using exp by auto
  have pD: "p \<notin> set D" using D p(1) by (auto simp: detached_def list_all_iff)
  have timers: "set (tq_timers q') = insert (wh, p) (set (tq_timers q))" by (simp add: q'(6) set_insort_key)
  have "detached D q'" using D pD timers by (auto simp: detached_def q'(3) list_all_iff)
  then have "tq_keeps D q q'" using q' pD by (auto simp: tq_keeps_def)
  moreover have "(p, tm_sequence tm) \<in> set (tq_active q')"
    using active_iff [OF q'(2)] timers q'(3) exp by simp
  moreover have "armed ?q = armed q" by (rule armed_cong) simp_all
  ultimately show ?thesis
    using Some tm q'(1,7) p(1) timers by (simp add: TimerQueue_AddTimer_def)
qed

lemma run_actions_ok:
  assumes "tq_ok q" and "detached D q" and "alloc_ok alloc"
  shows "case run_actions alloc now as q of Inl e \<Rightarrow> e = Bad_alloc | Inr q' \<Rightarrow> tq_keeps D q q'"
  using assms(1,2)
proof (induction as arbitrary: q)
  case Nil
  then show ?case by (simp add: tq_keeps_refl)
next
  case (Cons a as)
  have step: "case run_actions alloc now as q1 of Inl e \<Rightarrow> e = Bad_alloc | Inr q' \<Rightarrow> tq_keeps D q q'"
    if "tq_keeps D q q1" for q1
    using Cons.IH [OF tq_keepsD [OF that]] tq_keeps_trans [OF that] by (auto split: sum.splits)
  show ?case
  proof (cases a)
    case (Add_timer cb w interval)
    note add = AddTimer_ok [OF Cons.prems assms(3), where now = now and cb = cb and wh = w and interval = interval]
    show ?thesis
    proof (cases "TimerQueue_AddTimer alloc now cb w interval q")
      case (Inl e)
      with add Add_timer show ?thesis by simp
    next
      case (Inr r)
      then obtain p s q1 where q1: "r = (TimerId p s, q1)" by (metis timer_id.exhaust surj_pair)
      with Inr add have "tq_keeps D q q1" by simp
      with step [of q1] Inr q1 Add_timer show ?thesis by simp
    qed
  next
    case (Cancel_timer tid)
    obtain p s where tid: "tid = TimerId p s" by (cases tid)
    obtain q1 where q1: "TimerQueue_CancelInLoop True tid q = Inr q1" "tq_keeps D q q1"
      using Cancel_ok [OF Cons.prems, of p s] tid by blast
    then show ?thesis using step [OF q1(2)] Cancel_timer by (simp add: TimerQueue_Cancel_def)
  qed
qed

lemma run_expired_ok:
  assumes "tq_ok q" and "detached D q" and "alloc_ok alloc" and "snd ` set es \<subseteq> set D"
  shows "case run_expired alloc script now es q of
      Inl e \<Rightarrow> e = Bad_alloc
    | Inr (fired, q') \<Rightarrow> tq_keeps D q q' \<and> fired = map (\<lambda>e. tm_callback (the (tq_heap q (snd e)))) es"
  using assms(1,2,4)
proof (induction es arbitrary: q)
  case Nil
  then show ?case by (simp add: tq_keeps_refl)
next
  case (Cons e es)
  obtain t p where e: "e = (t, p)" by force
  with Cons.prems(2,3) obtain tm where tm: "tq_heap q p = Some tm"
    by (auto simp: detached_def list_all_iff)
  show ?case
  proof (cases "run_actions alloc now (script (tm_callback tm)) q")
    case (Inl x)
    then show ?thesis using run_actions_ok [OF Cons.prems(1,2) assms(3), of now "script (tm_callback tm)"] e tm
      by (simp add: deref_def)
  next
    case (Inr q1)
    then have k: "tq_keeps D q q1"
      using run_actions_ok [OF Cons.prems(1,2) assms(3), of now "script (tm_callback tm)"] by simp
    have "map (\<lambda>e. tm_callback (the (tq_heap q1 (snd e)))) es = map (\<lambda>e. tm_callback (the (tq_heap q (snd e)))) es"
      using k Cons.prems(3) by (auto simp: tq_keeps_def subset_iff)
    then show ?thesis
      using Cons.IH [OF tq_keepsD [OF k]] Cons.prems(3) tq_keeps_trans [OF k] e tm Inr
      by (auto simp: deref_def split: sum.splits)
  qed
qed

section \<open>Expiry\<close>

lemma takeWhile_eq_filter:
  assumes "sorted xs" and "\<And>x y. x \<le> y \<Longrightarrow> P y \<Longrightarrow> P x"
  shows "takeWhile P xs = filter P xs \<and> dropWhile P xs = filter (\<lambda>x. \<not> P x) xs"
  using assms(1)
proof (induction xs)
  case (Cons x xs)
  show ?case
  proof (cases "P x")
    case False
    then have "\<forall>y\<in>set xs. \<not> P y" using Cons.prems assms(2) by auto
    with False show ?thesis by (simp add: filter_id_conv filter_empty_conv)
  qed (use Cons in simp)
qed simp

lemma expired_filter:
  assumes ok: "tq_ok q"
  shows "takeWhile (\<lambda>e. e < (now, UINTPTR_MAX)) (tq_timers q) = filter (\<lambda>e. fst e \<le> now) (tq_timers q)"
    and "dropWhile (\<lambda>e. e < (now, UINTPTR_MAX)) (tq_timers q) = filter (\<lambda>e. now < fst e) (tq_timers q)"
proof -
  have below: "e < (now, UINTPTR_MAX) \<longleftrightarrow> fst e \<le> now" if "e \<in> set (tq_timers q)" for e
    using tq_okD(4) [OF ok that] by (cases e) (auto simp: entry_ok_def)
  have "(\<lambda>e. e < (now, UINTPTR_MAX)) y \<Longrightarrow> x \<le> y \<Longrightarrow> x < (now, UINTPTR_MAX)" for x y :: timer_entry by simp
  note tw = takeWhile_eq_filter [OF tq_okD(1) [OF ok], of "\<lambda>e. e < (now, UINTPTR_MAX)"]
  show "takeWhile (\<lambda>e. e < (now, UINTPTR_MAX)) (tq_timers q) = filter (\<lambda>e. fst e \<le> now) (tq_timers q)"
    using tw below by (auto cong: filter_cong)
  show "dropWhile (\<lambda>e. e < (now, UINTPTR_MAX)) (tq_timers q) = filter (\<lambda>e. now < fst e) (tq_timers q)"
    using tw below by (auto cong: filter_cong simp: not_le)
qed

lemma erase_active_ok:
  assumes "distinct (tq_active q)" and "distinct es" and "inj_on (active_key (tq_heap q)) (set es)"
    and "active_key (tq_heap q) ` set es \<subseteq> set (tq_active q)" and "list_all (entry_ok (tq_heap q)) es"
  shows "\<exists>act. erase_active es q = Inr (q\<lparr>tq_active := act\<rparr>) \<and> distinct act \<and>
    set act = set (tq_active q) - active_key (tq_heap q) ` set es"
  using assms
proof (induction es arbitrary: q)
  case (Cons e es)
  obtain t p where e: "e = (t, p)" by force
  with Cons.prems(5) obtain tm where tm: "tq_heap q p = Some tm" by (auto simp: entry_ok_def)
  then have key: "active_key (tq_heap q) e = (p, tm_sequence tm)" by (simp add: active_key_def e)
  let ?q = "q\<lparr>tq_active := remove1 (p, tm_sequence tm) (tq_active q)\<rparr>"
  have "active_key (tq_heap q) e \<notin> active_key (tq_heap q) ` set es"
    using Cons.prems(2,3) by (auto simp: inj_on_def)
  then have "active_key (tq_heap q) ` set es \<subseteq> set (tq_active ?q)"
    using Cons.prems(1,4) key by auto
  from Cons.IH [of ?q] this Cons.prems obtain act where
    "erase_active es ?q = Inr (?q\<lparr>tq_active := act\<rparr>)" "distinct act"
      "set act = set (tq_active ?q) - active_key (tq_heap q) ` set es"
    by (auto simp: inj_on_def)
  then show ?case using Cons.prems key tm e by (auto simp: deref_def)
next
  case Nil
  then show ?case by (intro exI [of _ "tq_active q"]) simp
qed

lemma GetExpired_ok:
  fixes now :: timestamp
  assumes ok: "tq_ok q"
  defines "expired \<equiv> filter (\<lambda>e. fst e \<le> now) (tq_timers q)"
  shows "\<exists>q'. TimerQueue_GetExpired now q = Inr (expired, q') \<and> tq_ok q' \<and> detached (map snd expired) q' \<and>
    tq_heap q' = tq_heap q \<and> tq_timers q' = filter (\<lambda>e. now < fst e) (tq_timers q)"
proof -
  define later where "later = filter (\<lambda>e. now < fst e) (tq_timers q)"
  have split: "set (tq_timers q) = set expired \<union> set later" "set expired \<inter> set later = {}"
    by (auto simp: expired_def later_def)
  have inj: "inj_on (active_key (tq_heap q)) (set expired)"
    using key_inj [OF ok] by (rule inj_on_subset) (simp add: expired_def)
  have "\<exists>act. erase_active expired (q\<lparr>tq_timers := later\<rparr>) = Inr (q\<lparr>tq_timers := later, tq_active := act\<rparr>) \<and> distinct act \<and>
      set act = set (tq_active q) - active_key (tq_heap q) ` set expired"
    using erase_active_ok [of "q\<lparr>tq_timers := later\<rparr>" expired] tq_okD [OF ok] inj
    by (auto simp: expired_def list_all_iff)
  then obtain act where act: "erase_active expired (q\<lparr>tq_timers := later\<rparr>) = Inr (q\<lparr>tq_timers := later, tq_active := act\<rparr>)"
    "distinct act" "set act = set (tq_active q) - active_key (tq_heap q) ` set expired" by blast
  define q' where "q' = q\<lparr>tq_timers := later, tq_active := act\<rparr>"
  have "active_key (tq_heap q) ` (set (tq_timers q) - set expired) =
      active_key (tq_heap q) ` set (tq_timers q) - active_key (tq_heap q) ` set expired"
    by (rule inj_on_image_set_diff [OF key_inj [OF ok]]) (auto simp: expired_def)
  moreover have "set (tq_timers q) - set expired = set later" using split by auto
  ultimately have "set act = active_key (tq_heap q) ` set later" using act(3) tq_okD(5) [OF ok] by simp
  then have ok': "tq_ok q'"
    using tq_okD [OF ok] act(2) by (auto simp: tq_ok_def q'_def later_def sorted_wrt_filter list_all_iff)
  have ptrs: "snd e \<noteq> snd e'" if "e \<in> set (tq_timers q)" "e' \<in> set (tq_timers q)" "e \<noteq> e'" for e e'
    using entry_unique [OF tq_okD(4) [OF ok that(1)] tq_okD(4) [OF ok that(2)]] that(3) by blast
  have "distinct (map snd expired)"
    unfolding distinct_map using tq_okD(2) [OF ok] ptrs
    by (metis (no_types, lifting) distinct_filter expired_def filter_is_subset inj_onI subsetD)
  moreover have "snd e \<noteq> snd e'" if "e \<in> set expired" "e' \<in> set later" for e e'
    using ptrs [of e e'] that split by blast
  then have "set (map snd expired) \<inter> snd ` set later = {}" by auto
  moreover have "list_all (\<lambda>p. p < UINTPTR_MAX \<and> tq_heap q p \<noteq> None) (map snd expired)"
    using tq_okD(4) [OF ok] by (fastforce simp: list_all_iff expired_def entry_ok_def)
  ultimately have "detached (map snd expired) q'" by (simp add: detached_def q'_def)
  moreover have "later = [] \<or> now < fst (hd later)"
    using hd_in_set [of later] by (auto simp: later_def)
  then have "TimerQueue_GetExpired now q = Inr (expired, q')"
    using tq_lengths [OF ok] tq_lengths [OF ok'] act(1)
    unfolding TimerQueue_GetExpired_def Let_def expired_filter [OF ok] expired_def [symmetric] later_def [symmetric]
    by (simp add: q'_def)
  ultimately show ?thesis using ok' by (auto simp: q'_def later_def)
qed

text \<open>What \<open>Reset\<close> does with one expired timer.\<close>

definition rearmed :: "timestamp \<Rightarrow> timer_queue \<Rightarrow> timer_queue \<Rightarrow> timer_ptr \<Rightarrow> bool" where
  "rearmed now q q' p \<longleftrightarrow>
     (let tm = the (tq_heap q p) in
      if tm_repeat tm \<and> (p, tm_sequence tm) \<notin> set (tq_canceling q)
      then (AddTime now (tm_interval tm), p) \<in> set (tq_timers q') \<and> (p, tm_sequence tm) \<in> set (tq_active q')
      else tq_heap q' p = None)"

lemma rearmed_cong:
  "tq_heap q p = tq_heap q1 p \<Longrightarrow> tq_canceling q = tq_canceling q1 \<Longrightarrow> rearmed now q q' p = rearmed now q1 q' p"
  by (simp add: rearmed_def)

lemma detached_rest:
  assumes "detached (p # ps) q" and "\<And>d. d \<noteq> p \<Longrightarrow> tq_heap q1 d = tq_heap q d"
    and "set (tq_timers q1) \<subseteq> insert (t, p) (set (tq_timers q))"
  shows "detached ps q1"
proof -
  have D: "distinct ps" "p \<notin> set ps" "list_all (\<lambda>d. d < UINTPTR_MAX \<and> tq_heap q d \<noteq> None) ps"
    "set ps \<inter> insert p (snd ` set (tq_timers q)) = {}"
    using assms(1) by (auto simp: detached_def)
  have "snd ` set (tq_timers q1) \<subseteq> insert p (snd ` set (tq_timers q))" using assms(3) by force
  moreover have "tq_heap q1 d = tq_heap q d" if "d \<in> set ps" for d using that D(2) assms(2) by metis
  ultimately show ?thesis using D unfolding detached_def list_all_iff by (intro conjI) (simp, simp, blast)
qed

text \<open>One turn of the loop of \<open>Reset\<close>.\<close>

lemma reset_one:
  assumes ok: "tq_ok q" and D: "detached (p # ps) q" and tm: "tq_heap q p = Some tm"
  defines "again \<equiv> tm_repeat tm \<and> (p, tm_sequence tm) \<notin> set (tq_canceling q)"
  shows "\<exists>q1. reset_expired now ((t, p) # es) q = reset_expired now es q1 \<and> tq_ok q1 \<and>
    tq_canceling q1 = tq_canceling q \<and> tq_calling q1 = tq_calling q \<and> (\<forall>d. d \<noteq> p \<longrightarrow> tq_heap q1 d = tq_heap q d) \<and>
    set (tq_timers q1) = (if again then insert (AddTime now (tm_interval tm), p) else id) (set (tq_timers q)) \<and>
    tq_heap q1 p = (if again then Some (Timer_Restart now tm) else None)"
proof -
  have p: "p < UINTPTR_MAX" "p \<notin> snd ` set (tq_timers q)" using D by (auto simp: detached_def)
  note ok1 = tq_ok_heap [OF ok p(2)]
  show ?thesis
  proof (cases again)
    case True
    let ?tm = "Timer_Restart now tm"
    have tm': "tm_expiration ?tm = AddTime now (tm_interval tm)" using True by (simp add: again_def Timer_Restart_def)
    from Insert_ok [OF ok1 [of "Some ?tm"], of p ?tm] p tm' obtain ch q1 where
      q1: "TimerQueue_Insert p (q\<lparr>tq_heap := (tq_heap q)(p \<mapsto> ?tm)\<rparr>) = Inr (ch, q1)" "tq_ok q1"
        "q1 = q\<lparr>tq_heap := (tq_heap q)(p \<mapsto> ?tm), tq_timers := insort (AddTime now (tm_interval tm), p) (tq_timers q),
           tq_active := insort (p, tm_sequence ?tm) (tq_active q)\<rparr>" by auto
    then show ?thesis using True tm by (intro exI [of _ q1]) (simp add: deref_def again_def set_insort_key)
  next
    case False
    then show ?thesis using ok1 [of None] tm
      by (intro exI [of _ "q\<lparr>tq_heap := (tq_heap q)(p := None)\<rparr>"]) (auto simp: deref_def again_def)
  qed
qed

lemma reset_expired_ok:
  assumes "tq_ok q" and "detached (map snd es) q"
  shows "\<exists>q'. reset_expired now es q = Inr q' \<and> tq_ok q' \<and> tq_canceling q' = tq_canceling q \<and>
    tq_calling q' = tq_calling q \<and> set (tq_timers q) \<subseteq> set (tq_timers q') \<and>
    (\<forall>p. p \<notin> snd ` set es \<longrightarrow> tq_heap q' p = tq_heap q p) \<and> (\<forall>e\<in>set es. rearmed now q q' (snd e))"
  using assms
proof (induction es arbitrary: q)
  case (Cons e es)
  obtain t p where e: "e = (t, p)" by force
  have D: "detached (p # map snd es) q" using Cons.prems(2) e by simp
  then obtain tm where tm: "tq_heap q p = Some tm" and p: "p \<notin> snd ` set es" by (auto simp: detached_def)
  let ?again = "tm_repeat tm \<and> (p, tm_sequence tm) \<notin> set (tq_canceling q)"
  obtain q1 where q1: "reset_expired now (e # es) q = reset_expired now es q1" "tq_ok q1" "tq_canceling q1 = tq_canceling q"
    "tq_calling q1 = tq_calling q" "\<forall>d. d \<noteq> p \<longrightarrow> tq_heap q1 d = tq_heap q d"
    "set (tq_timers q1) = (if ?again then insert (AddTime now (tm_interval tm), p) else id) (set (tq_timers q))"
    "tq_heap q1 p = (if ?again then Some (Timer_Restart now tm) else None)"
    using reset_one [OF Cons.prems(1) D tm, of now t es] e by auto
  have "detached (map snd es) q1" by (rule detached_rest [OF D, where t = "AddTime now (tm_interval tm)"]) (use q1 in auto)
  from Cons.IH [OF q1(2) this] obtain q' where
    q': "reset_expired now es q1 = Inr q'" "tq_ok q'" "tq_canceling q' = tq_canceling q1" "tq_calling q' = tq_calling q1"
      "set (tq_timers q1) \<subseteq> set (tq_timers q')" "\<forall>p. p \<notin> snd ` set es \<longrightarrow> tq_heap q' p = tq_heap q1 p"
      "\<forall>e\<in>set es. rearmed now q1 q' (snd e)" by blast
  have "rearmed now q q' p"
  proof (cases ?again)
    case True
    then have "(AddTime now (tm_interval tm), p) \<in> set (tq_timers q')" using q1(6) q'(5) by auto
    then show ?thesis using active_iff [OF q'(2)] q'(6) p q1(7) True tm by (auto simp: rearmed_def Timer_Restart_def)
  qed (use q'(6) p q1(7) tm in \<open>auto simp: rearmed_def\<close>)
  moreover have "rearmed now q q' (snd e')" if "e' \<in> set es" for e'
  proof -
    have "snd e' \<noteq> p" using that p by (metis imageI)
    then show ?thesis using q'(7) that rearmed_cong [of q "snd e'" q1 now q'] q1(3,5) by simp
  qed
  moreover have "set (tq_timers q) \<subseteq> set (tq_timers q')" using q1(6) q'(5) by (auto split: if_splits)
  ultimately show ?case using q1(1,3-5) q' e by auto
qed simp

lemma Reset_ok:
  assumes ok: "tq_ok q" and D: "detached (map snd expired) q"
  shows "\<exists>q'. TimerQueue_Reset expired now clock q = Inr q' \<and> tq_ok q' \<and> tq_canceling q' = tq_canceling q \<and>
    tq_calling q' = tq_calling q \<and> set (tq_timers q) \<subseteq> set (tq_timers q') \<and> (\<forall>e\<in>set expired. rearmed now q q' (snd e)) \<and>
    (tq_timers q' \<noteq> [] \<and> Timestamp_Valid (fst (hd (tq_timers q'))) \<longrightarrow> armed q')"
proof -
  obtain q1 where q1: "reset_expired now expired q = Inr q1" "tq_ok q1" "tq_canceling q1 = tq_canceling q"
    "tq_calling q1 = tq_calling q" "set (tq_timers q) \<subseteq> set (tq_timers q1)" "\<forall>e\<in>set expired. rearmed now q q1 (snd e)"
    using reset_expired_ok [OF assms] by blast
  show ?thesis
  proof (cases "tq_timers q1 = []")
    case True
    then show ?thesis using q1 by (auto simp: TimerQueue_Reset_def Timestamp_Valid_def)
  next
    case False
    obtain t p where first: "hd (tq_timers q1) = (t, p)" by force
    then have "(t, p) \<in> set (tq_timers q1)" using False hd_in_set by metis
    from tq_okD(4) [OF q1(2) this] obtain tm where tm: "tq_heap q1 p = Some tm" "tm_expiration tm = t"
      by (auto simp: entry_ok_def)
    show ?thesis
    proof (cases "Timestamp_Valid t")
      case True
      define q2 where "q2 = q1\<lparr>tq_settime := (clock, HowMuchTimeFromNow clock t) # tq_settime q1\<rparr>"
      have r: "ResetTimerfd clock t q1 = Inr q2" using tq_okD(6) [OF q1(2)] by (simp add: ResetTimerfd_def q2_def)
      have "armed q2" using armed_Reset [OF _ r] first by simp
      moreover have "tq_ok q2" using q1(2) by (simp add: tq_ok_def q2_def)
      moreover have "TimerQueue_Reset expired now clock q = Inr q2"
        using q1(1) False first tm True r by (simp add: TimerQueue_Reset_def deref_def)
      moreover have "rearmed now q q2 p = rearmed now q q1 p" for p by (simp add: rearmed_def q2_def)
      ultimately show ?thesis using q1 by (intro exI [of _ q2]) (simp add: q2_def)
    next
      case f: False
      then show ?thesis using q1 False first tm by (auto simp: TimerQueue_Reset_def deref_def)
    qed
  qed
qed

lemma timer_HandleRead_ok:
  assumes ok: "tq_ok q" and al: "alloc_ok alloc"
  shows "case TimerQueue_HandleRead alloc script True now clock q of
      Inl e \<Rightarrow> e = Bad_alloc
    | Inr (fired, q') \<Rightarrow>
        fired = map (\<lambda>e. tm_callback (the (tq_heap q (snd e)))) (filter (\<lambda>e. fst e \<le> now) (tq_timers q)) \<and>
        tq_ok q' \<and> \<not> tq_calling q' \<and>
        (\<forall>e\<in>set (tq_timers q). fst e \<le> now \<longrightarrow> rearmed now (q\<lparr>tq_canceling := tq_canceling q'\<rparr>) q' (snd e)) \<and>
        (tq_timers q' \<noteq> [] \<and> Timestamp_Valid (fst (hd (tq_timers q'))) \<longrightarrow> armed q')"
proof -
  define expired where "expired = filter (\<lambda>e. fst e \<le> now) (tq_timers q)"
  obtain q1 where q1: "TimerQueue_GetExpired now q = Inr (expired, q1)" "tq_ok q1" "detached (map snd expired) q1"
    "tq_heap q1 = tq_heap q" using GetExpired_ok [OF ok, of now] by (auto simp: expired_def)
  let ?q1 = "q1\<lparr>tq_calling := True, tq_canceling := []\<rparr>"
  have "tq_ok ?q1" "detached (map snd expired) ?q1" using q1(2,3) by (simp_all add: tq_ok_def detached_def)
  note run = run_expired_ok [OF this al, of expired script clock]
  show ?thesis
  proof (cases "run_expired alloc script clock expired ?q1")
    case (Inl e)
    then show ?thesis using run q1(1) by (simp add: TimerQueue_HandleRead_def)
  next
    case (Inr r)
    obtain fired q2 where r: "r = (fired, q2)" by force
    with Inr run q1(4) have keeps: "tq_keeps (map snd expired) ?q1 q2"
      and fired: "fired = map (\<lambda>e. tm_callback (the (tq_heap q (snd e)))) expired" by auto
    let ?q2 = "q2\<lparr>tq_calling := False\<rparr>"
    have "tq_ok ?q2" "detached (map snd expired) ?q2"
      using tq_keepsD [OF keeps] by (simp_all add: tq_ok_def detached_def)
    from Reset_ok [OF this, of now clock] obtain q3 where
      q3: "TimerQueue_Reset expired now clock ?q2 = Inr q3" "tq_ok q3" "tq_canceling q3 = tq_canceling q2"
        "\<not> tq_calling q3" "\<forall>e\<in>set expired. rearmed now ?q2 q3 (snd e)"
        "tq_timers q3 \<noteq> [] \<and> Timestamp_Valid (fst (hd (tq_timers q3))) \<longrightarrow> armed q3" by auto
    have "rearmed now (q\<lparr>tq_canceling := tq_canceling q3\<rparr>) q3 (snd e)" if "e \<in> set expired" for e
      using q3(3,5) that keeps q1(4) rearmed_cong [of ?q2 "snd e" "q\<lparr>tq_canceling := tq_canceling q3\<rparr>" now q3]
      by (auto simp: tq_keeps_def)
    then show ?thesis
      using Inr r q1(1) q3 fired by (simp add: TimerQueue_HandleRead_def expired_def)
  qed
qed

section \<open>Cancelling from a callback\<close>

lemma detached_inactive: "tq_ok q \<Longrightarrow> detached D q \<Longrightarrow> p \<in> set D \<Longrightarrow> (p, s) \<notin> set (tq_active q)"
  using active_iff [of q p s] by (force simp: detached_def)

lemma run_actions_cancels:
  assumes "tq_ok q" and "detached D q" and "alloc_ok alloc" and "tq_calling q" and "p \<in> set D"
    and "Cancel_timer (TimerId p s) \<in> set as" and "run_actions alloc now as q = Inr q'"
  shows "(p, s) \<in> set (tq_canceling q')"
  using assms(1,2,4,6,7)
proof (induction as arbitrary: q)
  case (Cons a as)
  obtain q1 where q1: "run_actions alloc now [a] q = Inr q1" "run_actions alloc now as q1 = Inr q'"
    using Cons.prems(5) by (cases a) (auto simp: res_simps)
  have k1: "tq_keeps D q q1" using run_actions_ok [OF Cons.prems(1,2) assms(3), of now "[a]"] q1(1) by simp
  have k2: "tq_keeps D q1 q'" using run_actions_ok [OF tq_keepsD [OF k1] assms(3), of now as] q1(2) by simp
  show ?case
  proof (cases "a = Cancel_timer (TimerId p s)")
    case True
    have "(p, s) \<notin> set (tq_active q)" using detached_inactive [OF Cons.prems(1,2) assms(5)] .
    then have "(p, s) \<in> set (tq_canceling q1)"
      using Cancel_ok [OF Cons.prems(1,2), of p s] Cons.prems(3) q1(1) True by (auto simp: TimerQueue_Cancel_def)
    then show ?thesis using k2 by (auto simp: tq_keeps_def)
  next
    case False
    have "tq_calling q1" using k1 Cons.prems(3) by (simp add: tq_keeps_def)
    then show ?thesis using Cons.IH [OF tq_keepsD [OF k1] _ _ q1(2)] Cons.prems(4) False by auto
  qed
qed simp

lemma run_expired_cancels:
  assumes "tq_ok q" and "detached D q" and "alloc_ok alloc" and "snd ` set es \<subseteq> set D" and "tq_calling q" and "p \<in> set D"
    and "e \<in> set es" and "Cancel_timer (TimerId p s) \<in> set (script (tm_callback (the (tq_heap q (snd e)))))"
    and "run_expired alloc script now es q = Inr (fired, q')"
  shows "(p, s) \<in> set (tq_canceling q')"
  using assms(1,2,4,5,7-9)
proof (induction es arbitrary: q fired)
  case (Cons x es)
  obtain t d where x: "x = (t, d)" by force
  with Cons.prems(2,3) obtain tm where tm: "tq_heap q d = Some tm" by (auto simp: detached_def list_all_iff)
  from Cons.prems(7) x tm obtain q1 fired1 where
    q1: "run_actions alloc now (script (tm_callback tm)) q = Inr q1" "run_expired alloc script now es q1 = Inr (fired1, q')"
    by (auto simp: deref_def res_simps)
  have k1: "tq_keeps D q q1" using run_actions_ok [OF Cons.prems(1,2) assms(3), of now "script (tm_callback tm)"] q1(1) by simp
  have sub: "snd ` set es \<subseteq> set D" using Cons.prems(3) by auto
  have k2: "tq_keeps D q1 q'" using run_expired_ok [OF tq_keepsD [OF k1] assms(3) sub, of script now] q1(2) by simp
  show ?case
  proof (cases "e = x")
    case True
    then have "Cancel_timer (TimerId p s) \<in> set (script (tm_callback tm))" using Cons.prems(6) x tm by simp
    from run_actions_cancels [OF Cons.prems(1,2) assms(3) Cons.prems(4) assms(6) this q1(1)]
    show ?thesis using k2 by (auto simp: tq_keeps_def)
  next
    case False
    then have e: "e \<in> set es" using Cons.prems(5) by simp
    then have "tq_heap q1 (snd e) = tq_heap q (snd e)" using k1 sub by (auto simp: tq_keeps_def)
    moreover have "tq_calling q1" using k1 Cons.prems(4) by (simp add: tq_keeps_def)
    ultimately show ?thesis using Cons.IH [OF tq_keepsD [OF k1] sub _ e _ q1(2)] Cons.prems(6) by simp
  qed
qed simp

lemma HandleRead_cancels:
  assumes ok: "tq_ok q" and al: "alloc_ok alloc"
    and e: "e \<in> set (tq_timers q)" "fst e \<le> now" and p: "(t, p) \<in> set (tq_timers q)" "t \<le> now"
    and c: "Cancel_timer (TimerId p s) \<in> set (script (tm_callback (the (tq_heap q (snd e)))))"
    and r: "TimerQueue_HandleRead alloc script True now clock q = Inr (fired, q')"
  shows "(p, s) \<in> set (tq_canceling q')"
proof -
  define expired where "expired = filter (\<lambda>e. fst e \<le> now) (tq_timers q)"
  obtain q1 where q1: "TimerQueue_GetExpired now q = Inr (expired, q1)" "tq_ok q1" "detached (map snd expired) q1"
    "tq_heap q1 = tq_heap q" using GetExpired_ok [OF ok, of now] by (auto simp: expired_def)
  let ?q1 = "q1\<lparr>tq_calling := True, tq_canceling := []\<rparr>"
  have ok1: "tq_ok ?q1" "detached (map snd expired) ?q1" using q1(2,3) by (simp_all add: tq_ok_def detached_def)
  from r q1(1) obtain q2 where q2: "run_expired alloc script clock expired ?q1 = Inr (fired, q2)"
    "TimerQueue_Reset expired now clock (q2\<lparr>tq_calling := False\<rparr>) = Inr q'"
    by (auto simp: TimerQueue_HandleRead_def res_simps)
  have "p \<in> set (map snd expired)" using p by (force simp: expired_def)
  then have "(p, s) \<in> set (tq_canceling q2)"
    using run_expired_cancels [OF ok1 al _ _ _ _ _ q2(1), of p e] e c q1(4) by (simp add: expired_def)
  moreover have k: "tq_keeps (map snd expired) ?q1 q2" using run_expired_ok [OF ok1 al, of expired script clock] q2(1) by simp
  then have "tq_ok (q2\<lparr>tq_calling := False\<rparr>)" "detached (map snd expired) (q2\<lparr>tq_calling := False\<rparr>)"
    using tq_keepsD [OF k] by (simp_all add: tq_ok_def detached_def)
  from Reset_ok [OF this, of now clock] q2(2) have "tq_canceling q' = tq_canceling q2" by auto
  ultimately show ?thesis by simp
qed

section \<open>Sequences of calls\<close>

datatype timer_call =
    Call_add nat timestamp rat timestamp
  | Call_cancel timer_id
  | Timer_fires "nat \<Rightarrow> timer_action list" timestamp timestamp

fun timer_run :: "(timer_heap \<Rightarrow> timer_ptr option) \<Rightarrow> timer_call list \<Rightarrow> timer_queue \<Rightarrow> timer_queue result" where
  "timer_run alloc [] q = Inr q"
| "timer_run alloc (Call_add cb w interval now # cs) q =
     bindr (TimerQueue_AddTimer alloc now cb w interval q) (\<lambda>(tid, q'). timer_run alloc cs q')"
| "timer_run alloc (Call_cancel tid # cs) q = bindr (TimerQueue_Cancel tid q) (timer_run alloc cs)"
| "timer_run alloc (Timer_fires script now clock # cs) q =
     bindr (TimerQueue_HandleRead alloc script True now clock q) (\<lambda>(fired, q'). timer_run alloc cs q')"

lemma detached_Nil [simp]: "detached [] q"
  by (simp add: detached_def)

lemma timer_run_ok:
  assumes "tq_ok q" and "alloc_ok alloc"
  shows "case timer_run alloc cs q of Inl e \<Rightarrow> e = Bad_alloc | Inr q' \<Rightarrow> tq_ok q'"
  using assms(1)
proof (induction cs arbitrary: q)
  case (Cons c cs)
  show ?case
  proof (cases c)
    case (Call_add cb w interval now)
    have "case TimerQueue_AddTimer alloc now cb w interval q of Inl e \<Rightarrow> e = Bad_alloc | Inr (i, q') \<Rightarrow> tq_ok q'"
      using AddTimer_ok [OF Cons.prems detached_Nil assms(2), where now = now and cb = cb and wh = w and interval = interval]
      by (auto split: sum.splits timer_id.splits) (metis timer_id.exhaust tq_keepsD(1))
    then show ?thesis using Cons.IH Call_add by (cases "TimerQueue_AddTimer alloc now cb w interval q") auto
  next
    case (Call_cancel tid)
    obtain p s where "tid = TimerId p s" by (cases tid)
    with Cancel_ok [OF Cons.prems detached_Nil, of p s] Call_cancel Cons.IH show ?thesis
      by (auto simp: TimerQueue_Cancel_def dest: tq_keepsD)
  next
    case (Timer_fires script now clock)
    have "case TimerQueue_HandleRead alloc script True now clock q of Inl e \<Rightarrow> e = Bad_alloc | Inr (f, q') \<Rightarrow> tq_ok q'"
      using timer_HandleRead_ok [OF Cons.prems assms(2), where script = script and now = now and clock = clock] by (auto split: sum.splits)
    then show ?thesis using Cons.IH Timer_fires by (cases "TimerQueue_HandleRead alloc script True now clock q") auto
  qed
qed simp

lemma sorted_hd_le: "sorted xs \<Longrightarrow> x \<in> set xs \<Longrightarrow> xs \<noteq> [] \<and> hd xs \<le> x"
  by (cases xs) auto

section \<open>Properties\<close>

lemma TimerQueue_new_ok [simp]: "tq_ok TimerQueue_new" "armed TimerQueue_new"
  by (simp_all add: tq_ok_def armed_def TimerQueue_new_def)

definition sample_alloc :: "timer_heap \<Rightarrow> timer_ptr option" where
  "sample_alloc h = (if h 4096 = None then Some 4096 else if h 8192 = None then Some 8192 else None)"

lemma sample_alloc_ok [simp]: "alloc_ok sample_alloc"
  by (simp add: alloc_ok_def sample_alloc_def UINTPTR_MAX_def)

definition sample_timer :: timer where
  "sample_timer = \<lparr>tm_callback = 7, tm_expiration = Timestamp 1000, tm_interval = 2, tm_repeat = True, tm_sequence = 1\<rparr>"

definition sample_queue :: timer_queue where
  "sample_queue = TimerQueue_new\<lparr>tq_heap := [4096 \<mapsto> sample_timer], tq_timers := [(Timestamp 1000, 4096)],
     tq_active := [(4096, 1)], tq_num_created := 1, tq_settime := [(Timestamp 0, 0, 1000000)]\<rparr>"

lemma sample_queue_ok [simp]: "tq_ok sample_queue"
  by (simp add: tq_ok_def sample_queue_def sample_timer_def TimerQueue_new_def entry_ok_def active_key_def UINTPTR_MAX_def)

text \<open>C7. The timer queue is safe: starting from an empty queue, any sequence of \<open>AddTimer\<close>, \<open>Cancel\<close> (of any
  id, also a stale one) and timer expirations whose callbacks themselves add and cancel timers ends
  either with a failed allocation or with a queue whose two sets agree; no assert fails and no
  deleted timer is touched, provided \<open>operator new\<close> returns unused addresses.\<close>

theorem timer_queue_safe:
  assumes "alloc_ok alloc"
  shows "case timer_run alloc cs TimerQueue_new of Inl e \<Rightarrow> e = Bad_alloc | Inr q \<Rightarrow> tq_ok q"
  using TimerQueue_new_ok(1) assms by (rule timer_run_ok)

theorem timer_queue_safe_witness:
  "case timer_run sample_alloc
      [Call_add 1 (Timestamp 10) 2 (Timestamp 1), Timer_fires (\<lambda>_. [Cancel_timer (TimerId 4096 1)]) (Timestamp 11) (Timestamp 12)]
      TimerQueue_new of Inl e \<Rightarrow> e = Bad_alloc | Inr q \<Rightarrow> tq_ok q"
  by (rule timer_queue_safe [OF sample_alloc_ok])

text \<open>C8. \<open>HandleRead\<close> fires what is due: it runs the callbacks of exactly the timers whose expiration is
  not after \<open>now\<close>, each once and in order of expiration; afterwards a repeating timer that was not
  cancelled meanwhile is back in the queue, one interval after \<open>now\<close>, and every other fired timer is
  deleted; the queue is consistent, and if a timer remains the descriptor is armed for the first one.\<close>

theorem HandleRead_fires_due:
  assumes "tq_ok q" and "alloc_ok alloc"
  shows "case TimerQueue_HandleRead alloc script True now clock q of
      Inl e \<Rightarrow> e = Bad_alloc
    | Inr (fired, q') \<Rightarrow>
        fired = map (\<lambda>e. tm_callback (the (tq_heap q (snd e)))) (filter (\<lambda>e. fst e \<le> now) (tq_timers q)) \<and>
        tq_ok q' \<and> \<not> tq_calling q' \<and>
        (\<forall>e\<in>set (tq_timers q). fst e \<le> now \<longrightarrow> rearmed now (q\<lparr>tq_canceling := tq_canceling q'\<rparr>) q' (snd e)) \<and>
        (tq_timers q' \<noteq> [] \<and> Timestamp_Valid (fst (hd (tq_timers q'))) \<longrightarrow> armed q')"
  using assms by (rule timer_HandleRead_ok)

theorem HandleRead_fires_due_witness:
  "case TimerQueue_HandleRead sample_alloc (\<lambda>_. []) True (Timestamp 1000) (Timestamp 1001) sample_queue of
     Inl e \<Rightarrow> e = Bad_alloc
   | Inr (fired, q') \<Rightarrow> fired = [7] \<and> tq_ok q'"
  using HandleRead_fires_due [OF sample_queue_ok sample_alloc_ok,
      where script = "\<lambda>_. []" and now = "Timestamp 1000" and clock = "Timestamp 1001"]
  by (auto simp: sample_queue_def sample_timer_def less_eq_timestamp_def split: sum.splits)

text \<open>Cancelling works from inside the callbacks: when a callback that runs in a round of \<open>HandleRead\<close>
  cancels a timer that expired in the same round (its own or another), that timer is not put back
  even if it repeats; it is deleted.\<close>

theorem cancel_in_callback:
  assumes "tq_ok q" and "alloc_ok alloc"
    and "e \<in> set (tq_timers q)" and "fst e \<le> now" and "(t, p) \<in> set (tq_timers q)" and "t \<le> now"
    and "Cancel_timer (TimerId p (tm_sequence (the (tq_heap q p)))) \<in> set (script (tm_callback (the (tq_heap q (snd e)))))"
    and "TimerQueue_HandleRead alloc script True now clock q = Inr (fired, q')"
  shows "tq_heap q' p = None \<and> (t', p) \<notin> set (tq_timers q')"
proof -
  have c: "(p, tm_sequence (the (tq_heap q p))) \<in> set (tq_canceling q')" using HandleRead_cancels [OF assms] .
  have "tq_ok q' \<and> rearmed now (q\<lparr>tq_canceling := tq_canceling q'\<rparr>) q' p"
    using timer_HandleRead_ok [OF assms(1,2), where script = script and now = now and clock = clock] assms(5,6,8) by force
  with c have "tq_ok q'" "tq_heap q' p = None" by (auto simp: rearmed_def)
  then show ?thesis using tq_okD(4) [of q' "(t', p)"] by (auto simp: entry_ok_def)
qed

theorem cancel_in_callback_witness:
  "\<exists>fired q'. TimerQueue_HandleRead sample_alloc (\<lambda>_. [Cancel_timer (TimerId 4096 1)]) True (Timestamp 1000) (Timestamp 1001)
     sample_queue = Inr (fired, q') \<and> tq_heap q' 4096 = None"
proof -
  have "\<exists>fired q'. TimerQueue_HandleRead sample_alloc (\<lambda>_. [Cancel_timer (TimerId 4096 1)]) True (Timestamp 1000) (Timestamp 1001)
     sample_queue = Inr (fired, q')"
    by (simp add: TimerQueue_HandleRead_def AssertInLoopThread_def TimerQueue_GetExpired_def sample_queue_def sample_timer_def
        UINTPTR_MAX_def deref_def TimerQueue_new_def TimerQueue_Cancel_def TimerQueue_CancelInLoop_def TimerQueue_Reset_def
        Timestamp_Valid_def MicroSecondsSinceEpoch_def less_prod_def less_eq_timestamp_def less_timestamp_def Timestamp_less_def Let_def)
  then obtain fired q' where r: "TimerQueue_HandleRead sample_alloc (\<lambda>_. [Cancel_timer (TimerId 4096 1)]) True
     (Timestamp 1000) (Timestamp 1001) sample_queue = Inr (fired, q')" by blast
  from cancel_in_callback [OF sample_queue_ok sample_alloc_ok _ _ _ _ _ r, of "(Timestamp 1000, 4096)" "Timestamp 1000" 4096]
  have "tq_heap q' 4096 = None" by (simp add: sample_queue_def sample_timer_def)
  with r show ?thesis by blast
qed

text \<open>C20. The timer descriptor is never set too late: if it is armed for the first timer of the queue, it
  still is after \<open>AddTimer\<close> and after \<open>Cancel\<close>; the seconds and nanoseconds handed to the kernel are
  exactly the microseconds until the expiration, but at least 100.\<close>

theorem timerfd_armed:
  assumes "tq_ok q" and "alloc_ok alloc" and "armed q"
  shows "(case TimerQueue_AddTimer alloc now cb wh interval q of Inl e \<Rightarrow> e = Bad_alloc | Inr (i, q') \<Rightarrow> armed q')
    \<and> (\<exists>q'. TimerQueue_Cancel tid q = Inr q' \<and> armed q')
    \<and> (case HowMuchTimeFromNow now wh of (sec, nsec) \<Rightarrow>
         1000 * (sec * kmicro_seconds_per_second) + nsec =
           1000 * max 100 (MicroSecondsSinceEpoch wh - MicroSecondsSinceEpoch now))"
proof (intro conjI)
  show "case TimerQueue_AddTimer alloc now cb wh interval q of Inl e \<Rightarrow> e = Bad_alloc | Inr (i, q') \<Rightarrow> armed q'"
    using AddTimer_ok [OF assms(1) detached_Nil assms(2), where now = now and cb = cb and wh = wh and interval = interval] assms(3)
    by (auto split: sum.splits timer_id.splits) (metis timer_id.exhaust)
  obtain p s where "tid = TimerId p s" by (cases tid)
  then obtain q' where q': "TimerQueue_Cancel tid q = Inr q'" "set (tq_timers q') \<subseteq> set (tq_timers q)" "tq_settime q' = tq_settime q"
    using Cancel_ok [OF assms(1) detached_Nil, of p s] by (auto simp: TimerQueue_Cancel_def)
  have "tq_timers q \<noteq> [] \<and> fst (hd (tq_timers q)) \<le> fst (hd (tq_timers q'))" if "tq_timers q' \<noteq> []"
  proof -
    have "hd (tq_timers q') \<in> set (tq_timers q)" using that q'(2) hd_in_set by blast
    then have "tq_timers q \<noteq> [] \<and> hd (tq_timers q) \<le> hd (tq_timers q')" by (rule sorted_hd_le [OF tq_okD(1) [OF assms(1)]])
    then show ?thesis by (auto simp: less_eq_prod_def)
  qed
  from armed_later [OF assms(3) q'(3) this] q'(1) show "\<exists>q'. TimerQueue_Cancel tid q = Inr q' \<and> armed q'" by blast
  show "case HowMuchTimeFromNow now wh of (sec, nsec) \<Rightarrow>
         1000 * (sec * kmicro_seconds_per_second) + nsec =
           1000 * max 100 (MicroSecondsSinceEpoch wh - MicroSecondsSinceEpoch now)"
    using HowMuchTime_exact [of now wh] by (cases "HowMuchTimeFromNow now wh") (auto simp: max_def split: if_splits)
qed

theorem timerfd_armed_witness:
  "\<exists>q'. TimerQueue_Cancel (TimerId 4096 1) sample_queue = Inr q' \<and> armed q'"
proof -
  have "armed sample_queue" by (simp add: armed_def sample_queue_def kmicro_seconds_per_second_def)
  from timerfd_armed [OF sample_queue_ok sample_alloc_ok this, of _ _ _ _ "TimerId 4096 1"] show ?thesis by blast
qed

end
