(* ===== verification/EventLoop.thy ===== *)
theory EventLoop
  imports TimerQueue
begin

text \<open>
  \<open>dwater/net/event_loop.h\<close>, \<open>event_loop.cc\<close>, \<open>event_loop_thread_pool.h\<close> and \<open>event_loop_thread_pool.cc\<close>.
  The record has the members of \<open>EventLoop\<close>; its poller and its timer queue are the models of the theories
  \<open>Poller\<close> and \<open>TimerQueue\<close>, reached through the operations here. A functor is a number; \<open>script f\<close> is the
  list of calls it makes on its loop when it runs, and \<open>handler c\<close> the calls made by the handling of an
  event of channel \<open>c\<close>. The loop's thread and the other threads interleave: \<open>loop_step\<close> has one rule per
  atomic piece of \<open>Loop\<close>, \<open>DoPendingFunctors\<close>, \<open>QueueInLoop\<close> and \<open>Quit\<close>, the critical sections of \<open>mutex_\<close>
  being atomic. The counter of the event descriptor is \<open>el_wakeup\<close>.
\<close>

section \<open>The loop\<close>

type_synonym loop_functor_id = nat

record event_loop =
  el_looping :: bool
  el_quit :: bool
  el_event_handling :: bool
  el_calling_pending_functors :: bool
  el_iteration :: "64 word"
  el_poll_return_time :: timestamp
  el_wakeup :: nat
  el_wakeup_channel :: chan_ptr
  el_active_channels :: "chan_ptr list"
  el_curr_active_channel :: "chan_ptr option"
  el_pending_functors :: "loop_functor_id list"

text \<open>The constructor: \<open>in_this_thread\<close> is \<open>t_loop_in_this_thread\<close>; a second loop in a thread is fatal.\<close>

definition EventLoop_new :: "nat option \<Rightarrow> chan_ptr \<Rightarrow> event_loop result" where
  "EventLoop_new in_this_thread wakeup_channel =
     (if in_this_thread \<noteq> None then Inl Log_fatal
      else Inr \<lparr>el_looping = False, el_quit = False, el_event_handling = False, el_calling_pending_functors = False,
                el_iteration = 0, el_poll_return_time = Timestamp 0, el_wakeup = 0, el_wakeup_channel = wakeup_channel,
                el_active_channels = [], el_curr_active_channel = None, el_pending_functors = []\<rparr>)"

definition EventLoop_IsInLoopThread :: "nat \<Rightarrow> nat \<Rightarrow> bool" where
  "EventLoop_IsInLoopThread thread_id current_tid \<longleftrightarrow> thread_id = current_tid"

text \<open>The largest value of an event descriptor's counter; a write beyond it fails with \<open>EAGAIN\<close>.\<close>

definition eventfd_max :: nat where
  "eventfd_max = 2 ^ 64 - 2"

definition EventLoop_Wakeup :: "event_loop \<Rightarrow> event_loop" where
  "EventLoop_Wakeup l = (if el_wakeup l + 1 \<le> eventfd_max then l\<lparr>el_wakeup := el_wakeup l + 1\<rparr> else l)"

definition EventLoop_HandleRead :: "event_loop \<Rightarrow> event_loop" where
  "EventLoop_HandleRead l = l\<lparr>el_wakeup := 0\<rparr>"

definition push_functor :: "loop_functor_id \<Rightarrow> event_loop \<Rightarrow> event_loop" where
  "push_functor cb l = l\<lparr>el_pending_functors := el_pending_functors l @ [cb]\<rparr>"

definition EventLoop_QueueInLoop :: "bool \<Rightarrow> loop_functor_id \<Rightarrow> event_loop \<Rightarrow> event_loop" where
  "EventLoop_QueueInLoop in_loop cb l =
     (let l1 = push_functor cb l
      in if \<not> in_loop \<or> el_calling_pending_functors l1 then EventLoop_Wakeup l1 else l1)"

definition EventLoop_Quit :: "bool \<Rightarrow> event_loop \<Rightarrow> event_loop" where
  "EventLoop_Quit in_loop l = (let l1 = l\<lparr>el_quit := True\<rparr> in if \<not> in_loop then EventLoop_Wakeup l1 else l1)"

definition EventLoop_QueueSize :: "event_loop \<Rightarrow> nat" where
  "EventLoop_QueueSize l = length (el_pending_functors l)"

section \<open>Timers and channels\<close>

definition EventLoop_RunAt ::
  "(timer_heap \<Rightarrow> timer_ptr option) \<Rightarrow> timestamp \<Rightarrow> timestamp \<Rightarrow> nat \<Rightarrow> timer_queue \<Rightarrow> (timer_id \<times> timer_queue) result" where
  "EventLoop_RunAt alloc now time cb q = TimerQueue_AddTimer alloc now cb time 0 q"

definition EventLoop_RunAfter ::
  "(timer_heap \<Rightarrow> timer_ptr option) \<Rightarrow> timestamp \<Rightarrow> rat \<Rightarrow> nat \<Rightarrow> timer_queue \<Rightarrow> (timer_id \<times> timer_queue) result" where
  "EventLoop_RunAfter alloc now delay cb q = EventLoop_RunAt alloc now (AddTime now delay) cb q"

definition EventLoop_RunEvery ::
  "(timer_heap \<Rightarrow> timer_ptr option) \<Rightarrow> timestamp \<Rightarrow> rat \<Rightarrow> nat \<Rightarrow> timer_queue \<Rightarrow> (timer_id \<times> timer_queue) result" where
  "EventLoop_RunEvery alloc now interval cb q = TimerQueue_AddTimer alloc now cb (AddTime now interval) interval q"

definition EventLoop_Cancel :: "timer_id \<Rightarrow> timer_queue \<Rightarrow> timer_queue result" where
  "EventLoop_Cancel tid q = TimerQueue_Cancel tid q"

text \<open>\<open>owner\<close> is whether the channel's \<open>OwnerLoop()\<close> is this loop; the poller's operation is an argument.\<close>

definition EventLoop_UpdateChannel ::
  "(chan_ptr \<Rightarrow> chan_store \<Rightarrow> 'p \<Rightarrow> (chan_store \<times> 'p) result) \<Rightarrow> bool \<Rightarrow> bool \<Rightarrow> chan_ptr \<Rightarrow> chan_store \<Rightarrow> 'p \<Rightarrow>
     (chan_store \<times> 'p) result" where
  "EventLoop_UpdateChannel update owner in_loop c st p =
     c_assert owner (AssertInLoopThread in_loop (update c st p))"

definition EventLoop_RemoveChannel ::
  "(chan_ptr \<Rightarrow> chan_store \<Rightarrow> 'p \<Rightarrow> (chan_store \<times> 'p) result) \<Rightarrow> event_loop \<Rightarrow> bool \<Rightarrow> bool \<Rightarrow> chan_ptr \<Rightarrow> chan_store \<Rightarrow> 'p \<Rightarrow>
     (chan_store \<times> 'p) result" where
  "EventLoop_RemoveChannel remove l owner in_loop c st p =
     c_assert owner (AssertInLoopThread in_loop
       (c_assert (el_event_handling l \<longrightarrow> el_curr_active_channel l = Some c \<or> c \<notin> set (el_active_channels l))
         (remove c st p)))"

definition EventLoop_HasChannel ::
  "bool \<Rightarrow> bool \<Rightarrow> (int \<times> chan_ptr) list \<Rightarrow> chan_ptr \<Rightarrow> chan_store \<Rightarrow> bool result" where
  "EventLoop_HasChannel owner in_loop channels c st =
     c_assert owner (AssertInLoopThread in_loop (Poller_HasChannel in_loop channels c st))"

section \<open>Calls on the loop\<close>

datatype loop_call = Do_run loop_functor_id | Do_queue loop_functor_id | Do_quit

text \<open>
  A call made in the loop's thread, with the calls that follow it: \<open>RunInLoop\<close> runs the functor at once,
  so its calls come first.
\<close>

fun loop_call_exec ::
  "(loop_functor_id \<Rightarrow> loop_call list) \<Rightarrow> loop_call \<Rightarrow> loop_call list \<Rightarrow> event_loop \<Rightarrow> loop_call list \<times> event_loop" where
  "loop_call_exec script (Do_run f) rest l = (script f @ rest, l)"
| "loop_call_exec script (Do_queue f) rest l = (rest, EventLoop_QueueInLoop True f l)"
| "loop_call_exec script Do_quit rest l = (rest, EventLoop_Quit True l)"

text \<open>\<open>RunInLoop\<close> as such: in the loop's thread the calls of the functor, otherwise it is queued.\<close>

definition EventLoop_RunInLoop ::
  "(loop_functor_id \<Rightarrow> loop_call list) \<Rightarrow> bool \<Rightarrow> loop_functor_id \<Rightarrow> event_loop \<Rightarrow> loop_call list \<times> event_loop" where
  "EventLoop_RunInLoop script in_loop cb l =
     (if in_loop then (script cb, l) else ([], EventLoop_QueueInLoop False cb l))"

section \<open>The system of threads\<close>

text \<open>
  Where the loop's thread is: before \<open>Loop\<close> (with the calls it still makes there), at the test of
  \<open>quit_\<close>, in \<open>Poll\<close>, handling the active channels, at the start of \<open>DoPendingFunctors\<close>, before and after the
  swap, out of the loop.
\<close>

datatype loop_pc =
    Before "loop_call list"
  | Test
  | Polling
  | Dispatch "chan_ptr list" "loop_call list"
  | Pending_start
  | Swapping
  | Running "loop_functor_id list" "loop_call list"
  | Stopped

text \<open>
  \<open>ls_wakers\<close> counts the other threads that have queued a functor or set \<open>quit_\<close> and have not written to
  the event descriptor yet. \<open>ls_queued\<close> and \<open>ls_started\<close> are the history of the queue, \<open>ls_early\<close> whether a
  functor was queued by the loop's thread before the loop ran and is still there.
\<close>

record loop_system =
  ls_loop :: event_loop
  ls_pc :: loop_pc
  ls_wakers :: nat
  ls_queued :: "loop_functor_id list"
  ls_started :: "loop_functor_id list"
  ls_early :: bool

definition Loop_enter :: "event_loop \<Rightarrow> event_loop" where
  "Loop_enter l = l\<lparr>el_looping := True, el_quit := False\<rparr>"

definition Loop_polled :: "timestamp \<Rightarrow> chan_ptr list \<Rightarrow> event_loop \<Rightarrow> event_loop" where
  "Loop_polled now active l =
     l\<lparr>el_active_channels := active, el_poll_return_time := now, el_iteration := el_iteration l + 1,
       el_event_handling := True\<rparr>"

definition Loop_handled :: "event_loop \<Rightarrow> event_loop" where
  "Loop_handled l = l\<lparr>el_curr_active_channel := None, el_event_handling := False\<rparr>"

text \<open>The three pieces of \<open>DoPendingFunctors\<close> around the running of the functors swapped out.\<close>

definition DoPendingFunctors_begin :: "event_loop \<Rightarrow> event_loop" where
  "DoPendingFunctors_begin l = l\<lparr>el_calling_pending_functors := True\<rparr>"

definition DoPendingFunctors_swap :: "event_loop \<Rightarrow> event_loop" where
  "DoPendingFunctors_swap l = l\<lparr>el_pending_functors := []\<rparr>"

definition DoPendingFunctors_end :: "event_loop \<Rightarrow> event_loop" where
  "DoPendingFunctors_end l = l\<lparr>el_calling_pending_functors := False\<rparr>"

definition queued_by :: "loop_call \<Rightarrow> loop_functor_id list" where
  "queued_by c = (case c of Do_queue f \<Rightarrow> [f] | _ \<Rightarrow> [])"

inductive loop_step ::
  "(loop_functor_id \<Rightarrow> loop_call list) \<Rightarrow> (chan_ptr \<Rightarrow> loop_call list) \<Rightarrow> loop_system \<Rightarrow> loop_system \<Rightarrow> bool"
  for script handler where
  before_call: "ls_pc s = Before (c # cs) \<Longrightarrow> loop_call_exec script c cs (ls_loop s) = (cs', l') \<Longrightarrow>
    loop_step script handler s (s\<lparr>ls_loop := l', ls_pc := Before cs', ls_queued := ls_queued s @ queued_by c,
      ls_early := ls_early s \<or> queued_by c \<noteq> []\<rparr>)"
| enter: "ls_pc s = Before [] \<Longrightarrow>
    loop_step script handler s (s\<lparr>ls_loop := Loop_enter (ls_loop s), ls_pc := Test\<rparr>)"
| go_on: "ls_pc s = Test \<Longrightarrow> \<not> el_quit (ls_loop s) \<Longrightarrow>
    loop_step script handler s (s\<lparr>ls_loop := (ls_loop s)\<lparr>el_active_channels := []\<rparr>, ls_pc := Polling\<rparr>)"
| stop: "ls_pc s = Test \<Longrightarrow> el_quit (ls_loop s) \<Longrightarrow>
    loop_step script handler s (s\<lparr>ls_loop := (ls_loop s)\<lparr>el_looping := False\<rparr>, ls_pc := Stopped\<rparr>)"
| poll: "ls_pc s = Polling \<Longrightarrow> (el_wakeup_channel (ls_loop s) \<in> set active \<longrightarrow> 0 < el_wakeup (ls_loop s)) \<Longrightarrow>
    loop_step script handler s (s\<lparr>ls_loop := Loop_polled now active (ls_loop s), ls_pc := Dispatch active []\<rparr>)"
| handle: "ls_pc s = Dispatch (c # cs) [] \<Longrightarrow> c \<noteq> el_wakeup_channel (ls_loop s) \<Longrightarrow>
    loop_step script handler s (s\<lparr>ls_loop := (ls_loop s)\<lparr>el_curr_active_channel := Some c\<rparr>, ls_pc := Dispatch cs (handler c)\<rparr>)"
| handle_wakeup: "ls_pc s = Dispatch (c # cs) [] \<Longrightarrow> c = el_wakeup_channel (ls_loop s) \<Longrightarrow>
    loop_step script handler s (s\<lparr>ls_loop := EventLoop_HandleRead ((ls_loop s)\<lparr>el_curr_active_channel := Some c\<rparr>),
      ls_pc := Dispatch cs []\<rparr>)"
| handle_call: "ls_pc s = Dispatch cs (k # ks) \<Longrightarrow> loop_call_exec script k ks (ls_loop s) = (ks', l') \<Longrightarrow>
    loop_step script handler s (s\<lparr>ls_loop := l', ls_pc := Dispatch cs ks', ls_queued := ls_queued s @ queued_by k\<rparr>)"
| handled: "ls_pc s = Dispatch [] [] \<Longrightarrow>
    loop_step script handler s (s\<lparr>ls_loop := Loop_handled (ls_loop s), ls_pc := Pending_start\<rparr>)"
| pending: "ls_pc s = Pending_start \<Longrightarrow>
    loop_step script handler s (s\<lparr>ls_loop := DoPendingFunctors_begin (ls_loop s), ls_pc := Swapping\<rparr>)"
| swap: "ls_pc s = Swapping \<Longrightarrow>
    loop_step script handler s (s\<lparr>ls_loop := DoPendingFunctors_swap (ls_loop s),
      ls_pc := Running (el_pending_functors (ls_loop s)) [], ls_early := False\<rparr>)"
| run: "ls_pc s = Running (f # fs) [] \<Longrightarrow>
    loop_step script handler s (s\<lparr>ls_pc := Running fs (script f), ls_started := ls_started s @ [f]\<rparr>)"
| run_call: "ls_pc s = Running fs (k # ks) \<Longrightarrow> loop_call_exec script k ks (ls_loop s) = (ks', l') \<Longrightarrow>
    loop_step script handler s (s\<lparr>ls_loop := l', ls_pc := Running fs ks', ls_queued := ls_queued s @ queued_by k\<rparr>)"
| ran_all: "ls_pc s = Running [] [] \<Longrightarrow>
    loop_step script handler s (s\<lparr>ls_loop := DoPendingFunctors_end (ls_loop s), ls_pc := Test\<rparr>)"
| other_queues: "loop_step script handler s
    (s\<lparr>ls_loop := push_functor f (ls_loop s), ls_wakers := Suc (ls_wakers s), ls_queued := ls_queued s @ [f]\<rparr>)"
| other_quits: "loop_step script handler s
    (s\<lparr>ls_loop := (ls_loop s)\<lparr>el_quit := True\<rparr>, ls_wakers := Suc (ls_wakers s)\<rparr>)"
| other_wakes: "ls_wakers s = Suc n \<Longrightarrow>
    loop_step script handler s (s\<lparr>ls_loop := EventLoop_Wakeup (ls_loop s), ls_wakers := n\<rparr>)"

definition loop_start :: "chan_ptr \<Rightarrow> loop_call list \<Rightarrow> loop_system" where
  "loop_start w cs = (case EventLoop_new None w of Inr l \<Rightarrow>
     \<lparr>ls_loop = l, ls_pc = Before cs, ls_wakers = 0, ls_queued = [], ls_started = [], ls_early = False\<rparr>)"

inductive loop_reach ::
  "(loop_functor_id \<Rightarrow> loop_call list) \<Rightarrow> (chan_ptr \<Rightarrow> loop_call list) \<Rightarrow> loop_system \<Rightarrow> loop_system \<Rightarrow> bool"
  for script handler s0 where
  here: "loop_reach script handler s0 s0"
| on: "loop_reach script handler s0 s \<Longrightarrow> loop_step script handler s s' \<Longrightarrow> loop_reach script handler s0 s'"

section \<open>The invariant\<close>

definition batch :: "loop_pc \<Rightarrow> loop_functor_id list" where
  "batch pc = (case pc of Running fs ks \<Rightarrow> fs | _ \<Rightarrow> [])"

text \<open>Before the loop polls again it swaps the queue out.\<close>

fun will_swap :: "loop_pc \<Rightarrow> bool" where
  "will_swap (Dispatch cs ks) \<longleftrightarrow> True"
| "will_swap Pending_start \<longleftrightarrow> True"
| "will_swap Swapping \<longleftrightarrow> True"
| "will_swap _ \<longleftrightarrow> False"

fun in_pending :: "loop_pc \<Rightarrow> bool" where
  "in_pending Swapping \<longleftrightarrow> True"
| "in_pending (Running fs ks) \<longleftrightarrow> True"
| "in_pending _ \<longleftrightarrow> False"

definition wake_coming :: "loop_system \<Rightarrow> bool" where
  "wake_coming s \<longleftrightarrow> 0 < el_wakeup (ls_loop s) \<or> 0 < ls_wakers s"

definition loop_inv :: "loop_system \<Rightarrow> bool" where
  "loop_inv s \<longleftrightarrow>
     ls_queued s = ls_started s @ batch (ls_pc s) @ el_pending_functors (ls_loop s) \<and>
     (el_calling_pending_functors (ls_loop s) \<longleftrightarrow> in_pending (ls_pc s)) \<and>
     (el_pending_functors (ls_loop s) \<noteq> [] \<longrightarrow> wake_coming s \<or> ls_early s \<or> will_swap (ls_pc s)) \<and>
     (el_quit (ls_loop s) \<and> ls_pc s = Polling \<longrightarrow> wake_coming s) \<and>
     (ls_early s \<or> (\<exists>cs. ls_pc s = Before cs) \<longrightarrow> ls_started s = [] \<and> batch (ls_pc s) = [])"

lemma Wakeup_simps [simp]:
  "0 < el_wakeup (EventLoop_Wakeup l)" "el_pending_functors (EventLoop_Wakeup l) = el_pending_functors l"
  "el_calling_pending_functors (EventLoop_Wakeup l) = el_calling_pending_functors l" "el_quit (EventLoop_Wakeup l) = el_quit l"
  by (auto simp: EventLoop_Wakeup_def eventfd_max_def)

declare DoPendingFunctors_begin_def [simp] DoPendingFunctors_swap_def [simp] DoPendingFunctors_end_def [simp]

lemma push_simps [simp]:
  "el_pending_functors (push_functor f l) = el_pending_functors l @ [f]" "el_wakeup (push_functor f l) = el_wakeup l"
  "el_calling_pending_functors (push_functor f l) = el_calling_pending_functors l" "el_quit (push_functor f l) = el_quit l"
  by (simp_all add: push_functor_def)

text \<open>What a call in the loop's thread does to the queue and to the counter.\<close>

lemma call_exec_queue:
  assumes "loop_call_exec script k ks l = (ks', l')"
  shows "el_pending_functors l' = el_pending_functors l @ queued_by k" and
    "el_calling_pending_functors l' = el_calling_pending_functors l" and
    "0 < el_wakeup l \<Longrightarrow> 0 < el_wakeup l'" and
    "queued_by k \<noteq> [] \<Longrightarrow> el_calling_pending_functors l \<Longrightarrow> 0 < el_wakeup l'"
  using assms by (cases k; auto simp: EventLoop_QueueInLoop_def EventLoop_Quit_def queued_by_def Let_def split: if_splits)+

lemma loop_step_inv:
  assumes "loop_step script handler s s'" and "loop_inv s"
  shows "loop_inv s'"
  using assms
proof (induction rule: loop_step.induct)
  case (before_call s c cs cs' l')
  note q = call_exec_queue [OF before_call(2)]
  show ?case using before_call q by (cases "queued_by c") (auto simp: loop_inv_def batch_def wake_coming_def)
next
  case (handle_call s cs k ks ks' l')
  note q = call_exec_queue [OF handle_call(2)]
  show ?case using handle_call q by (auto simp: loop_inv_def batch_def wake_coming_def)
next
  case (run_call s fs k ks ks' l')
  note q = call_exec_queue [OF run_call(2)]
  show ?case using run_call q by (cases "queued_by k") (auto simp: loop_inv_def batch_def wake_coming_def)
next
  case (other_queues s f)
  then show ?case by (auto simp: loop_inv_def wake_coming_def)
next
  case (other_quits s)
  then show ?case by (auto simp: loop_inv_def wake_coming_def)
next
  case (other_wakes s n)
  then show ?case by (auto simp: loop_inv_def wake_coming_def)
qed (auto simp: loop_inv_def batch_def wake_coming_def Loop_enter_def Loop_polled_def Loop_handled_def EventLoop_HandleRead_def)

lemma loop_reach_inv:
  assumes "loop_reach script handler (loop_start w cs) s"
  shows "loop_inv s"
  using assms
proof (induction rule: loop_reach.induct)
  case here
  then show ?case by (simp add: loop_inv_def loop_start_def EventLoop_new_def batch_def)
next
  case (on s s')
  then show ?case by (blast intro: loop_step_inv)
qed

section \<open>Properties of the loop\<close>

text \<open>C21. No lost wake-up: whenever the loop's thread is in \<open>Poll\<close> and there is work for it (a queued functor,
  or \<open>quit_\<close> set), the event descriptor is readable or another thread is about to write to it; so \<open>Poll\<close> does
  not wait its full ten seconds. The one exception is a functor queued by the loop's own thread before
  \<open>Loop\<close> was entered, during the first iteration: \<open>QueueInLoop\<close> wakes nobody then.\<close>

theorem no_lost_wakeup:
  assumes "loop_reach script handler (loop_start w cs) s" and "ls_pc s = Polling"
    and "el_pending_functors (ls_loop s) \<noteq> [] \<or> el_quit (ls_loop s)"
  shows "0 < el_wakeup (ls_loop s) \<or> 0 < ls_wakers s \<or> (ls_early s \<and> ls_started s = [])"
  using loop_reach_inv [OF assms(1)] assms(2,3) by (auto simp: loop_inv_def wake_coming_def)

text \<open>C22. Every functor queued with \<open>QueueInLoop\<close>, by any thread, is run at most once and in the order of
  queueing: at any moment those started, those of the batch being run and those pending make up, in this
  order, exactly those queued. The two flags of the loop say where its thread is.\<close>

theorem functors_in_order:
  assumes "loop_reach script handler (loop_start w cs) s"
  shows "ls_queued s = ls_started s @ batch (ls_pc s) @ el_pending_functors (ls_loop s) \<and>
    (el_calling_pending_functors (ls_loop s) \<longleftrightarrow> in_pending (ls_pc s))"
  using loop_reach_inv [OF assms] by (simp add: loop_inv_def)

text \<open>The loop's thread alone gets through one round: no event, then the pending functors.\<close>

definition flat :: "loop_call list \<Rightarrow> bool" where
  "flat ks \<longleftrightarrow> list_all (\<lambda>k. \<forall>f. k \<noteq> Do_run f) ks"

lemma loop_reach_trans:
  "loop_reach script handler b c \<Longrightarrow> loop_reach script handler a b \<Longrightarrow> loop_reach script handler a c"
  by (induction rule: loop_reach.induct) (auto intro: loop_reach.intros)

lemma run_calls_done:
  assumes "ls_pc s = Running fs ks" and "flat ks"
  shows "\<exists>s'. loop_reach script handler s s' \<and> ls_pc s' = Running fs [] \<and> ls_started s' = ls_started s"
  using assms
proof (induction ks arbitrary: s)
  case Nil
  then show ?case by (auto intro: loop_reach.here)
next
  case (Cons k ks)
  obtain ks' l' where x: "loop_call_exec script k ks (ls_loop s) = (ks', l')" by fastforce
  have "ks' = ks" using x Cons.prems(2) by (cases k) (auto simp: flat_def)
  let ?s = "s\<lparr>ls_loop := l', ls_pc := Running fs ks, ls_queued := ls_queued s @ queued_by k\<rparr>"
  have "loop_step script handler s ?s" using loop_step.run_call [OF Cons.prems(1) x] \<open>ks' = ks\<close> by simp
  then have "loop_reach script handler s ?s" by (rule loop_reach.on [OF loop_reach.here])
  moreover obtain s' where "loop_reach script handler ?s s'" "ls_pc s' = Running fs []" "ls_started s' = ls_started s"
    using Cons.IH [of ?s] Cons.prems(2) by (auto simp: flat_def)
  ultimately show ?case using loop_reach_trans by blast
qed

lemma run_batch_done:
  assumes "ls_pc s = Running fs []" and "\<And>f. flat (script f)"
  shows "\<exists>s'. loop_reach script handler s s' \<and> ls_started s' = ls_started s @ fs"
  using assms(1)
proof (induction fs arbitrary: s)
  case Nil
  then show ?case by (auto intro: loop_reach.here)
next
  case (Cons f fs)
  let ?s = "s\<lparr>ls_pc := Running fs (script f), ls_started := ls_started s @ [f]\<rparr>"
  have "loop_reach script handler s ?s" using loop_step.run [OF Cons.prems] loop_reach.intros by blast
  moreover obtain s1 where "loop_reach script handler ?s s1" "ls_pc s1 = Running fs []" "ls_started s1 = ls_started s @ [f]"
    using run_calls_done [of ?s fs "script f" script handler] assms(2) by auto
  moreover obtain s' where "loop_reach script handler s1 s'" "ls_started s' = ls_started s1 @ fs"
    using Cons.IH \<open>ls_pc s1 = Running fs []\<close> by blast
  ultimately show ?case using loop_reach_trans by (metis append.assoc append_Cons append_Nil)
qed

lemma poll_round:
  assumes "ls_pc s = Polling"
  shows "\<exists>s'. loop_reach script handler s s' \<and> ls_pc s' = Running (el_pending_functors (ls_loop s)) [] \<and>
    ls_started s' = ls_started s"
proof -
  let ?a = "s\<lparr>ls_loop := Loop_polled (Timestamp 0) [] (ls_loop s), ls_pc := Dispatch [] []\<rparr>"
  let ?b = "?a\<lparr>ls_loop := Loop_handled (ls_loop ?a), ls_pc := Pending_start\<rparr>"
  let ?c = "?b\<lparr>ls_loop := DoPendingFunctors_begin (ls_loop ?b), ls_pc := Swapping\<rparr>"
  let ?d = "?c\<lparr>ls_loop := DoPendingFunctors_swap (ls_loop ?c),
      ls_pc := Running (el_pending_functors (ls_loop ?c)) [], ls_early := False\<rparr>"
  have "loop_step script handler s ?a" using assms by (intro loop_step.poll) auto
  moreover have "loop_step script handler ?a ?b" by (rule loop_step.handled) simp
  moreover have "loop_step script handler ?b ?c" by (rule loop_step.pending) simp
  moreover have "loop_step script handler ?c ?d" by (rule loop_step.swap) simp
  ultimately have "loop_reach script handler s ?d" by (meson loop_reach.intros)
  then show ?thesis by (intro exI [of _ ?d]) (simp add: Loop_polled_def Loop_handled_def)
qed

text \<open>A loop that polls while another thread has queued functor 7 and not yet woken it.\<close>

definition polling_system :: "chan_ptr \<Rightarrow> loop_system" where
  "polling_system w = (let s0 = loop_start w [] in s0\<lparr>ls_loop := Loop_enter (ls_loop s0), ls_pc := Polling\<rparr>)"

definition sample_system :: loop_system where
  "sample_system = (let s = polling_system 9 in
     s\<lparr>ls_loop := push_functor 7 (ls_loop s), ls_wakers := 1, ls_queued := [7]\<rparr>)"

lemma polling_reach: "loop_reach script handler (loop_start w []) (polling_system w)"
proof -
  let ?s0 = "loop_start w []"
  let ?s1 = "?s0\<lparr>ls_loop := Loop_enter (ls_loop ?s0), ls_pc := Test\<rparr>"
  let ?s2 = "?s1\<lparr>ls_loop := (ls_loop ?s1)\<lparr>el_active_channels := []\<rparr>, ls_pc := Polling\<rparr>"
  have "loop_step script handler ?s0 ?s1" by (rule loop_step.enter) (simp add: loop_start_def EventLoop_new_def)
  moreover have "loop_step script handler ?s1 ?s2" by (rule loop_step.go_on) (simp_all add: Loop_enter_def)
  moreover have "?s2 = polling_system w" by (simp add: polling_system_def loop_start_def EventLoop_new_def Loop_enter_def Let_def)
  ultimately show ?thesis by (metis loop_reach.intros)
qed

lemma sample_system_reach: "loop_reach script handler (loop_start 9 []) sample_system"
proof -
  let ?p = "polling_system 9"
  have "?p\<lparr>ls_loop := push_functor 7 (ls_loop ?p), ls_wakers := Suc (ls_wakers ?p), ls_queued := ls_queued ?p @ [7]\<rparr> = sample_system"
    by (simp add: sample_system_def polling_system_def loop_start_def EventLoop_new_def Let_def)
  then have "loop_step script handler ?p sample_system" using loop_step.other_queues [of script handler ?p 7] by simp
  then show ?thesis by (rule loop_reach.on [OF polling_reach])
qed

lemma sample_system_facts:
  "ls_pc sample_system = Polling" "el_pending_functors (ls_loop sample_system) = [7]" "ls_queued sample_system = [7]"
  by (simp_all add: sample_system_def polling_system_def loop_start_def EventLoop_new_def Loop_enter_def push_functor_def Let_def)

theorem no_lost_wakeup_witness:
  "ls_pc sample_system = Polling \<and> (0 < el_wakeup (ls_loop sample_system) \<or> 0 < ls_wakers sample_system \<or>
     (ls_early sample_system \<and> ls_started sample_system = []))"
  using no_lost_wakeup [OF sample_system_reach sample_system_facts(1)] by (simp add: sample_system_facts)

theorem functors_in_order_witness:
  "[7] = ls_started sample_system @ batch Polling @ [7]"
  using functors_in_order [OF sample_system_reach] by (simp add: sample_system_facts)



text \<open>The end of a round without pending functors.\<close>

lemma idle_round:
  assumes "ls_pc s = Dispatch [] []" and "el_pending_functors (ls_loop s) = []" and "\<not> el_quit (ls_loop s)"
  shows "\<exists>s'. loop_reach script handler s s' \<and> ls_pc s' = Polling \<and> \<not> el_quit (ls_loop s') \<and>
    el_wakeup (ls_loop s') = el_wakeup (ls_loop s) \<and> ls_wakers s' = ls_wakers s \<and> el_pending_functors (ls_loop s') = []"
proof -
  let ?a = "s\<lparr>ls_loop := Loop_handled (ls_loop s), ls_pc := Pending_start\<rparr>"
  let ?b = "?a\<lparr>ls_loop := DoPendingFunctors_begin (ls_loop ?a), ls_pc := Swapping\<rparr>"
  let ?c = "?b\<lparr>ls_loop := DoPendingFunctors_swap (ls_loop ?b), ls_pc := Running [] [], ls_early := False\<rparr>"
  let ?d = "?c\<lparr>ls_loop := DoPendingFunctors_end (ls_loop ?c), ls_pc := Test\<rparr>"
  let ?e = "?d\<lparr>ls_loop := (ls_loop ?d)\<lparr>el_active_channels := []\<rparr>, ls_pc := Polling\<rparr>"
  have nil: "el_pending_functors (ls_loop ?b) = []" using assms(2) by (simp add: Loop_handled_def)
  have a: "loop_reach script handler s ?a" by (rule loop_reach.on [OF loop_reach.here], rule loop_step.handled) (rule assms(1))
  have b: "loop_reach script handler s ?b" by (rule loop_reach.on [OF a], rule loop_step.pending) simp
  have "loop_step script handler ?b ?c" using loop_step.swap [of ?b script handler] unfolding nil by simp
  then have c: "loop_reach script handler s ?c" by (rule loop_reach.on [OF b])
  have d: "loop_reach script handler s ?d" by (rule loop_reach.on [OF c], rule loop_step.ran_all) simp
  have "loop_reach script handler s ?e"
    by (rule loop_reach.on [OF d], rule loop_step.go_on) (use assms(3) in \<open>simp_all add: Loop_handled_def\<close>)
  then show ?thesis using assms(3) by (intro exI [of _ ?e]) (simp add: Loop_handled_def)
qed

text \<open>A \<open>Quit\<close> from another thread that comes before the loop's thread has entered \<open>Loop\<close> is lost: \<open>Loop\<close>
  clears \<open>quit_\<close>, and after one round for the wake-up the loop polls with nothing pending, and waits. The
  destructor of \<open>EventLoopThread\<close> then joins a thread that does not end.\<close>

theorem quit_before_loop_lost:
  "let s0 = loop_start w []; s1 = s0\<lparr>ls_loop := EventLoop_Quit False (ls_loop s0)\<rparr>
   in loop_reach script handler s0 s1 \<and> (\<exists>s. loop_reach script handler s1 s \<and> ls_pc s = Polling \<and>
     \<not> el_quit (ls_loop s) \<and> el_wakeup (ls_loop s) = 0 \<and> ls_wakers s = 0 \<and> el_pending_functors (ls_loop s) = [])"
proof -
  define s0 where "s0 = loop_start w []"
  define s1 where "s1 = s0\<lparr>ls_loop := EventLoop_Quit False (ls_loop s0)\<rparr>"
  let ?q = "s0\<lparr>ls_loop := (ls_loop s0)\<lparr>el_quit := True\<rparr>, ls_wakers := Suc (ls_wakers s0)\<rparr>"
  have "loop_step script handler s0 ?q" by (rule loop_step.other_quits)
  moreover have "loop_step script handler ?q (?q\<lparr>ls_loop := EventLoop_Wakeup (ls_loop ?q), ls_wakers := ls_wakers s0\<rparr>)"
    by (rule loop_step.other_wakes) simp
  moreover have "?q\<lparr>ls_loop := EventLoop_Wakeup (ls_loop ?q), ls_wakers := ls_wakers s0\<rparr> = s1"
    by (simp add: s1_def EventLoop_Quit_def Let_def)
  ultimately have r1: "loop_reach script handler s0 s1" by (metis loop_reach.intros)
  note defs = s1_def s0_def loop_start_def EventLoop_new_def EventLoop_Quit_def EventLoop_Wakeup_def eventfd_max_def Let_def
    Loop_enter_def Loop_polled_def Loop_handled_def EventLoop_HandleRead_def
  let ?a = "s1\<lparr>ls_loop := Loop_enter (ls_loop s1), ls_pc := Test\<rparr>"
  let ?b = "?a\<lparr>ls_loop := (ls_loop ?a)\<lparr>el_active_channels := []\<rparr>, ls_pc := Polling\<rparr>"
  let ?c = "?b\<lparr>ls_loop := Loop_polled (Timestamp 0) [w] (ls_loop ?b), ls_pc := Dispatch [w] []\<rparr>"
  let ?d = "?c\<lparr>ls_loop := EventLoop_HandleRead ((ls_loop ?c)\<lparr>el_curr_active_channel := Some w\<rparr>), ls_pc := Dispatch [] []\<rparr>"
  have to_a: "loop_reach script handler s1 ?a" by (rule loop_reach.on [OF loop_reach.here], rule loop_step.enter) (simp add: defs)
  have to_b: "loop_reach script handler s1 ?b" by (rule loop_reach.on [OF to_a], rule loop_step.go_on) (simp_all add: defs)
  have to_c: "loop_reach script handler s1 ?c" by (rule loop_reach.on [OF to_b], rule loop_step.poll) (simp_all add: defs)
  have to_d: "loop_reach script handler s1 ?d" by (rule loop_reach.on [OF to_c], rule loop_step.handle_wakeup) (simp_all add: defs)
  from idle_round [of ?d script handler] obtain s where
    "loop_reach script handler ?d s" "ls_pc s = Polling" "\<not> el_quit (ls_loop s)" "el_wakeup (ls_loop s) = 0" "ls_wakers s = 0"
    "el_pending_functors (ls_loop s) = []"
    by (auto simp: defs)
  then show ?thesis
    using r1 to_d loop_reach_trans unfolding s0_def [symmetric] Let_def s1_def [symmetric] by blast
qed

section \<open>The pool of loops\<close>

text \<open>
  \<open>EventLoopThreadPool\<close>: a loop is a number; \<open>start_loop name\<close> is the loop that \<open>StartLoop\<close> of a new
  \<open>EventLoopThread\<close> with that name returns. The names come from a buffer of \<open>name_.size() + 32\<close> characters,
  which is enough for any \<open>int\<close>.
\<close>

type_synonym loop_ptr = nat

record loop_pool =
  lp_base_loop :: loop_ptr
  lp_name :: string
  lp_started :: bool
  lp_num_thread :: int
  lp_next :: int
  lp_threads :: "string list"
  lp_loops :: "loop_ptr list"

definition EventLoopThreadPool_new :: "loop_ptr \<Rightarrow> string \<Rightarrow> loop_pool" where
  "EventLoopThreadPool_new base_loop name =
     \<lparr>lp_base_loop = base_loop, lp_name = name, lp_started = False, lp_num_thread = 0, lp_next = 0,
      lp_threads = [], lp_loops = []\<rparr>"

definition EventLoopThreadPool_SetThreadNum :: "int \<Rightarrow> loop_pool \<Rightarrow> loop_pool" where
  "EventLoopThreadPool_SetThreadNum n p = p\<lparr>lp_num_thread := n\<rparr>"

fun start_threads :: "(string \<Rightarrow> loop_ptr) \<Rightarrow> nat \<Rightarrow> nat \<Rightarrow> loop_pool \<Rightarrow> loop_pool" where
  "start_threads start_loop i 0 p = p"
| "start_threads start_loop i (Suc n) p =
     (let buf = lp_name p @ int_dec (int i)
      in start_threads start_loop (Suc i) n
           (p\<lparr>lp_threads := lp_threads p @ [buf], lp_loops := lp_loops p @ [start_loop buf]\<rparr>))"

text \<open>The loops the initial callback is called on are returned first.\<close>

definition EventLoopThreadPool_Start ::
  "(string \<Rightarrow> loop_ptr) \<Rightarrow> bool \<Rightarrow> bool \<Rightarrow> loop_pool \<Rightarrow> (loop_ptr list \<times> loop_pool) result" where
  "EventLoopThreadPool_Start start_loop has_cb in_loop p =
     c_assert (\<not> lp_started p) (AssertInLoopThread in_loop
       (let p1 = start_threads start_loop 0 (nat (lp_num_thread p)) (p\<lparr>lp_started := True\<rparr>)
        in Inr (if has_cb then (if lp_num_thread p1 = 0 then [lp_base_loop p1] else lp_loops p1) else [], p1)))"

definition EventLoopThreadPool_GetNextLoop :: "bool \<Rightarrow> loop_pool \<Rightarrow> (loop_ptr \<times> loop_pool) result" where
  "EventLoopThreadPool_GetNextLoop in_loop p =
     AssertInLoopThread in_loop (c_assert (lp_started p)
       (if lp_loops p \<noteq> []
        then if lp_next p < 0 \<or> int (length (lp_loops p)) \<le> lp_next p then Inl Bad_access
             else let loop = lp_loops p ! nat (lp_next p);
                      next1 = lp_next p + 1
                  in Inr (loop, p\<lparr>lp_next := if next1 \<ge> int (length (lp_loops p)) then 0 else next1\<rparr>)
        else Inr (lp_base_loop p, p)))"

definition EventLoopThreadPool_GetLoopForHash :: "bool \<Rightarrow> nat \<Rightarrow> loop_pool \<Rightarrow> loop_ptr result" where
  "EventLoopThreadPool_GetLoopForHash in_loop hash_code p =
     AssertInLoopThread in_loop
      (Inr (if lp_loops p \<noteq> [] then lp_loops p ! (hash_code mod length (lp_loops p)) else lp_base_loop p))"

definition EventLoopThreadPool_GetAllLoops :: "bool \<Rightarrow> loop_pool \<Rightarrow> loop_ptr list result" where
  "EventLoopThreadPool_GetAllLoops in_loop p =
     AssertInLoopThread in_loop (c_assert (lp_started p)
       (Inr (if lp_loops p = [] then [lp_base_loop p] else lp_loops p)))"

text \<open>A number of calls of \<open>GetNextLoop\<close> in a row, as \<open>TcpServer::NewConnection\<close> makes them.\<close>

fun next_loops :: "nat \<Rightarrow> loop_pool \<Rightarrow> loop_ptr list result" where
  "next_loops 0 p = Inr []"
| "next_loops (Suc k) p =
     bindr (EventLoopThreadPool_GetNextLoop True p) (\<lambda>(l, p'). bindr (next_loops k p') (\<lambda>ls. Inr (l # ls)))"

lemma start_threads_loops:
  "lp_loops (start_threads sl i n p) = lp_loops p @ map (\<lambda>j. sl (lp_name p @ int_dec (int j))) [i..<i + n]"
  "lp_started (start_threads sl i n p) = lp_started p" "lp_next (start_threads sl i n p) = lp_next p"
  "lp_base_loop (start_threads sl i n p) = lp_base_loop p"
  by (induction n arbitrary: i p) (simp_all add: Let_def upt_conv_Cons del: upt_Suc)

lemma next_loops_cycle:
  assumes "lp_started p" and "lp_loops p \<noteq> []" and "lp_next p = int (j mod length (lp_loops p))"
  shows "next_loops k p = Inr (map (\<lambda>i. lp_loops p ! ((j + i) mod length (lp_loops p))) [0..<k])"
  using assms
proof (induction k arbitrary: p j)
  case (Suc k)
  let ?n = "length (lp_loops p)"
  let ?p = "p\<lparr>lp_next := if lp_next p + 1 \<ge> int ?n then 0 else lp_next p + 1\<rparr>"
  have n: "0 < ?n" "j mod ?n < ?n" using Suc.prems(2) by auto
  have "(if int r + 1 \<ge> int ?n then 0 else int r + 1) = int (if Suc r = ?n then 0 else Suc r)" if "r < ?n" for r
    using that by auto
  from this [OF n(2)] have "lp_next ?p = int (Suc j mod ?n)" using Suc.prems(3) by (simp only: mod_Suc) simp
  then have ih: "next_loops k ?p = Inr (map (\<lambda>i. lp_loops p ! ((Suc j + i) mod ?n)) [0..<k])"
    using Suc.IH [of ?p "Suc j"] Suc.prems by simp
  have "EventLoopThreadPool_GetNextLoop True p = Inr (lp_loops p ! (j mod ?n), ?p)"
    using Suc.prems n by (simp add: EventLoopThreadPool_GetNextLoop_def Let_def not_le)
  then have "next_loops (Suc k) p = Inr (lp_loops p ! (j mod ?n) # map (\<lambda>i. lp_loops p ! ((Suc j + i) mod ?n)) [0..<k])"
    using ih by simp
  also have "\<dots> = Inr (map (\<lambda>i. lp_loops p ! ((j + i) mod ?n)) [0..<Suc k])"
    by (simp add: upt_conv_Cons map_Suc_upt [symmetric] del: upt_Suc)
  finally show ?case .
qed simp

text \<open>Round robin: a pool started with \<open>n\<close> threads has \<open>n\<close> loops, and successive calls of \<open>GetNextLoop\<close> give
  loop \<open>0, 1, ..., n - 1, 0, 1, ...\<close>; without threads they always give the base loop. No access is out of range.\<close>

theorem pool_round_robin:
  assumes "0 \<le> n"
  shows "\<exists>cbs p. EventLoopThreadPool_Start start_loop has_cb True
        (EventLoopThreadPool_SetThreadNum n (EventLoopThreadPool_new base name)) = Inr (cbs, p) \<and>
      next_loops k p = Inr (map (\<lambda>i. if n = 0 then base else start_loop (name @ int_dec (int i mod n))) [0..<k])"
proof -
  let ?p0 = "EventLoopThreadPool_SetThreadNum n (EventLoopThreadPool_new base name)"
  define p where "p = start_threads start_loop 0 (nat n) (?p0\<lparr>lp_started := True\<rparr>)"
  have "\<exists>cbs. EventLoopThreadPool_Start start_loop has_cb True ?p0 = Inr (cbs, p)"
    by (simp add: EventLoopThreadPool_Start_def EventLoopThreadPool_SetThreadNum_def EventLoopThreadPool_new_def p_def Let_def)
  moreover have p: "lp_loops p = map (\<lambda>j. start_loop (name @ int_dec (int j))) [0..<nat n]" "lp_started p"
    "lp_next p = 0" "lp_base_loop p = base"
    unfolding p_def start_threads_loops by (simp_all add: EventLoopThreadPool_SetThreadNum_def EventLoopThreadPool_new_def)
  have "next_loops k p = Inr (map (\<lambda>i. if n = 0 then base else start_loop (name @ int_dec (int i mod n))) [0..<k])"
  proof (cases "n = 0")
    case True
    have "next_loops k p = Inr (replicate k base)" for k
      by (induction k) (use p True in \<open>simp_all add: EventLoopThreadPool_GetNextLoop_def\<close>)
    then show ?thesis using True by (simp add: map_replicate_const)
  next
    case False
    then have n: "lp_loops p \<noteq> []" "0 < nat n" "length (lp_loops p) = nat n" using assms p by simp_all
    have "lp_loops p ! (i mod nat n) = start_loop (name @ int_dec (int i mod n))" for i
      using p n assms by (simp add: zmod_int)
    then show ?thesis using next_loops_cycle [OF p(2) n(1), of 0 k] p n False by simp
  qed
  ultimately show ?thesis by blast
qed

theorem pool_round_robin_witness:
  "\<exists>cbs p. EventLoopThreadPool_Start length False True
      (EventLoopThreadPool_SetThreadNum 2 (EventLoopThreadPool_new 0 ''io'')) = Inr (cbs, p) \<and>
    next_loops 3 p = Inr (map (\<lambda>i. length (''io'' @ int_dec (int i mod 2))) [0..<3])"
  using pool_round_robin [of 2 length False 0 "''io''" 3] by simp

end
