(* ===== verification/Sockets.thy ===== *)
theory Sockets
  imports Buffer Format
begin

unbundle bit_operations_syntax

text \<open>
  \<open>dwater/net/inet_address.h\<close>, \<open>inet_address.cc\<close>, \<open>socket.h\<close>, \<open>socket.cc\<close>, \<open>socket_ops.h\<close> and \<open>socket_ops.cc\<close>:
  socket addresses and the wrappers of the system calls. The union of \<open>sockaddr_in\<close> and \<open>sockaddr_in6\<close> is one
  record over its memory: the family and the port (in network order) are at the same place in both, \<open>sin_addr\<close>
  overlays \<open>sin6_flowinfo\<close>. The outcome of a system call is an argument; \<open>inet_ntop\<close> and \<open>inet_pton\<close> are modelled
  for IPv4, and are the arguments \<open>ntop6\<close> and \<open>pton6\<close> for IPv6.
\<close>

section \<open>Addresses\<close>

definition AF_INET :: nat where "AF_INET = 2"
definition AF_INET6 :: nat where "AF_INET6 = 10"
definition INADDR_ANY :: "32 word" where "INADDR_ANY = 0"
definition INADDR_LOOPBACK :: "32 word" where "INADDR_LOOPBACK = 0x7f000001"
definition INET_ADDRSTRLEN :: nat where "INET_ADDRSTRLEN = 16"

record sockaddr =
  sa_family :: nat
  sa_port :: "16 word"
  sa_in4 :: "32 word"
  sa_in6 :: "nat list"
  sa_scope :: "32 word"

definition sockaddr_zero :: sockaddr where
  "sockaddr_zero = \<lparr>sa_family = 0, sa_port = 0, sa_in4 = 0, sa_in6 = replicate 16 0, sa_scope = 0\<rparr>"

definition in6addr_any :: "nat list" where "in6addr_any = replicate 16 0"
definition in6addr_loopback :: "nat list" where "in6addr_loopback = replicate 15 0 @ [1]"

text \<open>\<open>MemZero(&addr_, sizeof(addr_))\<close> clears the first 16 of the 28 bytes: half of \<open>sin6_addr\<close> stays.\<close>

definition zero_in4 :: "sockaddr \<Rightarrow> sockaddr" where
  "zero_in4 a = a\<lparr>sa_family := 0, sa_port := 0, sa_in4 := 0, sa_in6 := replicate 8 0 @ drop 8 (sa_in6 a)\<rparr>"

text \<open>The bytes of \<open>s_addr\<close> in memory order, and the text of \<open>inet_ntop(AF_INET, ...)\<close>.\<close>

definition in4_bytes :: "32 word \<Rightarrow> nat list" where
  "in4_bytes w = map (\<lambda>i. unat w div 256 ^ i mod 256) [0, 1, 2, 3]"

definition in4_of :: "nat list \<Rightarrow> 32 word" where
  "in4_of bs = of_nat (bs ! 0 + 256 * bs ! 1 + 65536 * bs ! 2 + 16777216 * bs ! 3)"

definition dotted :: "nat list \<Rightarrow> string" where
  "dotted bs = nat_dec (bs ! 0) @ ''.'' @ nat_dec (bs ! 1) @ ''.'' @ nat_dec (bs ! 2) @ ''.'' @ nat_dec (bs ! 3)"

definition store_text :: "nat \<Rightarrow> string \<Rightarrow> string" where
  "store_text n s = (if length s < n then s else '''')"

text \<open>\<open>inet_pton(AF_INET, ...)\<close>: four decimal numbers up to 255 without superfluous zeros.\<close>

fun split_dots :: "string \<Rightarrow> string list" where
  "split_dots [] = [[]]"
| "split_dots (c # s) =
     (if c = CHR ''.'' then [] # split_dots s
      else case split_dots s of [] \<Rightarrow> [[c]] | w # ws \<Rightarrow> (c # w) # ws)"

definition is_digit :: "char \<Rightarrow> bool" where
  "is_digit c \<longleftrightarrow> 48 \<le> (of_char c :: nat) \<and> (of_char c :: nat) \<le> 57"

definition is_octet :: "string \<Rightarrow> bool" where
  "is_octet s \<longleftrightarrow> s \<noteq> [] \<and> list_all is_digit s \<and> dec_value s \<le> 255 \<and> (length s = 1 \<or> hd s \<noteq> CHR ''0'')"

definition inet_pton4 :: "string \<Rightarrow> 32 word option" where
  "inet_pton4 ip =
     (let ws = split_dots ip
      in if length ws = 4 \<and> list_all is_octet ws then Some (in4_of (map dec_value ws)) else None)"

definition socket_ToIp :: "(nat list \<Rightarrow> string) \<Rightarrow> nat \<Rightarrow> sockaddr \<Rightarrow> string result" where
  "socket_ToIp ntop6 n addr =
     (if sa_family addr = AF_INET
      then c_assert (INET_ADDRSTRLEN \<le> n) (Inr (store_text n (dotted (in4_bytes (sa_in4 addr)))))
      else if sa_family addr = AF_INET6
      then c_assert (INET_ADDRSTRLEN \<le> n) (Inr (store_text n (ntop6 (sa_in6 addr))))
      else Inr '''')"

definition socket_ToIpPort :: "(nat list \<Rightarrow> string) \<Rightarrow> nat \<Rightarrow> sockaddr \<Rightarrow> string result" where
  "socket_ToIpPort ntop6 n addr =
     (let port = nat_dec (unat (HostToNetwork16 (sa_port addr)))
      in if sa_family addr = AF_INET6
         then bindr (socket_ToIp ntop6 (n - 1) addr) (\<lambda>ip.
           let buf = CHR ''['' # ip; end = length buf
           in c_assert (end < n) (Inr (buf @ snprintf_buf (n - end) ('']:'' @ port))))
         else bindr (socket_ToIp ntop6 n addr) (\<lambda>ip.
           let end = length ip
           in c_assert (end < n) (Inr (ip @ snprintf_buf (n - end) ('':'' @ port)))))"

definition socket_FromIpPort4 :: "string \<Rightarrow> 16 word \<Rightarrow> sockaddr \<Rightarrow> sockaddr" where
  "socket_FromIpPort4 ip port addr =
     (let addr = addr\<lparr>sa_family := AF_INET, sa_port := HostToNetwork16 port\<rparr>
      in case inet_pton4 ip of None \<Rightarrow> addr | Some w \<Rightarrow> addr\<lparr>sa_in4 := w\<rparr>)"

definition socket_FromIpPort6 :: "(string \<Rightarrow> nat list option) \<Rightarrow> string \<Rightarrow> 16 word \<Rightarrow> sockaddr \<Rightarrow> sockaddr" where
  "socket_FromIpPort6 pton6 ip port addr =
     (let addr = addr\<lparr>sa_family := AF_INET6, sa_port := HostToNetwork16 port\<rparr>
      in case pton6 ip of None \<Rightarrow> addr | Some bs \<Rightarrow> addr\<lparr>sa_in6 := bs\<rparr>)"

section \<open>InetAddress\<close>

text \<open>The constructors; \<open>mem\<close> is what the memory of the object held before.\<close>

definition InetAddress_port :: "sockaddr \<Rightarrow> 16 word \<Rightarrow> bool \<Rightarrow> bool \<Rightarrow> sockaddr" where
  "InetAddress_port mem port loopback_only ipv6 =
     (if ipv6
      then sockaddr_zero\<lparr>sa_family := AF_INET6, sa_in6 := (if loopback_only then in6addr_loopback else in6addr_any),
             sa_port := HostToNetwork16 port\<rparr>
      else (zero_in4 mem)\<lparr>sa_family := AF_INET,
             sa_in4 := HostToNetwork32 (if loopback_only then INADDR_LOOPBACK else INADDR_ANY),
             sa_port := HostToNetwork16 port\<rparr>)"

definition InetAddress_ip :: "(string \<Rightarrow> nat list option) \<Rightarrow> sockaddr \<Rightarrow> string \<Rightarrow> 16 word \<Rightarrow> bool \<Rightarrow> sockaddr" where
  "InetAddress_ip pton6 mem ip port ipv6 =
     (if ipv6 \<or> CHR '':'' \<in> set ip then socket_FromIpPort6 pton6 ip port sockaddr_zero
      else socket_FromIpPort4 ip port (zero_in4 mem))"

definition InetAddress_Family :: "sockaddr \<Rightarrow> nat" where
  "InetAddress_Family addr = sa_family addr"

definition InetAddress_ToIpPort :: "(nat list \<Rightarrow> string) \<Rightarrow> sockaddr \<Rightarrow> string result" where
  "InetAddress_ToIpPort ntop6 addr = socket_ToIpPort ntop6 64 addr"

definition InetAddress_ToIp :: "(nat list \<Rightarrow> string) \<Rightarrow> sockaddr \<Rightarrow> string result" where
  "InetAddress_ToIp ntop6 addr = socket_ToIp ntop6 64 addr"

definition InetAddress_Ipv4NetEndian :: "sockaddr \<Rightarrow> 32 word result" where
  "InetAddress_Ipv4NetEndian addr = c_assert (InetAddress_Family addr = AF_INET) (Inr (sa_in4 addr))"

definition InetAddress_PortNetEndian :: "sockaddr \<Rightarrow> 16 word" where
  "InetAddress_PortNetEndian addr = sa_port addr"

definition InetAddress_Port :: "sockaddr \<Rightarrow> 16 word" where
  "InetAddress_Port addr = HostToNetwork16 (InetAddress_PortNetEndian addr)"

definition InetAddress_SetScopeId :: "32 word \<Rightarrow> sockaddr \<Rightarrow> sockaddr" where
  "InetAddress_SetScopeId scope_id addr =
     (if InetAddress_Family addr = AF_INET6 then addr\<lparr>sa_scope := scope_id\<rparr> else addr)"

text \<open>\<open>Resolve\<close>: the outcome of \<open>gethostbyname_r\<close> is an address family with the bytes of the address, or none.\<close>

definition InetAddress_Resolve :: "(nat \<times> nat list) option \<Rightarrow> sockaddr \<Rightarrow> (bool \<times> sockaddr) result" where
  "InetAddress_Resolve host out =
     (case host of None \<Rightarrow> Inr (False, out)
      | Some (h_addrtype, bytes) \<Rightarrow>
          c_assert (h_addrtype = AF_INET \<and> length bytes = 4) (Inr (True, out\<lparr>sa_in4 := in4_of bytes\<rparr>)))"

section \<open>The wrappers of the system calls\<close>

definition EINTR :: int where "EINTR = 4"
definition EAGAIN :: int where "EAGAIN = 11"
definition EMFILE :: int where "EMFILE = 24"
definition EPROTO :: int where "EPROTO = 71"
definition ECONNABORTED :: int where "ECONNABORTED = 103"

text \<open>What \<open>::socket\<close>, \<open>::bind\<close> and \<open>::listen\<close> return; a negative number is fatal.\<close>

definition socket_CreateNonblockingOrDie :: "int \<Rightarrow> int result" where
  "socket_CreateNonblockingOrDie sockfd = (if sockfd < 0 then Inl Log_fatal else Inr sockfd)"

definition socket_BindOrDie :: "int \<Rightarrow> unit result" where
  "socket_BindOrDie ret = (if ret < 0 then Inl Log_fatal else Inr ())"

definition socket_ListenOrDie :: "int \<Rightarrow> unit result" where
  "socket_ListenOrDie ret = (if ret < 0 then Inl Log_fatal else Inr ())"

text \<open>\<open>Accept\<close>: the outcome of \<open>::accept4\<close> is an error number or the new descriptor with its address. Only the
  errors that come and go are returned; any other ends the process.\<close>

definition socket_Accept :: "int + int \<times> sockaddr \<Rightarrow> (int + int \<times> sockaddr) result" where
  "socket_Accept outcome =
     (case outcome of Inr conn \<Rightarrow> Inr (Inr conn)
      | Inl saved_errno \<Rightarrow>
          if saved_errno = EAGAIN \<or> saved_errno = ECONNABORTED \<or> saved_errno = EINTR \<or> saved_errno = EPROTO
             \<or> saved_errno = EMFILE
          then Inr (Inl saved_errno) else Inl Log_fatal)"

text \<open>\<open>GetSocketError\<close>: \<open>::getsockopt\<close> fails with an error number or stores the value.\<close>

definition socket_GetSocketError :: "int + int \<Rightarrow> int" where
  "socket_GetSocketError outcome = (case outcome of Inl errno \<Rightarrow> errno | Inr optval \<Rightarrow> optval)"

definition socket_GetLocalAddr :: "sockaddr option \<Rightarrow> sockaddr" where
  "socket_GetLocalAddr getsockname = (case getsockname of None \<Rightarrow> sockaddr_zero | Some a \<Rightarrow> a)"

definition socket_GetPeerAddr :: "sockaddr option \<Rightarrow> sockaddr" where
  "socket_GetPeerAddr getpeername = (case getpeername of None \<Rightarrow> sockaddr_zero | Some a \<Rightarrow> a)"

definition socket_IsSelfConnect :: "sockaddr option \<Rightarrow> sockaddr option \<Rightarrow> bool" where
  "socket_IsSelfConnect getsockname getpeername =
     (let localaddr = socket_GetLocalAddr getsockname; peeraddr = socket_GetPeerAddr getpeername
      in if sa_family localaddr = AF_INET
         then sa_port localaddr = sa_port peeraddr \<and> sa_in4 localaddr = sa_in4 peeraddr
         else if sa_family localaddr = AF_INET6
         then sa_port localaddr = sa_port peeraddr \<and> sa_in6 localaddr = sa_in6 peeraddr
         else False)"

section \<open>Socket\<close>

text \<open>What a \<open>Socket\<close> asks of the kernel.\<close>

datatype sock_request =
    Setsockopt int int int
  | Shutdown_wr
  | Close_fd

definition SOL_SOCKET :: int where "SOL_SOCKET = 1"
definition IPPROTO_TCP :: int where "IPPROTO_TCP = 6"
definition TCP_NODELAY :: int where "TCP_NODELAY = 1"
definition SO_REUSEADDR :: int where "SO_REUSEADDR = 2"
definition SO_KEEPALIVE :: int where "SO_KEEPALIVE = 9"
definition SO_REUSEPORT :: int where "SO_REUSEPORT = 15"

definition Socket_destroy :: sock_request where
  "Socket_destroy = Close_fd"

definition Socket_ShutdownWrite :: sock_request where
  "Socket_ShutdownWrite = Shutdown_wr"

definition Socket_SetTcpNoDelay :: "bool \<Rightarrow> sock_request" where
  "Socket_SetTcpNoDelay on = Setsockopt IPPROTO_TCP TCP_NODELAY (if on then 1 else 0)"

definition Socket_SetReuseAddr :: "bool \<Rightarrow> sock_request" where
  "Socket_SetReuseAddr on = Setsockopt SOL_SOCKET SO_REUSEADDR (if on then 1 else 0)"

text \<open>A failure is logged, and only when the option was to be set.\<close>

definition Socket_SetReusePort :: "bool \<Rightarrow> int \<Rightarrow> sock_request \<times> bool" where
  "Socket_SetReusePort on ret = (Setsockopt SOL_SOCKET SO_REUSEPORT (if on then 1 else 0), ret < 0 \<and> on)"

definition Socket_SetKeepAlive :: "bool \<Rightarrow> sock_request" where
  "Socket_SetKeepAlive on = Setsockopt SOL_SOCKET SO_KEEPALIVE (if on then 1 else 0)"

definition Socket_BindAddress :: "int \<Rightarrow> unit result" where
  "Socket_BindAddress ret = socket_BindOrDie ret"

definition Socket_Listen :: "int \<Rightarrow> unit result" where
  "Socket_Listen ret = socket_ListenOrDie ret"

text \<open>\<open>Socket::Accept\<close> stores the address of the peer only when it returns a descriptor.\<close>

definition Socket_Accept :: "int + int \<times> sockaddr \<Rightarrow> sockaddr \<Rightarrow> ((int + int) \<times> sockaddr) result" where
  "Socket_Accept outcome peer_addr =
     bindr (socket_Accept outcome) (\<lambda>r. Inr (case r of Inl errno \<Rightarrow> (Inl errno, peer_addr)
       | Inr (connfd, addr) \<Rightarrow> (Inr connfd, addr)))"

record tcp_info =
  tcpi_retransmits :: nat
  tcpi_rto :: nat
  tcpi_ato :: nat
  tcpi_snd_mss :: nat
  tcpi_rcv_mss :: nat
  tcpi_lost :: nat
  tcpi_retrans :: nat
  tcpi_rtt :: nat
  tcpi_rttvar :: nat
  tcpi_snd_ssthresh :: nat
  tcpi_snd_cwnd :: nat
  tcpi_total_retrans :: nat

definition Socket_GetTcpInfo :: "tcp_info option \<Rightarrow> tcp_info option" where
  "Socket_GetTcpInfo getsockopt = getsockopt"

definition Socket_GetTcpInfoString :: "nat \<Rightarrow> tcp_info option \<Rightarrow> string option" where
  "Socket_GetTcpInfoString len getsockopt =
     map_option (\<lambda>i. snprintf_buf len
       (''unrecovered='' @ nat_dec (tcpi_retransmits i)
        @ '' rto='' @ nat_dec (tcpi_rto i) @ '' ato='' @ nat_dec (tcpi_ato i)
        @ '' snd_mss='' @ nat_dec (tcpi_snd_mss i) @ '' rcv_mss='' @ nat_dec (tcpi_rcv_mss i)
        @ '' lost='' @ nat_dec (tcpi_lost i) @ '' retrans='' @ nat_dec (tcpi_retrans i)
        @ '' rtt='' @ nat_dec (tcpi_rtt i) @ '' rttvar='' @ nat_dec (tcpi_rttvar i)
        @ '' sshthresh='' @ nat_dec (tcpi_snd_ssthresh i) @ '' cwnd='' @ nat_dec (tcpi_snd_cwnd i)
        @ '' total_retrans='' @ nat_dec (tcpi_total_retrans i)))
       (Socket_GetTcpInfo getsockopt)"

section \<open>Round trips\<close>

lemma split_dots_word: "CHR ''.'' \<notin> set w \<Longrightarrow> split_dots w = [w]"
  by (induction w) auto

lemma split_dots_cons: "CHR ''.'' \<notin> set w \<Longrightarrow> split_dots (w @ CHR ''.'' # s) = w # split_dots s"
  by (induction w) auto

lemma nat_dec_digits: "c \<in> set (nat_dec n) \<Longrightarrow> is_digit c"
  using digit_in_nat_dec [of c n] by (auto simp: is_digit_def digit_char_val)

lemma nat_dec_no_dot: "CHR ''.'' \<notin> set (nat_dec n)" "CHR '':'' \<notin> set (nat_dec n)"
  using nat_dec_digits [of "CHR ''.''" n] nat_dec_digits [of "CHR '':''" n] by (auto simp: is_digit_def)

lemma nat_dec_head: "0 < n \<Longrightarrow> hd (nat_dec n) \<noteq> CHR ''0''"
proof (induction n rule: nat_dec.induct)
  case (1 n)
  then show ?case
    by (subst nat_dec.simps) (auto simp: digit_char_eq_iff)
qed

lemma is_octet_nat_dec: "n \<le> 255 \<Longrightarrow> is_octet (nat_dec n)"
  using nat_dec_head [of n] nat_dec_digits [of _ n]
  by (cases "n = 0") (auto simp: is_octet_def dec_value_nat_dec list_all_iff, simp add: nat_dec.simps [of 0])

lemma list4: "length bs = 4 \<Longrightarrow> \<exists>a b c d. bs = [a, b, c, d]"
  by (auto simp: numeral_eq_Suc length_Suc_conv)

lemma in4_bytes_of:
  assumes "length bs = 4" and "list_all (\<lambda>b. b < 256) bs"
  shows "in4_bytes (in4_of bs) = bs"
proof -
  obtain a b c d where bs: "bs = [a, b, c, d]" using list4 [OF assms(1)] by blast
  have lt: "a < 256" "b < 256" "c < 256" "d < 256" using assms(2) by (simp_all add: bs)
  let ?x = "a + 256 * b + 65536 * c + 16777216 * d"
  have u: "unat (in4_of bs) = ?x"
    unfolding in4_of_def bs using lt by (subst unat_of_nat_bytes [where n = 4]) simp_all
  have x: "?x = a + (b + 256 * c + 65536 * d) * 256" "?x = (a + 256 * b) + (c + 256 * d) * 65536"
    "?x = (a + 256 * b + 65536 * c) + d * 16777216" "b + 256 * c + 65536 * d = b + (c + 256 * d) * 256"
    by simp_all
  have "?x mod 256 = a" unfolding x(1) mod_mult_self1 using lt by simp
  moreover have "?x div 256 mod 256 = b" unfolding x(1) using lt
    by (subst div_mult_self1) (simp, simp only: div_less add_0_right x(4) mod_mult_self1, simp)
  moreover have "?x div 65536 mod 256 = c"
    unfolding x(2) using lt by (subst div_mult_self1) (simp, simp add: mult.commute [of 256])
  moreover have "?x div 16777216 mod 256 = d" unfolding x(3) using lt by (subst div_mult_self1) simp_all
  ultimately show ?thesis unfolding in4_bytes_def u by (simp only: bs list.map power_0 power_one_right div_by_1) simp
qed

lemma inet_pton_dotted:
  assumes "length bs = 4" and "list_all (\<lambda>b. b < 256) bs"
  shows "inet_pton4 (dotted bs) = Some (in4_of bs)"
proof -
  obtain a b c d where bs: "bs = [a, b, c, d]" using list4 [OF assms(1)] by blast
  have "split_dots (dotted bs) = map nat_dec bs"
    by (simp add: bs dotted_def split_dots_cons split_dots_word nat_dec_no_dot)
  moreover have "list_all is_octet (map nat_dec bs)"
    using assms(2) by (fastforce simp: list_all_iff intro: is_octet_nat_dec)
  ultimately show ?thesis using assms(1) by (simp add: inet_pton4_def comp_def dec_value_nat_dec)
qed

lemma dotted_length:
  assumes "length bs = 4" and "list_all (\<lambda>b. b < 256) bs"
  shows "length (dotted bs) < INET_ADDRSTRLEN"
proof -
  obtain a b c d where bs: "bs = [a, b, c, d]" using list4 [OF assms(1)] by blast
  have "length (nat_dec n) \<le> 3" if "n < 256" for n using nat_dec_length [of 3 n] that by simp
  then have "length (nat_dec a) \<le> 3" "length (nat_dec b) \<le> 3" "length (nat_dec c) \<le> 3" "length (nat_dec d) \<le> 3"
    using assms(2) by (simp_all add: bs)
  then show ?thesis by (simp add: bs dotted_def INET_ADDRSTRLEN_def)
qed

lemma HostToNetwork16_twice [simp]: "HostToNetwork16 (HostToNetwork16 w) = w"
proof -
  have "unat (of_nat (bswap 2 (unat w)) :: 16 word) = bswap 2 (unat w)"
    by (rule unat_of_nat_bytes [OF bswap_bound]) simp
  moreover have "bswap 2 (bswap 2 (unat w)) = unat w"
    using unsigned_less [of w, where ?'a = nat] by (simp add: bswap_def le_bytes_le_val le_val_le_bytes)
  ultimately show ?thesis by (simp add: HostToNetwork16_def)
qed

lemma port_length: "length (nat_dec (unat (p :: 16 word))) \<le> 5"
  using unsigned_less [of p, where ?'a = nat] by (intro nat_dec_length) simp_all

text \<open>C35. Addresses make the round trip through text: an address made from a dotted IPv4 text and a port prints as that
  text and that port, and one made from the text of an IPv6 address prints in brackets, for every \<open>inet_ntop\<close> and
  \<open>inet_pton\<close> that are inverse to each other and print at most 45 characters; no assert fails, nothing is cut off at
  the 64 bytes of the buffer, and \<open>Port\<close> gives the port back.\<close>

theorem address_roundtrip:
  assumes "length bs = 4" and "list_all (\<lambda>b. b < 256) bs"
    and "pton6 (ntop6 as) = Some as" and "length (ntop6 as) \<le> 45" and "CHR '':'' \<in> set (ntop6 as)"
  shows "let a4 = InetAddress_ip pton6 mem (dotted bs) port False; a6 = InetAddress_ip pton6 mem (ntop6 as) port v6
    in InetAddress_ToIpPort ntop6 a4 = Inr (dotted bs @ '':'' @ nat_dec (unat port)) \<and>
       InetAddress_ToIpPort ntop6 a6 = Inr (''['' @ ntop6 as @ '']:'' @ nat_dec (unat port)) \<and>
       InetAddress_Port a4 = port \<and> InetAddress_Port a6 = port \<and>
       InetAddress_Ipv4NetEndian a4 = Inr (in4_of bs)"
proof -
  have "CHR '':'' \<notin> set (dotted bs)" by (simp add: dotted_def nat_dec_no_dot)
  then show ?thesis
    using inet_pton_dotted [OF assms(1,2)] in4_bytes_of [OF assms(1,2)] dotted_length [OF assms(1,2)] port_length [of port] assms(3-5)
    by (simp add: InetAddress_ip_def socket_FromIpPort4_def socket_FromIpPort6_def InetAddress_ToIpPort_def InetAddress_Port_def
        InetAddress_PortNetEndian_def InetAddress_Ipv4NetEndian_def InetAddress_Family_def socket_ToIpPort_def socket_ToIp_def
        AF_INET_def AF_INET6_def INET_ADDRSTRLEN_def store_text_def snprintf_buf_def bindr_def Let_def)
qed

theorem address_roundtrip_witness:
  "InetAddress_ToIpPort (\<lambda>_. ''::1'') (InetAddress_ip (\<lambda>_. Some in6addr_loopback) sockaddr_zero ''192.168.0.1'' 8080 False)
     = Inr ''192.168.0.1:8080''"
proof -
  have "dotted [192, 168, 0, 1] = ''192.168.0.1''" "nat_dec 8080 = ''8080''"
    by (simp_all add: dotted_def nat_dec.simps digit_char_eq_iff)
  then show ?thesis
    using address_roundtrip [of "[192, 168, 0, 1]" "\<lambda>_. Some in6addr_loopback" "\<lambda>_. ''::1''" in6addr_loopback sockaddr_zero 8080 True]
    by (simp add: Let_def)
qed

end
