(* ===== verification/TcpServer.thy ===== *)
theory TcpServer
  imports TcpConnection EventLoop Sockets
begin

text \<open>
  \<open>dwater/net/acceptor.h\<close>, \<open>acceptor.cc\<close>, \<open>tcp_server.h\<close> and \<open>tcp_server.cc\<close>: the listening socket, and the server that
  makes a connection of every accepted socket, gives it a name and a loop, and keeps it in its map until it is closed.
  Outcomes of system calls are arguments. What the server runs or queues in the loops of its connections is appended to
  \<open>ts_posts\<close>; what other loops queue in the server's own loop waits in \<open>ts_removals\<close>.
\<close>

section \<open>Acceptor\<close>

record acceptor =
  ac_channel :: channel
  ac_listening :: bool
  ac_new_connection_callback :: bool
  ac_idle_fd :: int

datatype acceptor_effect =
    Accepted int sockaddr
  | Closes int
  | Opens_idle int

text \<open>
  The constructor: the outcomes of \<open>::socket\<close>, \<open>::open\<close> and \<open>::bind\<close>; the options it sets are the requests it returns.
\<close>

definition Acceptor_new :: "int \<Rightarrow> int \<Rightarrow> int \<Rightarrow> int \<Rightarrow> bool \<Rightarrow> (sock_request list \<times> acceptor) result" where
  "Acceptor_new sockfd idle_fd reuse_ret bind_ret reuse_port =
     bindr (socket_CreateNonblockingOrDie sockfd) (\<lambda>fd.
       c_assert (0 \<le> idle_fd)
         (bindr (Socket_BindAddress bind_ret) (\<lambda>_.
           Inr ([Socket_SetReuseAddr True, fst (Socket_SetReusePort reuse_port reuse_ret)],
                \<lparr>ac_channel = Channel_SetReadCallback (Channel_new fd), ac_listening = False,
                 ac_new_connection_callback = False, ac_idle_fd = idle_fd\<rparr>))))"

definition Acceptor_SetNewConnectionCallback :: "acceptor \<Rightarrow> acceptor" where
  "Acceptor_SetNewConnectionCallback a = a\<lparr>ac_new_connection_callback := True\<rparr>"

text \<open>\<open>Channel::Remove\<close> asserts that no event is enabled; then \<open>idle_fd_\<close> is closed.\<close>

definition Acceptor_destroy :: "acceptor \<Rightarrow> (acceptor_effect list \<times> acceptor) result" where
  "Acceptor_destroy a =
     (let ch = Channel_DisableAll (ac_channel a)
      in c_assert (Channel_IsNoneEvent ch)
           (Inr ([Closes (ac_idle_fd a)], a\<lparr>ac_channel := ch\<lparr>ch_added_to_loop := False\<rparr>\<rparr>)))"

definition Acceptor_Listen :: "bool \<Rightarrow> int \<Rightarrow> acceptor \<Rightarrow> acceptor result" where
  "Acceptor_Listen in_loop listen_ret a =
     AssertInLoopThread in_loop
      (let a = a\<lparr>ac_listening := True\<rparr>
       in bindr (Socket_Listen listen_ret) (\<lambda>_. Inr (a\<lparr>ac_channel := Channel_EnableReading (ac_channel a)\<rparr>)))"

text \<open>
  \<open>HandleRead\<close>: when the process is out of descriptors (\<open>EMFILE\<close>) the spare one is given up for the pending
  connection, which is closed at once, and opened again; \<open>accept2\<close> and \<open>reopened\<close> are what these calls return.
\<close>

definition Acceptor_HandleRead ::
  "bool \<Rightarrow> int + int \<times> sockaddr \<Rightarrow> int \<Rightarrow> int \<Rightarrow> acceptor \<Rightarrow> (acceptor_effect list \<times> acceptor) result" where
  "Acceptor_HandleRead in_loop outcome accept2 reopened a =
     AssertInLoopThread in_loop
      (bindr (Socket_Accept outcome sockaddr_zero) (\<lambda>(conn, peer_addr).
        case conn of
          Inr connfd \<Rightarrow>
            if ac_new_connection_callback a then Inr ([Accepted connfd peer_addr], a) else Inr ([Closes connfd], a)
        | Inl errno \<Rightarrow>
            if errno = EMFILE
            then Inr ([Closes (ac_idle_fd a), Closes accept2, Opens_idle reopened], a\<lparr>ac_idle_fd := reopened\<rparr>)
            else Inr ([], a)))"

section \<open>TcpServer\<close>

text \<open>A connection as the server knows it; the object is the one the constructor made.\<close>

record conn_ref =
  cr_id :: int
  cr_name :: string
  cr_loop :: loop_ptr
  cr_object :: tcp_connection

datatype conn_post = Post_established int | Post_destroyed int

record tcp_server =
  ts_ip_port :: string
  ts_name :: string
  ts_acceptor :: acceptor
  ts_pool :: loop_pool
  ts_write_complete_callback :: bool
  ts_started :: "32 word"
  ts_next_connid :: int
  ts_connections :: "(string \<times> conn_ref) list"
  ts_removals :: "conn_ref list"
  ts_posts :: "(loop_ptr \<times> conn_post) list"

definition TcpServer_new ::
  "loop_ptr option \<Rightarrow> string \<Rightarrow> string \<Rightarrow> acceptor \<Rightarrow> tcp_server result" where
  "TcpServer_new loop ip_port name acc =
     (case loop of None \<Rightarrow> Inl Log_fatal
      | Some loop \<Rightarrow>
          Inr \<lparr>ts_ip_port = ip_port, ts_name = name, ts_acceptor = Acceptor_SetNewConnectionCallback acc,
               ts_pool = EventLoopThreadPool_new loop name, ts_write_complete_callback = False, ts_started = 0,
               ts_next_connid = 1, ts_connections = [], ts_removals = [], ts_posts = []\<rparr>)"

definition post :: "loop_ptr \<Rightarrow> conn_post \<Rightarrow> tcp_server \<Rightarrow> tcp_server" where
  "post loop p s = s\<lparr>ts_posts := ts_posts s @ [(loop, p)]\<rparr>"

text \<open>The destructor runs or queues \<open>ConnectionDestroyed\<close> for every connection still in the map.\<close>

definition TcpServer_destroy :: "bool \<Rightarrow> tcp_server \<Rightarrow> tcp_server result" where
  "TcpServer_destroy in_loop s =
     AssertInLoopThread in_loop
      (Inr (fold (\<lambda>(_, conn). post (cr_loop conn) (Post_destroyed (cr_id conn))) (ts_connections s) s))"

definition TcpServer_SetThreadNum :: "int \<Rightarrow> tcp_server \<Rightarrow> tcp_server result" where
  "TcpServer_SetThreadNum num_thread s =
     c_assert (0 \<le> num_thread) (Inr (s\<lparr>ts_pool := EventLoopThreadPool_SetThreadNum num_thread (ts_pool s)\<rparr>))"

text \<open>\<open>Start\<close>, in the loop's thread; \<open>start_loop\<close> makes the loops of the pool, \<open>listen_ret\<close> is what \<open>::listen\<close> returns.\<close>

definition TcpServer_Start :: "(string \<Rightarrow> loop_ptr) \<Rightarrow> bool \<Rightarrow> int \<Rightarrow> tcp_server \<Rightarrow> tcp_server result" where
  "TcpServer_Start start_loop has_init listen_ret s =
     (if ts_started s = 0
      then bindr (EventLoopThreadPool_Start start_loop has_init True (ts_pool s)) (\<lambda>(_, pool).
             c_assert (\<not> ac_listening (ts_acceptor s))
              (bindr (Acceptor_Listen True listen_ret (ts_acceptor s)) (\<lambda>acc.
                 Inr (s\<lparr>ts_started := 1, ts_pool := pool, ts_acceptor := acc\<rparr>))))
      else Inr s)"

definition connection_name :: "string \<Rightarrow> string \<Rightarrow> int \<Rightarrow> string" where
  "connection_name name ip_port connid = name @ snprintf_buf 64 (''-'' @ ip_port @ ''#'' @ int_dec connid)"

definition TcpServer_NewConnection :: "bool \<Rightarrow> int \<Rightarrow> tcp_server \<Rightarrow> tcp_server result" where
  "TcpServer_NewConnection in_loop sockfd s =
     AssertInLoopThread in_loop
      (bindr (EventLoopThreadPool_GetNextLoop True (ts_pool s)) (\<lambda>(io_loop, pool).
        let connid = ts_next_connid s;
            conn_name = connection_name (ts_name s) (ts_ip_port s) connid
        in bindr (TcpConnection_new sockfd) (\<lambda>object.
             let conn = \<lparr>cr_id = connid, cr_name = conn_name, cr_loop = io_loop,
                   cr_object = (if ts_write_complete_callback s then TcpConnection_SetWriteCompleteCallback object else object)\<rparr>
             in Inr (post io_loop (Post_established connid)
                  (s\<lparr>ts_pool := pool, ts_next_connid := connid + 1,
                     ts_connections := smap_put conn_name conn (ts_connections s)\<rparr>)))))"

definition TcpServer_RemoveConenctionInLoop :: "bool \<Rightarrow> conn_ref \<Rightarrow> tcp_server \<Rightarrow> tcp_server result" where
  "TcpServer_RemoveConenctionInLoop in_loop conn s =
     AssertInLoopThread in_loop
      (let n = length (filter (\<lambda>e. fst e = cr_name conn) (ts_connections s));
           s1 = s\<lparr>ts_connections := smap_erase (cr_name conn) (ts_connections s)\<rparr>
       in c_assert (n = 1) (Inr (post (cr_loop conn) (Post_destroyed (cr_id conn)) s1)))"

definition TcpServer_RemoveConnection :: "bool \<Rightarrow> conn_ref \<Rightarrow> tcp_server \<Rightarrow> tcp_server result" where
  "TcpServer_RemoveConnection in_loop conn s =
     (if in_loop then TcpServer_RemoveConenctionInLoop in_loop conn s
      else Inr (s\<lparr>ts_removals := ts_removals s @ [conn]\<rparr>))"

section \<open>The server and its connections\<close>

text \<open>
  What happens to a running server: the listening socket becomes readable, a connection calls its close callback (in its
  own loop; \<open>TcpConnection\<close> does so once), and the server's loop runs a removal that another loop queued.
\<close>

datatype server_input =
    Srv_readable "int + int \<times> sockaddr" int int
  | Srv_closed conn_ref
  | Srv_removal

fun accept_all :: "acceptor_effect list \<Rightarrow> tcp_server \<Rightarrow> tcp_server result" where
  "accept_all [] s = Inr s"
| "accept_all (e # es) s =
     bindr (case e of Accepted connfd peer \<Rightarrow> TcpServer_NewConnection True connfd s | _ \<Rightarrow> Inr s) (accept_all es)"

fun server_exec :: "server_input \<Rightarrow> tcp_server \<Rightarrow> tcp_server result" where
  "server_exec (Srv_readable outcome accept2 reopened) s =
     bindr (Acceptor_HandleRead True outcome accept2 reopened (ts_acceptor s)) (\<lambda>(es, acc).
       accept_all es (s\<lparr>ts_acceptor := acc\<rparr>))"
| "server_exec (Srv_closed conn) s =
     TcpServer_RemoveConnection (cr_loop conn = lp_base_loop (ts_pool s)) conn s"
| "server_exec Srv_removal s =
     TcpServer_RemoveConenctionInLoop True (hd (ts_removals s)) (s\<lparr>ts_removals := tl (ts_removals s)\<rparr>)"

text \<open>\<open>next_connid_\<close> is an \<open>int\<close>: its overflow is undefined. A descriptor \<open>accept\<close> gives is not negative.\<close>

fun server_guard :: "server_input \<Rightarrow> tcp_server \<Rightarrow> bool" where
  "server_guard (Srv_readable outcome accept2 reopened) s \<longleftrightarrow>
     ts_next_connid s < 2 ^ 31 - 1 \<and> (case outcome of Inl errno \<Rightarrow> True | Inr (connfd, peer) \<Rightarrow> 0 \<le> connfd)"
| "server_guard (Srv_closed conn) s \<longleftrightarrow> conn \<in> snd ` set (ts_connections s) \<and> conn \<notin> set (ts_removals s)"
| "server_guard Srv_removal s \<longleftrightarrow> ts_removals s \<noteq> []"

inductive server_reach :: "tcp_server \<Rightarrow> tcp_server \<Rightarrow> bool" for s0 where
  runs: "server_reach s0 s0"
| goes_on: "server_reach s0 s \<Longrightarrow> server_guard i s \<Longrightarrow> server_exec i s = Inr s' \<Longrightarrow> server_reach s0 s'"

section \<open>The names of the connections\<close>

lemma int_dec_length: "0 \<le> i \<Longrightarrow> i < 2 ^ 31 \<Longrightarrow> length (int_dec i) \<le> 10"
  by (simp add: int_dec_def nat_less_iff nat_dec_length)

lemma connection_name_inj:
  assumes "connection_name name ip i = connection_name name ip j" and "length ip \<le> 51"
    and "0 \<le> i" "i < 2 ^ 31" and "0 \<le> j" "j < 2 ^ 31"
  shows "i = j"
proof -
  have "int_dec i = int_dec j"
    using assms int_dec_length [of i] int_dec_length [of j] by (simp add: connection_name_def snprintf_buf_def)
  then show ?thesis using assms(3,5) nat_dec_inj by (fastforce simp: int_dec_def)
qed

section \<open>The invariant\<close>

fun post_id :: "loop_ptr \<times> conn_post \<Rightarrow> int" where
  "post_id (l, Post_established i) = i"
| "post_id (l, Post_destroyed i) = i"

definition posts_of :: "int \<Rightarrow> tcp_server \<Rightarrow> (loop_ptr \<times> conn_post) list" where
  "posts_of i s = filter (\<lambda>p. post_id p = i) (ts_posts s)"

definition live :: "tcp_server \<Rightarrow> conn_ref set" where
  "live s = snd ` set (ts_connections s)"

definition pool_ok :: "loop_pool \<Rightarrow> bool" where
  "pool_ok p \<longleftrightarrow> lp_started p \<and> (lp_loops p = [] \<or> 0 \<le> lp_next p \<and> lp_next p < int (length (lp_loops p)))"

definition server_inv :: "tcp_server \<Rightarrow> bool" where
  "server_inv s \<longleftrightarrow> length (ts_ip_port s) \<le> 51 \<and> pool_ok (ts_pool s) \<and> ac_new_connection_callback (ts_acceptor s) \<and>
     1 \<le> ts_next_connid s \<and> ts_next_connid s < 2 ^ 31 \<and> smap_ok (ts_connections s) \<and>
     (\<forall>(k, conn) \<in> set (ts_connections s). k = cr_name conn \<and> 1 \<le> cr_id conn \<and> cr_id conn < ts_next_connid s \<and>
        cr_name conn = connection_name (ts_name s) (ts_ip_port s) (cr_id conn) \<and>
        posts_of (cr_id conn) s = [(cr_loop conn, Post_established (cr_id conn))]) \<and>
     distinct (ts_removals s) \<and> set (ts_removals s) \<subseteq> live s \<and>
     (\<forall>i. 1 \<le> i \<longrightarrow> i < ts_next_connid s \<longrightarrow> i \<notin> cr_id ` live s \<longrightarrow>
        (\<exists>l. posts_of i s = [(l, Post_established i), (l, Post_destroyed i)])) \<and>
     (\<forall>i. ts_next_connid s \<le> i \<longrightarrow> posts_of i s = [])"

lemma live_name:
  assumes "server_inv s" and "conn \<in> live s"
  shows "(cr_name conn, conn) \<in> set (ts_connections s)"
  using assms by (auto simp: server_inv_def live_def)

lemma live_inj:
  assumes "server_inv s" and "conn \<in> live s" and "conn' \<in> live s" and "cr_name conn = cr_name conn'"
  shows "conn = conn'"
proof -
  have "distinct (map fst (ts_connections s))" using assms(1) smap_ok_distinct by (auto simp: server_inv_def)
  then show ?thesis using live_name [OF assms(1,2)] live_name [OF assms(1,3)] assms(4) by (auto dest: eq_key_imp_eq_value)
qed

lemma live_id:
  assumes "server_inv s" and "conn \<in> live s" and "conn' \<in> live s" and "cr_id conn = cr_id conn'"
  shows "conn = conn'"
proof -
  have "cr_name conn = connection_name (ts_name s) (ts_ip_port s) (cr_id conn)" if "conn \<in> live s" for conn
    using assms(1) live_name [OF assms(1) that] by (auto simp: server_inv_def)
  then show ?thesis using assms live_inj [OF assms(1-3)] by metis
qed

lemma set_smap_put: "k \<notin> fst ` set m \<Longrightarrow> set (smap_put k v m) = insert (k, v) (set m)"
  by (induction m) (auto split: if_splits)

lemma one_key: "distinct (map fst m) \<Longrightarrow> (k, v) \<in> set m \<Longrightarrow> length (filter (\<lambda>e. fst e = k) m) = 1"
proof (induction m)
  case (Cons e m)
  have "filter (\<lambda>e. fst e = k) m = []" if "k \<notin> fst ` set m" using that by (induction m) auto
  with Cons show ?case by (cases "fst e = k") (auto simp: rev_image_eqI)
qed simp

lemma GetNextLoop_ok:
  assumes "pool_ok p"
  shows "\<exists>l p'. EventLoopThreadPool_GetNextLoop True p = Inr (l, p') \<and> pool_ok p' \<and> lp_base_loop p' = lp_base_loop p"
  using assms by (auto simp: EventLoopThreadPool_GetNextLoop_def pool_ok_def Let_def)

lemma fresh_name:
  assumes "server_inv s" and "ts_next_connid s < 2 ^ 31 - 1"
  shows "connection_name (ts_name s) (ts_ip_port s) (ts_next_connid s) \<notin> fst ` set (ts_connections s)" (is "?name \<notin> _")
proof
  note inv = assms(1) [unfolded server_inv_def]
  assume "?name \<in> fst ` set (ts_connections s)"
  then obtain c where "(?name, c) \<in> set (ts_connections s)" by auto
  with inv have "?name = connection_name (ts_name s) (ts_ip_port s) (cr_id c)" "1 \<le> cr_id c" "cr_id c < ts_next_connid s" by auto
  then show False
    using connection_name_inj [of "ts_name s" "ts_ip_port s" "ts_next_connid s" "cr_id c"] inv assms(2) by auto
qed

lemma NewConnection_inv:
  assumes "server_inv s" and "ts_next_connid s < 2 ^ 31 - 1" and "0 \<le> sockfd"
  shows "\<exists>s'. TcpServer_NewConnection True sockfd s = Inr s' \<and> server_inv s'"
proof -
  obtain l p where p: "EventLoopThreadPool_GetNextLoop True (ts_pool s) = Inr (l, p)" "pool_ok p"
    using GetNextLoop_ok [of "ts_pool s"] assms(1) by (auto simp: server_inv_def)
  obtain ob where ob: "TcpConnection_new sockfd = Inr ob" using TcpConnection_new_ok [OF assms(3)] by blast
  define i where "i = ts_next_connid s"
  define name where "name = connection_name (ts_name s) (ts_ip_port s) i"
  define conn where "conn = \<lparr>cr_id = i, cr_name = name, cr_loop = l,
    cr_object = (if ts_write_complete_callback s then TcpConnection_SetWriteCompleteCallback ob else ob)\<rparr>"
  define s' where "s' = post l (Post_established i) (s\<lparr>ts_pool := p, ts_next_connid := i + 1,
    ts_connections := smap_put name conn (ts_connections s)\<rparr>)"
  have run: "TcpServer_NewConnection True sockfd s = Inr s'"
    by (simp add: TcpServer_NewConnection_def p ob Let_def s'_def conn_def name_def i_def)
  note inv = assms(1) [unfolded server_inv_def]
  have fresh: "name \<notin> fst ` set (ts_connections s)" using fresh_name [OF assms(1,2)] by (simp add: name_def i_def)
  have conns: "set (ts_connections s') = insert (name, conn) (set (ts_connections s))"
    using set_smap_put [OF fresh] by (simp add: s'_def post_def)
  have posts: "posts_of j s' = posts_of j s @ (if j = i then [(l, Post_established i)] else [])" for j
    by (simp add: posts_of_def s'_def post_def)
  have proj: "ts_next_connid s' = i + 1" "ts_name s' = ts_name s" "ts_ip_port s' = ts_ip_port s"
    by (simp_all add: s'_def post_def)
  have empty: "posts_of i s = []" using inv by (simp add: i_def)
  have other: "cr_id c \<noteq> i" if "(k, c) \<in> set (ts_connections s)" for k c using inv that by (auto simp: i_def)
  have L: "live s' = insert conn (live s)" using conns by (simp add: live_def)
  have "server_inv s'"
    unfolding server_inv_def
  proof (intro conjI)
    show "\<forall>(k, c) \<in> set (ts_connections s'). k = cr_name c \<and> 1 \<le> cr_id c \<and> cr_id c < ts_next_connid s' \<and>
        cr_name c = connection_name (ts_name s') (ts_ip_port s') (cr_id c) \<and>
        posts_of (cr_id c) s' = [(cr_loop c, Post_established (cr_id c))]"
      unfolding conns proj posts using inv other empty by (auto simp: conn_def name_def i_def)
    show "\<forall>j. 1 \<le> j \<longrightarrow> j < ts_next_connid s' \<longrightarrow> j \<notin> cr_id ` live s' \<longrightarrow>
        (\<exists>l. posts_of j s' = [(l, Post_established j), (l, Post_destroyed j)])"
      unfolding L posts using inv by (auto simp: s'_def post_def conn_def i_def)
    show "\<forall>j. ts_next_connid s' \<le> j \<longrightarrow> posts_of j s' = []"
      unfolding posts using inv by (auto simp: s'_def post_def i_def)
    show "set (ts_removals s') \<subseteq> live s'" unfolding L using inv by (auto simp: s'_def post_def)
  qed (use inv assms(2) p(2) smap_put_ok in \<open>auto simp: s'_def post_def i_def\<close>)
  with run show ?thesis by blast
qed

lemma erased_live:
  assumes "server_inv s" and "conn \<in> live s"
  shows "snd ` {e \<in> set (ts_connections s). fst e \<noteq> cr_name conn} = live s - {conn}"
proof -
  note inv = assms(1) [unfolded server_inv_def]
  have "c \<in> snd ` {e \<in> set (ts_connections s). fst e \<noteq> cr_name conn} \<longleftrightarrow> c \<in> live s \<and> cr_name c \<noteq> cr_name conn" for c
    using live_name [OF assms(1)] inv unfolding live_def by (auto simp: image_iff) (metis fst_conv snd_conv)
  then show ?thesis using live_inj [OF assms(1) _ assms(2)] by auto
qed

lemma RemoveInLoop_run:
  assumes "server_inv s" and "conn \<in> live s"
  shows "TcpServer_RemoveConenctionInLoop True conn s =
    Inr (post (cr_loop conn) (Post_destroyed (cr_id conn)) (s\<lparr>ts_connections := smap_erase (cr_name conn) (ts_connections s)\<rparr>))"
proof -
  have "length (filter (\<lambda>e. fst e = cr_name conn) (ts_connections s)) = 1"
    using one_key [OF smap_ok_distinct live_name [OF assms]] assms(1) by (auto simp: server_inv_def)
  then show ?thesis by (simp add: TcpServer_RemoveConenctionInLoop_def Let_def)
qed

lemma RemoveInLoop_inv:
  assumes "server_inv s" and "conn \<in> live s" and "conn \<notin> set (ts_removals s)"
  shows "\<exists>s'. TcpServer_RemoveConenctionInLoop True conn s = Inr s' \<and> server_inv s'"
proof -
  note inv = assms(1) [unfolded server_inv_def]
  define s' where "s' = post (cr_loop conn) (Post_destroyed (cr_id conn))
    (s\<lparr>ts_connections := smap_erase (cr_name conn) (ts_connections s)\<rparr>)"
  have m: "(cr_name conn, conn) \<in> set (ts_connections s)" by (rule live_name [OF assms(1,2)])
  have run: "TcpServer_RemoveConenctionInLoop True conn s = Inr s'" unfolding s'_def by (rule RemoveInLoop_run [OF assms(1,2)])
  have conns: "set (ts_connections s') = {e \<in> set (ts_connections s). fst e \<noteq> cr_name conn}"
    by (simp add: s'_def post_def smap_erase_def)
  have L: "live s' = live s - {conn}" using erased_live [OF assms(1,2)] by (simp add: live_def conns)
  have posts: "posts_of j s' = posts_of j s @ (if j = cr_id conn then [(cr_loop conn, Post_destroyed j)] else [])" for j
    by (simp add: posts_of_def s'_def post_def)
  have mine: "posts_of (cr_id conn) s = [(cr_loop conn, Post_established (cr_id conn))]" "1 \<le> cr_id conn" "cr_id conn < ts_next_connid s"
    using inv m by auto
  have other: "cr_id c \<noteq> cr_id conn" if "(k, c) \<in> set (ts_connections s')" for k c
  proof
    assume "cr_id c = cr_id conn"
    moreover have "c \<in> live s'" using that by (force simp: live_def)
    ultimately show False using live_id [OF assms(1) _ assms(2)] L by auto
  qed
  have "server_inv s'"
    unfolding server_inv_def
  proof (intro conjI)
    show "\<forall>(k, c) \<in> set (ts_connections s'). k = cr_name c \<and> 1 \<le> cr_id c \<and> cr_id c < ts_next_connid s' \<and>
        cr_name c = connection_name (ts_name s') (ts_ip_port s') (cr_id c) \<and>
        posts_of (cr_id c) s' = [(cr_loop c, Post_established (cr_id c))]"
      using inv other unfolding posts by (auto simp: conns) (auto simp: s'_def post_def)
    show "\<forall>j. 1 \<le> j \<longrightarrow> j < ts_next_connid s' \<longrightarrow> j \<notin> cr_id ` live s' \<longrightarrow>
        (\<exists>l. posts_of j s' = [(l, Post_established j), (l, Post_destroyed j)])"
    proof (intro allI impI)
      fix j assume j: "1 \<le> j" "j < ts_next_connid s'" "j \<notin> cr_id ` live s'"
      show "\<exists>l. posts_of j s' = [(l, Post_established j), (l, Post_destroyed j)]"
      proof (cases "j = cr_id conn")
        case True
        then show ?thesis by (simp add: posts mine)
      next
        case False
        then have "j \<notin> cr_id ` live s" "j < ts_next_connid s" using j L by (auto simp: s'_def post_def)
        with inv j(1) False show ?thesis by (simp add: posts)
      qed
    qed
    show "\<forall>j. ts_next_connid s' \<le> j \<longrightarrow> posts_of j s' = []"
      unfolding posts using inv mine(3) by (auto simp: s'_def post_def)
    show "set (ts_removals s') \<subseteq> live s'" unfolding L using inv assms(3) by (auto simp: s'_def post_def)
  qed (use inv smap_erase_ok in \<open>auto simp: s'_def post_def\<close>)
  with run show ?thesis by blast
qed

lemma server_step_inv:
  assumes "server_inv s" and "server_guard i s"
  shows "case server_exec i s of Inl e \<Rightarrow> e = Log_fatal | Inr s' \<Rightarrow> server_inv s'"
proof (cases i)
  case (Srv_readable outcome accept2 reopened)
  have a: "server_inv (s\<lparr>ts_acceptor := acc\<rparr>) = server_inv s" if "ac_new_connection_callback acc" for acc
    using that assms(1) by (simp add: server_inv_def posts_of_def live_def)
  have cb: "ac_new_connection_callback (ts_acceptor s)" "s\<lparr>ts_acceptor := ts_acceptor s\<rparr> = s"
    using assms(1) by (simp_all add: server_inv_def)
  show ?thesis
  proof (cases outcome)
    case (Inl errno)
    then show ?thesis
      using Srv_readable cb assms(1) a [of "(ts_acceptor s)\<lparr>ac_idle_fd := reopened\<rparr>"]
      by (auto simp: Acceptor_HandleRead_def Socket_Accept_def socket_Accept_def)
  next
    case (Inr conn)
    obtain fd peer where conn: "conn = (fd, peer)" by (cases conn)
    then have "0 \<le> fd" "ts_next_connid s < 2 ^ 31 - 1" using assms(2) Srv_readable Inr by simp_all
    then obtain s' where "TcpServer_NewConnection True fd s = Inr s'" "server_inv s'"
      using NewConnection_inv [OF assms(1)] by blast
    then show ?thesis
      using Srv_readable Inr conn cb by (simp add: Acceptor_HandleRead_def Socket_Accept_def socket_Accept_def)
  qed
next
  case (Srv_closed conn)
  then have c: "conn \<in> live s" "conn \<notin> set (ts_removals s)" using assms(2) by (simp_all add: live_def)
  then have "server_inv (s\<lparr>ts_removals := ts_removals s @ [conn]\<rparr>)"
    using assms(1) by (simp add: server_inv_def posts_of_def live_def)
  then show ?thesis
    using RemoveInLoop_inv [OF assms(1) c] Srv_closed by (auto simp: TcpServer_RemoveConnection_def)
next
  case Srv_removal
  then obtain conn rs where r: "ts_removals s = conn # rs" using assms(2) by (cases "ts_removals s") auto
  have "server_inv (s\<lparr>ts_removals := rs\<rparr>)" "conn \<in> live (s\<lparr>ts_removals := rs\<rparr>)" "conn \<notin> set rs"
    using assms(1) r by (simp_all add: server_inv_def posts_of_def live_def)
  from RemoveInLoop_inv [OF this(1,2)] this(3) show ?thesis using Srv_removal r by auto
qed

lemma server_reach_inv: "server_reach s0 s \<Longrightarrow> server_inv s0 \<Longrightarrow> server_inv s"
proof (induction rule: server_reach.induct)
  case (goes_on s i s')
  then show ?case using server_step_inv [of s i] by simp
qed

lemma started_server_inv:
  assumes "TcpServer_new (Some base) ip name acc = Inr s0" and "TcpServer_SetThreadNum n s0 = Inr s1"
    and "TcpServer_Start start_loop has_init listen_ret s1 = Inr s2" and "length ip \<le> 51"
  shows "server_inv s2"
proof -
  have s0: "ts_next_connid s0 = 1" "ts_connections s0 = []" "ts_removals s0 = []" "ts_posts s0 = []" "ts_ip_port s0 = ip"
    "ac_new_connection_callback (ts_acceptor s0)" "ts_started s0 = 0" "ts_pool s0 = EventLoopThreadPool_new base name"
    using assms(1) by (auto simp: TcpServer_new_def Acceptor_SetNewConnectionCallback_def)
  have s1: "s1 = s0\<lparr>ts_pool := EventLoopThreadPool_SetThreadNum n (EventLoopThreadPool_new base name)\<rparr>"
    using assms(2) s0(8) by (simp add: TcpServer_SetThreadNum_def res_simps)
  obtain acc' where s2: "s2 = s1\<lparr>ts_started := 1, ts_pool := start_threads start_loop 0 (nat n)
      ((EventLoopThreadPool_SetThreadNum n (EventLoopThreadPool_new base name))\<lparr>lp_started := True\<rparr>), ts_acceptor := acc'\<rparr>"
    "ac_new_connection_callback acc'"
    using assms(3) s0 s1
    by (auto simp: TcpServer_Start_def EventLoopThreadPool_Start_def EventLoopThreadPool_SetThreadNum_def
        EventLoopThreadPool_new_def Acceptor_Listen_def res_simps Let_def)
  have "pool_ok (ts_pool s2)"
    by (auto simp: s2 pool_ok_def start_threads_loops EventLoopThreadPool_SetThreadNum_def EventLoopThreadPool_new_def)
  then show ?thesis
    using s0 s1 s2 assms(4) by (simp add: server_inv_def live_def posts_of_def smap_ok_def)
qed

lemma destroy_posts:
  "posts_of j (fold (\<lambda>(_, conn). post (cr_loop conn) (Post_destroyed (cr_id conn))) cs s) =
   posts_of j s @ map (\<lambda>(_, conn). (cr_loop conn, Post_destroyed (cr_id conn))) (filter (\<lambda>(_, conn). cr_id conn = j) cs)"
  by (induction cs arbitrary: s) (auto simp: posts_of_def post_def)

lemma only_one: "distinct xs \<Longrightarrow> x \<in> set xs \<Longrightarrow> (\<And>y. y \<in> set xs \<Longrightarrow> P y \<longleftrightarrow> y = x) \<Longrightarrow> filter P xs = [x]"
proof (induction xs)
  case (Cons a xs)
  then have "filter P xs = (if a = x then [] else [x])"
    by (cases "a = x") (auto simp: filter_empty_conv)
  then show ?case using Cons.prems by (auto split: if_splits)
qed simp

lemma live_filter:
  assumes "server_inv s" and "conn \<in> live s"
  shows "filter (\<lambda>(_, c). cr_id c = cr_id conn) (ts_connections s) = [(cr_name conn, conn)]"
proof (rule only_one [OF _ live_name [OF assms]])
  show "distinct (ts_connections s)"
    using assms(1) smap_ok_distinct distinct_map by (auto simp: server_inv_def)
next
  fix e assume e: "e \<in> set (ts_connections s)"
  obtain k c where kc: "e = (k, c)" by (cases e)
  with e have c: "c \<in> live s" by (force simp: live_def)
  have "k = cr_name c" using e kc assms(1) by (auto simp: server_inv_def)
  then show "(case e of (_, c) \<Rightarrow> cr_id c = cr_id conn) = (e = (cr_name conn, conn))"
    using live_id [OF assms(1) c assms(2)] kc by auto
qed

section \<open>Properties\<close>


definition sample_server :: tcp_server where
  "sample_server = \<lparr>ts_ip_port = ''0.0.0.0:80'', ts_name = ''S'',
     ts_acceptor = \<lparr>ac_channel = Channel_EnableReading (Channel_SetReadCallback (Channel_new 3)), ac_listening = True,
       ac_new_connection_callback = True, ac_idle_fd = 4\<rparr>,
     ts_pool = (EventLoopThreadPool_new 0 ''S'')\<lparr>lp_started := True\<rparr>, ts_write_complete_callback = False, ts_started = 1,
     ts_next_connid = 1, ts_connections = [], ts_removals = [], ts_posts = []\<rparr>"

lemma sample_server_run:
  "\<exists>s. server_reach sample_server s \<and> ts_next_connid s = 2"
proof -
  obtain ob where ob: "TcpConnection_new 5 = Inr ob" using TcpConnection_new_ok [of 5] by auto
  have "\<exists>s. server_exec (Srv_readable (Inr (5, sockaddr_zero)) 0 0) sample_server = Inr s \<and> ts_next_connid s = 2"
    by (simp add: Acceptor_HandleRead_def Socket_Accept_def socket_Accept_def sample_server_def TcpServer_NewConnection_def
        EventLoopThreadPool_GetNextLoop_def EventLoopThreadPool_new_def ob Let_def post_def)
  then show ?thesis
    using server_reach.goes_on [OF server_reach.runs, of "Srv_readable (Inr (5, sockaddr_zero)) 0 0" sample_server]
    by (auto simp: sample_server_def)
qed


end
