(* ===== verification/HttpSession.thy ===== *)
theory HttpSession
  imports HttpServer TcpServer
begin

text \<open>
  A whole session of an HTTP connection: \<open>TcpConnection::HandleRead\<close> and \<open>HandleWrite\<close> (\<open>dwater/net/tcp_connection.cc\<close>) with the
  callbacks the constructor of \<open>HttpServer\<close> (\<open>dwater/net/http/http_server.cc\<close>) registers, over any sequence of events of the
  socket. The bytes of the client arrive in any pieces; the reference is the list of the requests they print.
\<close>

section \<open>The server object\<close>

record http_server =
  hs_server :: tcp_server
  hs_http_callback :: "http_request \<Rightarrow> http_response \<Rightarrow> http_response"

definition HttpServer_new :: "loop_ptr option \<Rightarrow> string \<Rightarrow> string \<Rightarrow> acceptor \<Rightarrow> http_server result" where
  "HttpServer_new loop ip_port name acc =
     bindr (TcpServer_new loop ip_port name acc) (\<lambda>s. Inr \<lparr>hs_server = s, hs_http_callback = DefaultHttpCallback\<rparr>)"

definition HttpServer_SetHttpCallback :: "(http_request \<Rightarrow> http_response \<Rightarrow> http_response) \<Rightarrow> http_server \<Rightarrow> http_server" where
  "HttpServer_SetHttpCallback cb h = h\<lparr>hs_http_callback := cb\<rparr>"

definition HttpServer_SetThreadNum :: "int \<Rightarrow> http_server \<Rightarrow> http_server result" where
  "HttpServer_SetThreadNum num_threads h =
     bindr (TcpServer_SetThreadNum num_threads (hs_server h)) (\<lambda>s. Inr (h\<lparr>hs_server := s\<rparr>))"

definition HttpServer_Start :: "(string \<Rightarrow> loop_ptr) \<Rightarrow> bool \<Rightarrow> int \<Rightarrow> http_server \<Rightarrow> http_server result" where
  "HttpServer_Start start_loop has_init listen_ret h =
     bindr (TcpServer_Start start_loop has_init listen_ret (hs_server h)) (\<lambda>s. Inr (h\<lparr>hs_server := s\<rparr>))"

section \<open>Events of a connection\<close>

text \<open>A connection with its context, which the server keeps in the connection's \<open>boost::any\<close>.\<close>

type_synonym http_conn = "http_context option \<times> tcp_connection"

text \<open>\<open>ConnectionEstablished\<close> with \<open>OnConnection\<close> as its connection callback.\<close>

definition http_established :: "int \<Rightarrow> http_conn result" where
  "http_established fd =
     bindr (TcpConnection_new fd) (\<lambda>c.
     bindr (TcpConnection_ConnectionEstablished True [] c) (\<lambda>c. Inr (HttpServer_OnConnection c None, c)))"

text \<open>\<open>HandleRead\<close> with \<open>OnMessage\<close> as its message callback and \<open>OnConnection\<close> as its connection callback.\<close>

definition http_HandleRead ::
  "(http_request \<Rightarrow> http_response \<Rightarrow> http_response) \<Rightarrow> int + string \<Rightarrow> timestamp \<Rightarrow> int + nat \<Rightarrow> http_conn \<Rightarrow> http_conn result option" where
  "http_HandleRead http_callback readv receive_time write hc =
     (case hc of (context, c) \<Rightarrow>
      case Buffer_ReadFd (socket_Readv readv (readv_capacity (tc_input c))) (tc_input c) of
        Inl e \<Rightarrow> Some (Inl e)
      | Inr (n, saved_errno, b) \<Rightarrow>
          let c1 = c\<lparr>tc_input := b\<rparr> in
          if n > 0
          then map_option (\<lambda>r. bindr r (\<lambda>(context, c). Inr (Some context, c)))
                 (HttpServer_OnMessage http_callback receive_time write context (emit Message_callback c1))
          else if n = 0
          then Some (bindr (TcpConnection_HandleClose True [] c1) (\<lambda>c. Inr (HttpServer_OnConnection c context, c)))
          else Some (Inr (context, TcpConnection_HandleError (emit Log_error c1))))"

text \<open>What the socket does: it has bytes to read, with the time of the poll and the outcome of a \<open>write\<close> made by the
  handler; or it can be written to.\<close>

datatype http_event = Http_readable string timestamp "int + nat" | Http_writable "int + nat"

fun http_run :: "(http_request \<Rightarrow> http_response \<Rightarrow> http_response) \<Rightarrow> http_event list \<Rightarrow> http_conn \<Rightarrow> http_conn result option" where
  "http_run cb [] hc = Some (Inr hc)"
| "http_run cb (Http_readable data t w # es) hc =
     (case http_HandleRead cb (Inr data) t w hc of None \<Rightarrow> None
      | Some (Inl e) \<Rightarrow> Some (Inl e)
      | Some (Inr hc) \<Rightarrow> http_run cb es hc)"
| "http_run cb (Http_writable w # es) hc =
     (case TcpConnection_HandleWrite True w (snd hc) of Inl e \<Rightarrow> Some (Inl e)
      | Inr c \<Rightarrow> http_run cb es (fst hc, c))"

section \<open>The reference\<close>

definition texts :: "http_request list \<Rightarrow> string" where
  "texts rs = concat (map request_text rs)"

fun received :: "http_event list \<Rightarrow> string" where
  "received [] = []"
| "received (Http_readable data t w # es) = data @ received es"
| "received (Http_writable w # es) = received es"

fun event_times :: "http_event list \<Rightarrow> timestamp set" where
  "event_times [] = {}"
| "event_times (Http_readable data t w # es) = insert t (event_times es)"
| "event_times (Http_writable w # es) = event_times es"

fun event_ok :: "http_event \<Rightarrow> bool" where
  "event_ok (Http_readable data t w) \<longleftrightarrow> data \<noteq> [] \<and> length data \<le> extrabuf_size \<and> write_ok w"
| "event_ok (Http_writable w) \<longleftrightarrow> True"

text \<open>How many requests lie wholly in the first \<open>n\<close> bytes.\<close>

fun complete :: "http_request list \<Rightarrow> nat \<Rightarrow> nat" where
  "complete [] n = 0"
| "complete (r # rs) n =
     (if length (request_text r) \<le> n then Suc (complete rs (n - length (request_text r))) else 0)"

text \<open>Each message answers at most one request: the number of answers after \<open>got\<close> bytes and \<open>k\<close> answers.\<close>

fun answered :: "http_request list \<Rightarrow> nat \<Rightarrow> nat \<Rightarrow> http_event list \<Rightarrow> nat" where
  "answered rs got k [] = k"
| "answered rs got k (Http_readable data t w # es) =
     (let got' = got + length data in answered rs got' (if k < complete rs got' then Suc k else k) es)"
| "answered rs got k (Http_writable w # es) = answered rs got k es"

text \<open>No piece holds the end of more than one request.\<close>

fun aligned :: "http_request list \<Rightarrow> nat \<Rightarrow> http_event list \<Rightarrow> bool" where
  "aligned rs got [] \<longleftrightarrow> True"
| "aligned rs got (Http_readable data t w # es) \<longleftrightarrow>
     complete rs (got + length data) \<le> Suc (complete rs got) \<and> aligned rs (got + length data) es"
| "aligned rs got (Http_writable w # es) \<longleftrightarrow> aligned rs got es"

definition response_to :: "(http_request \<Rightarrow> http_response \<Rightarrow> http_response) \<Rightarrow> http_request \<Rightarrow> timestamp \<Rightarrow> http_response" where
  "response_to cb r t = cb (r\<lparr>req_receive_time := t\<rparr>) (HttpResponse_new (wants_close r))"

text \<open>A callback that answers with responses of at most \<open>m\<close> bytes and keeps the connection open.\<close>

definition keeps_alive :: "(http_request \<Rightarrow> http_response \<Rightarrow> http_response) \<Rightarrow> nat \<Rightarrow> http_request \<Rightarrow> bool" where
  "keeps_alive cb m r \<longleftrightarrow>
     (\<forall>t. \<not> resp_close_connection (response_to cb r t) \<and> length (response_text (response_to cb r t)) \<le> m)"

lemma texts_simps [simp]: "texts [] = []" "texts (r # rs) = request_text r @ texts rs"
  by (simp_all add: texts_def)

lemma complete_less: "k < complete rs n \<longleftrightarrow> k < length rs \<and> length (texts (take (Suc k) rs)) \<le> n"
proof (induction rs arbitrary: k n)
  case (Cons r rs)
  then show ?case by (cases k) auto
qed simp

lemma complete_mono: "m \<le> n \<Longrightarrow> complete rs m \<le> complete rs n"
  by (induction rs arbitrary: m n) (auto simp: diff_le_mono)

lemma answered_le: "k \<le> complete rs got \<Longrightarrow> answered rs got k es \<le> complete rs (got + length (received es))"
proof (induction rs got k es rule: answered.induct)
  case (2 rs got k data t w es)
  have "complete rs got \<le> complete rs (got + length data)" by (rule complete_mono) simp
  then have "(if k < complete rs (got + length data) then Suc k else k) \<le> complete rs (got + length data)" using 2(2) by auto
  from 2(1) [OF refl this] show ?case by (simp add: Let_def add.assoc)
qed auto

lemma answered_aligned:
  "aligned rs got es \<Longrightarrow> answered rs got (complete rs got) es = complete rs (got + length (received es))"
proof (induction rs got es rule: aligned.induct)
  case (2 rs got data t w es)
  have "complete rs got \<le> complete rs (got + length data)" by (rule complete_mono) simp
  then have "(if complete rs got < complete rs (got + length data) then Suc (complete rs got) else complete rs got) =
      complete rs (got + length data)" using 2(2) by auto
  then show ?case using 2 by (simp add: Let_def add.assoc)
qed auto

section \<open>The reference parser on a part of the input\<close>

lemma http_spec_shorter: "http_spec t c xs = Inr (good, c', rest) \<Longrightarrow> length rest \<le> length xs"
proof (induction c xs rule: http_lines_induct [where t = t])
  case (line c xs)
  then show ?case
    by (force simp: http_spec_next [OF line.hyps] simp del: drop_drop split: sum.splits line_effect.splits)
qed (simp add: http_spec_wait)

text \<open>Once the input holds a whole request, the rest of it does not matter; before that, the parser asks for more.\<close>

lemma crlf_later:
  assumes "find_sub kCRLF xs = length xs" and "find_sub kCRLF (xs @ ys) \<noteq> length (xs @ ys)"
  shows "length xs < find_sub kCRLF (xs @ ys) + 2"
proof (rule ccontr)
  let ?k = "find_sub kCRLF (xs @ ys)"
  assume "\<not> length xs < ?k + 2"
  moreover from crlf_inside(2) [OF assms(2)] have "take 2 (drop ?k (xs @ ys)) = kCRLF" .
  ultimately have "take (length kCRLF) (drop ?k xs) = kCRLF" by simp
  then have "find_sub kCRLF xs \<le> ?k" by (rule find_sub_leI [rotated]) (simp add: kCRLF_def)
  then show False using assms(1) \<open>\<not> length xs < ?k + 2\<close> by simp
qed

lemma got_all_reads_line:
  assumes "http_spec t c xs = Inr (True, c', rest)" and "parsing c" and "ctx_state c' = k_got_all"
  shows "find_sub kCRLF xs \<noteq> length xs" and "length rest + find_sub kCRLF xs + 2 \<le> length xs"
proof -
  let ?k = "find_sub kCRLF xs"
  show k: "?k \<noteq> length xs" using assms by (auto simp: http_spec_wait parsing_def)
  have "length rest \<le> length (drop (?k + 2) xs)"
    using assms(1,2) http_line_parsing(4) [of t c "take ?k xs"]
    by (auto simp: http_spec_next [OF k] simp del: drop_drop length_drop dest!: http_spec_shorter split: sum.splits line_effect.splits)
  then show "length rest + ?k + 2 \<le> length xs" using crlf_inside(1) [OF k] by simp
qed

lemma http_spec_split:
  assumes "http_spec t c (xs @ ys) = Inr (True, c', rest)" and "parsing c" and "ctx_state c' = k_got_all"
  shows "if length ys \<le> length rest then \<exists>zs. rest = zs @ ys \<and> http_spec t c xs = Inr (True, c', zs)
    else \<exists>c1 zs. http_spec t c xs = Inr (True, c1, zs) \<and> parsing c1"
  using assms(1,2)
proof (induction c xs rule: http_lines_induct [where t = t])
  case (wait c xs)
  have "length rest < length ys"
    using got_all_reads_line [OF wait.prems assms(3)] crlf_later [OF wait.hyps, of ys] by simp
  then show ?case using wait by (auto simp: http_spec_wait)
next
  case (line c xs)
  show ?case
    using line.IH line.prems http_line_parsing(1,4) [of t c "take (find_sub kCRLF xs) xs"] parsing_headers
    by (auto simp: http_spec_next [OF line.hyps] http_spec_next_append [OF line.hyps] simp del: drop_drop
        split: sum.splits line_effect.splits if_splits)
qed

text \<open>The time of a call matters only when it reads the request line.\<close>

definition with_time :: "timestamp \<Rightarrow> http_context \<Rightarrow> http_context" where
  "with_time u c = c\<lparr>ctx_request := (ctx_request c)\<lparr>req_receive_time := u\<rparr>\<rparr>"

lemma AddHeader_time:
  "HttpRequest_AddHeader f v (r\<lparr>req_receive_time := u\<rparr>) = (HttpRequest_AddHeader f v r)\<lparr>req_receive_time := u\<rparr>"
  by (simp add: HttpRequest_AddHeader_def Let_def)

lemma with_time_simps [simp]:
  "ctx_state (with_time u c) = ctx_state c" "with_time u (with_time v c) = with_time u c"
  "with_time u (c\<lparr>ctx_state := s\<rparr>) = (with_time u c)\<lparr>ctx_state := s\<rparr>"
  "(with_time u c)\<lparr>ctx_request := HttpRequest_AddHeader f x (ctx_request (with_time u c))\<rparr> =
     with_time u (c\<lparr>ctx_request := HttpRequest_AddHeader f x (ctx_request c)\<rparr>)"
  by (simp_all add: with_time_def AddHeader_time)

lemma http_line_time:
  assumes "ctx_state c = kexpect_headers"
  shows "http_line t' c line = http_line t c line"
    and "http_line t (with_time u c) line =
      (case http_line t c line of
         Inr (Goes_on c') \<Rightarrow> Inr (Goes_on (with_time u c'))
       | Inr (Finishes c') \<Rightarrow> Inr (Finishes (with_time u c'))
       | r \<Rightarrow> r)"
  using assms by (simp_all add: http_line_def Let_def)

lemma http_spec_headers_time:
  assumes "ctx_state c = kexpect_headers"
  shows "http_spec t' c xs = http_spec t c xs"
    and "http_spec t c xs = Inr (g, c', rest) \<Longrightarrow> http_spec t (with_time u c) xs = Inr (g, with_time u c', rest)"
proof -
  have "http_spec t' c xs = http_spec t c xs \<and>
      (\<forall>g c' rest. http_spec t c xs = Inr (g, c', rest) \<longrightarrow> http_spec t (with_time u c) xs = Inr (g, with_time u c', rest))"
    using assms
  proof (induction c xs rule: http_lines_induct [where t = t])
    case (line c xs)
    show ?case
      using line.IH http_line_parsing [of t c "take (find_sub kCRLF xs) xs"] line.prems
      by (auto simp: http_spec_next [OF line.hyps] http_line_time(1) [OF line.prems, of t' _ t] http_line_time(2) [OF line.prems]
          parsing_headers simp del: drop_drop split: sum.splits line_effect.splits)
  qed (simp add: http_spec_wait)
  then show "http_spec t' c xs = http_spec t c xs"
    and "http_spec t c xs = Inr (g, c', rest) \<Longrightarrow> http_spec t (with_time u c) xs = Inr (g, with_time u c', rest)" by blast+
qed

lemma http_spec_time:
  assumes "http_spec t c xs = Inr (True, c', rest)" and "parsing c" and "ctx_state c' = k_got_all"
  shows "http_spec t' c xs = Inr (True, if ctx_state c = kexpect_request_line then with_time t' c' else c', rest)"
proof (cases "ctx_state c = kexpect_request_line")
  case True
  let ?k = "find_sub kCRLF xs"
  have k: "?k \<noteq> length xs" using got_all_reads_line [OF assms] by blast
  with assms(1) True obtain c1 where c1: "HttpContext_ProcessRequestLine (take ?k xs) c = Inr (True, c1)"
    by (auto simp: http_spec_next [OF k] http_line_def bindr_def split: sum.splits if_splits)
  let ?c = "c1\<lparr>ctx_state := kexpect_headers\<rparr>"
  have line: "http_line v c (take ?k xs) = Inr (Goes_on (with_time v ?c))" for v
    using True c1 by (simp add: http_line_def with_time_def)
  have "http_spec t (with_time t ?c) (drop (?k + 2) xs) = Inr (True, c', rest)"
    using assms(1) line by (simp add: http_spec_next [OF k])
  from http_spec_headers_time(2) [OF _ this, of t']
  have "http_spec t' (with_time t' ?c) (drop (?k + 2) xs) = Inr (True, with_time t' c', rest)"
    using http_spec_headers_time(1) [of "with_time t' ?c" t' _ t] by simp
  then show ?thesis using True line by (simp add: http_spec_next [OF k])
next
  case False
  then show ?thesis using assms(1,2) http_spec_headers_time(1) [of c t' xs t] by (simp add: parsing_def)
qed

section \<open>What a connection expects\<close>

text \<open>
  The requests still to be answered, the bytes still to come, the context and the unread input: parsed together, input and
  future give the next request, whatever the time of the call, and leave the text of the others.
\<close>

definition expects :: "timestamp set \<Rightarrow> http_request list \<Rightarrow> string \<Rightarrow> http_context \<Rightarrow> string \<Rightarrow> bool" where
  "expects T rs future ctx input \<longleftrightarrow> parsing ctx \<and>
     (case rs of [] \<Rightarrow> input = [] \<and> future = []
      | r # rest \<Rightarrow> \<forall>t. \<exists>u\<in>insert t T. http_spec t ctx (input @ future) =
          Inr (True, \<lparr>ctx_state = k_got_all, ctx_request = r\<lparr>req_receive_time := u\<rparr>\<rparr>, texts rest))"

lemma expects_fresh:
  assumes "list_all printable rs" and "input @ future = texts rs"
  shows "expects T rs future HttpContext_new input"
  using assms http_spec_printed by (cases rs) (auto simp: expects_def)

lemma expects_split:
  assumes "expects T (r # rest) (data @ future) ctx input"
  shows "if length future \<le> length (texts rest)
    then \<exists>u zs. u \<in> insert t T \<and> zs @ future = texts rest \<and>
      http_spec t ctx (input @ data) = Inr (True, \<lparr>ctx_state = k_got_all, ctx_request = r\<lparr>req_receive_time := u\<rparr>\<rparr>, zs)
    else \<exists>ctx' zs. http_spec t ctx (input @ data) = Inr (True, ctx', zs) \<and> parsing ctx' \<and>
      expects (insert t T) (r # rest) future ctx' zs"
proof -
  from assms obtain u where u: "u \<in> insert t T" "parsing ctx"
    "http_spec t ctx ((input @ data) @ future) = Inr (True, \<lparr>ctx_state = k_got_all, ctx_request = r\<lparr>req_receive_time := u\<rparr>\<rparr>, texts rest)"
    unfolding expects_def by auto
  note split = http_spec_split [OF u(3,2)]
  show ?thesis
  proof (cases "length future \<le> length (texts rest)")
    case True
    then show ?thesis using split u(1) by auto
  next
    case False
    then obtain ctx' zs where s: "http_spec t ctx (input @ data) = Inr (True, ctx', zs)" "parsing ctx'" using split by auto
    have w: "http_spec t ctx' (zs @ future) = Inr (True, \<lparr>ctx_state = k_got_all, ctx_request = r\<lparr>req_receive_time := u\<rparr>\<rparr>, texts rest)"
      using http_spec_chunk [OF s, of future] u(3) by simp
    have "expects (insert t T) (r # rest) future ctx' zs"
      using http_spec_time [OF w s(2)] s(2) u(1) by (auto simp: expects_def with_time_def)
    then show ?thesis using False s by auto
  qed
qed

text \<open>Reading a piece.\<close>

lemma ReadFd_piece:
  assumes ok: "conn_ok (length data + m) c" and data: "length data \<le> extrabuf_size"
  shows "\<exists>b. Buffer_ReadFd (socket_Readv (Inr data) (readv_capacity (tc_input c))) (tc_input c) = Inr (int (length data), None, b) \<and>
    readable b = readable (tc_input c) @ data \<and> conn_ok m (c\<lparr>tc_input := b\<rparr>)"
proof -
  have cap: "length data \<le> readv_capacity (tc_input c)" using data by (simp add: readv_capacity_def Let_def)
  have inv: "buf_inv (tc_input c)" by (rule conn_bufs(1) [OF ok])
  then have "max kcheap_prepend (length (buf_buffer (tc_input c))) + extrabuf_size \<le> max_vector"
    using ok buf_invD(3) by (simp add: conn_ok_def buffers_ok_def)
  from ReadFd_ok [OF inv cap this] ReadFd_conn [of "Inr data" m c] ok cap show ?thesis by (auto simp: read_bytes_def)
qed

lemma HandleWrite_keeps:
  assumes "TcpConnection_HandleWrite True w c = Inr c'" and "tc_state c = kconnected"
  shows "tc_state c' = kconnected \<and> tc_input c' = tc_input c \<and> tc_accepted c' = tc_accepted c"
  using assms by (auto simp: TcpConnection_HandleWrite_def AssertInLoopThread_def Let_def res_simps split: if_splits sum.splits)

text \<open>One piece: the next request is answered exactly when its last byte has come.\<close>

lemma http_HandleRead_step:
  assumes exp: "expects T (r # rest) (data @ future) ctx (readable (tc_input c))" and pr: "list_all printable rest"
    and ev: "data \<noteq> []" "length data \<le> extrabuf_size" "write_ok w"
    and ka: "keeps_alive cb M r" "M < 2 ^ 31"
    and ok: "conn_ok (length data + (M + m)) c" "tc_state c = kconnected"
  shows "\<exists>ctx' c'. http_HandleRead cb (Inr data) t w (Some ctx, c) = Some (Inr (Some ctx', c')) \<and> tc_state c' = kconnected \<and>
    (if length future \<le> length (texts rest)
     then conn_ok m c' \<and> expects T rest future ctx' (readable (tc_input c')) \<and>
       (\<exists>u\<in>insert t T. tc_accepted c' = tc_accepted c @ response_text (response_to cb r u))
     else conn_ok (M + m) c' \<and> expects (insert t T) (r # rest) future ctx' (readable (tc_input c')) \<and> tc_accepted c' = tc_accepted c)"
proof -
  obtain b where b: "Buffer_ReadFd (socket_Readv (Inr data) (readv_capacity (tc_input c))) (tc_input c) = Inr (int (length data), None, b)"
    "readable b = readable (tc_input c) @ data" "conn_ok (M + m) (c\<lparr>tc_input := b\<rparr>)"
    using ReadFd_piece [OF ok(1) ev(2)] by blast
  let ?c = "emit Message_callback (c\<lparr>tc_input := b\<rparr>)"
  have c: "conn_ok (M + m) ?c" "readable (tc_input ?c) = readable (tc_input c) @ data" "tc_state ?c = kconnected"
    using b ok(2) by (simp_all add: conn_emit)
  have run: "http_HandleRead cb (Inr data) t w (Some ctx, c) =
      map_option (\<lambda>r. bindr r (\<lambda>(context, c). Inr (Some context, c))) (HttpServer_OnMessage cb t w (Some ctx) ?c)"
    using b(1) ev(1) by (simp add: http_HandleRead_def Let_def)
  have par: "parsing ctx" using exp by (simp add: expects_def)
  note split = expects_split [OF exp, of t]
  show ?thesis
  proof (cases "length future \<le> length (texts rest)")
    case True
    with split obtain u zs where u: "u \<in> insert t T" "zs @ future = texts rest"
      "http_spec t ctx (readable (tc_input ?c)) = Inr (True, \<lparr>ctx_state = k_got_all, ctx_request = r\<lparr>req_receive_time := u\<rparr>\<rparr>, zs)"
      unfolding c(2) by auto
    have short: "length (response_text (response_to cb r u)) \<le> M" "\<not> resp_close_connection (response_to cb r u)"
      using ka(1) by (simp_all add: keeps_alive_def)
    have resp: "response_to cb r u = cb (r\<lparr>req_receive_time := u\<rparr>) (HttpResponse_new (wants_close (r\<lparr>req_receive_time := u\<rparr>)))"
      by (simp add: response_to_def)
    have small: "length (response_text (response_to cb r u)) < 2 ^ 31" using short(1) ka(2) by simp
    have room: "conn_ok (length (response_text (response_to cb r u)) + m) ?c" by (rule conn_mono [OF c(1)]) (use short(1) in simp)
    from OnMessage_request [where cb = cb, OF u(3) par resp small room c(3) ev(3)] short(2) obtain c' where
      "HttpServer_OnMessage cb t w (Some ctx) ?c = Some (Inr (HttpContext_new, c'))" "conn_ok m c'"
      "tc_accepted c' = tc_accepted c @ response_text (response_to cb r u)" "readable (tc_input c') = zs" "tc_state c' = kconnected"
      by auto
    then show ?thesis using True u(1) expects_fresh [OF pr u(2), of T] run by auto
  next
    case False
    with split obtain ctx' zs where s: "http_spec t ctx (readable (tc_input ?c)) = Inr (True, ctx', zs)" "parsing ctx'"
      "expects (insert t T) (r # rest) future ctx' zs" unfolding c(2) by auto
    from OnMessage_more [OF s(1) par s(2) c(1), of cb w] obtain c' where
      "HttpServer_OnMessage cb t w (Some ctx) ?c = Some (Inr (ctx', c'))" "conn_ok (M + m) c'" "tc_accepted c' = tc_accepted c"
      "readable (tc_input c') = zs" "tc_state c' = kconnected" using c(3) by auto
    then show ?thesis using False s(3) run by auto
  qed
qed

lemma next_complete:
  assumes "length (texts rs) = got + length future" and "k < length rs"
  shows "k < complete rs got \<longleftrightarrow> length future \<le> length (texts (drop (Suc k) rs))"
proof -
  have "texts rs = texts (take (Suc k) rs) @ texts (drop (Suc k) rs)"
    unfolding texts_def by (metis append_take_drop_id concat_append map_append)
  then have "length (texts rs) = length (texts (take (Suc k) rs)) + length (texts (drop (Suc k) rs))" by simp
  then show ?thesis using assms by (auto simp: complete_less)
qed

lemma expects_mono: "expects T rs future ctx input \<Longrightarrow> T \<subseteq> T' \<Longrightarrow> expects T' rs future ctx input"
  unfolding expects_def by (cases rs) (simp, fastforce)

lemma map2_append: "map2 f xs (us @ ts) = map2 f xs us @ map2 f (drop (length us) xs) ts"
proof (induction us arbitrary: xs)
  case (Cons u us)
  then show ?case by (cases xs) auto
qed simp

text \<open>One piece in a session: \<open>k\<close> requests of \<open>rs\<close> were answered before it, and after it one more if its end has come.\<close>

lemma http_piece:
  assumes exp: "expects T (drop k rs) (data @ future) ctx (readable (tc_input c))" and k: "k \<le> length rs"
    and len: "length (texts rs) = got + length data + length future" and ev: "event_ok (Http_readable data t w)"
    and ok: "conn_ok (length data + length (drop k rs) * M + m) c" "tc_state c = kconnected"
    and rs: "list_all printable rs" "list_all (keeps_alive cb M) rs" "M < 2 ^ 31"
  defines "k' \<equiv> if k < complete rs (got + length data) then Suc k else k"
  shows "\<exists>ctx' c' us. http_HandleRead cb (Inr data) t w (Some ctx, c) = Some (Inr (Some ctx', c')) \<and> tc_state c' = kconnected \<and>
    conn_ok (length (drop k' rs) * M + m) c' \<and> k' \<le> length rs \<and> expects (insert t T) (drop k' rs) future ctx' (readable (tc_input c')) \<and>
    k + length us = k' \<and> set us \<subseteq> insert t T \<and>
    tc_accepted c' = tc_accepted c @ concat (map2 (\<lambda>r t. response_text (response_to cb r t)) (drop k rs) us)"
proof -
  have klt: "k < length rs" using exp k ev by (cases "k < length rs") (auto simp: expects_def)
  then have d: "drop k rs = rs ! k # drop (Suc k) rs" by (simp add: Cons_nth_drop_Suc)
  have ev': "data \<noteq> []" "length data \<le> extrabuf_size" "write_ok w" using ev by simp_all
  let ?m = "length (drop (Suc k) rs) * M + m"
  have ok': "conn_ok (length data + (M + ?m)) c" by (rule conn_mono [OF ok(1)]) (simp add: d)
  have pr: "list_all printable (drop (Suc k) rs)" and ka: "keeps_alive cb M (rs ! k)"
    using rs klt by (auto simp: list_all_iff dest: in_set_dropD)
  have "k < complete rs (got + length data) \<longleftrightarrow> length future \<le> length (texts (drop (Suc k) rs))"
    using next_complete [OF len klt] .
  then have k': "k' = (if length future \<le> length (texts (drop (Suc k) rs)) then Suc k else k)" by (simp add: k'_def)
  obtain ctx1 c1 where c1: "http_HandleRead cb (Inr data) t w (Some ctx, c) = Some (Inr (Some ctx1, c1))" "tc_state c1 = kconnected"
    "if length future \<le> length (texts (drop (Suc k) rs))
     then conn_ok ?m c1 \<and> expects T (drop (Suc k) rs) future ctx1 (readable (tc_input c1)) \<and>
       (\<exists>u\<in>insert t T. tc_accepted c1 = tc_accepted c @ response_text (response_to cb (rs ! k) u))
     else conn_ok (M + ?m) c1 \<and> expects (insert t T) (rs ! k # drop (Suc k) rs) future ctx1 (readable (tc_input c1)) \<and>
       tc_accepted c1 = tc_accepted c"
    using http_HandleRead_step [OF exp [unfolded d] pr ev' ka rs(3) ok' ok(2), of t] by (elim exE conjE) (rule that; assumption)
  show ?thesis
  proof (cases "length future \<le> length (texts (drop (Suc k) rs))")
    case True
    with c1(3) obtain u where u: "conn_ok ?m c1" "expects T (drop (Suc k) rs) future ctx1 (readable (tc_input c1))" "u \<in> insert t T"
      "tc_accepted c1 = tc_accepted c @ response_text (response_to cb (rs ! k) u)" by auto
    then show ?thesis using c1(1,2) True klt expects_mono [OF u(2), of "insert t T"]
      by (intro exI [of _ ctx1] exI [of _ c1] exI [of _ "[u]"]) (simp add: k' d subset_insertI)
  next
    case False
    then show ?thesis using c1 k by (intro exI [of _ ctx1] exI [of _ c1] exI [of _ "[]"]) (simp add: k' d add.assoc)
  qed
qed

lemma http_run_ok:
  assumes "expects T (drop k rs) (received es @ rest) ctx (readable (tc_input c))" and "k \<le> length rs"
    and "length (texts rs) = got + length (received es @ rest)" and "list_all event_ok es"
    and "conn_ok (length (received es) + length (drop k rs) * M + m) c" and "tc_state c = kconnected"
    and rs: "list_all printable rs" "list_all (keeps_alive cb M) rs" "M < 2 ^ 31"
  shows "\<exists>ctx' c' ts. http_run cb es (Some ctx, c) = Some (Inr (Some ctx', c')) \<and> conn_ok m c' \<and> tc_state c' = kconnected \<and>
    k + length ts = answered rs got k es \<and> set ts \<subseteq> T \<union> event_times es \<and>
    tc_accepted c' = tc_accepted c @ concat (map2 (\<lambda>r t. response_text (response_to cb r t)) (drop k rs) ts)"
  using assms(1-6)
proof (induction es arbitrary: T k ctx c got)
  case Nil
  then show ?case using conn_mono by (fastforce intro: exI [of _ "[]"])
next
  case (Cons e es)
  show ?case
  proof (cases e)
    case (Http_writable w)
    obtain c1 where c1: "TcpConnection_HandleWrite True w c = Inr c1" "conn_ok (length (received es) + length (drop k rs) * M + m) c1"
      using HandleWrite_ok [of _ c w] Cons.prems(5) Http_writable by auto
    note keep = HandleWrite_keeps [OF c1(1) Cons.prems(6)]
    show ?thesis using Cons.IH [of T k ctx c1 got] Cons.prems c1 keep by (simp add: Http_writable)
  next
    case (Http_readable data t w)
    let ?future = "received es @ rest" and ?got = "got + length data" and ?f = "\<lambda>r t. response_text (response_to cb r t)"
    let ?k = "if k < complete rs ?got then Suc k else k"
    have len: "length (texts rs) = ?got + length ?future" using Cons.prems(3) Http_readable by simp
    have ok: "conn_ok (length data + length (drop k rs) * M + (length (received es) + m)) c"
      by (rule conn_mono [OF Cons.prems(5)]) (simp add: Http_readable)
    obtain ctx1 c1 us where c1: "http_HandleRead cb (Inr data) t w (Some ctx, c) = Some (Inr (Some ctx1, c1))" "tc_state c1 = kconnected"
      "conn_ok (length (drop ?k rs) * M + (length (received es) + m)) c1" "?k \<le> length rs"
      "expects (insert t T) (drop ?k rs) ?future ctx1 (readable (tc_input c1))" "k + length us = ?k" "set us \<subseteq> insert t T"
      "tc_accepted c1 = tc_accepted c @ concat (map2 ?f (drop k rs) us)"
      using http_piece [OF _ Cons.prems(2) len _ ok Cons.prems(6) rs, of T ctx t w] Cons.prems(1,4) Http_readable by auto
    have ok1: "conn_ok (length (received es) + length (drop ?k rs) * M + m) c1" by (rule conn_mono [OF c1(3)]) simp
    obtain ctx' c' ts where r: "http_run cb es (Some ctx1, c1) = Some (Inr (Some ctx', c'))" "conn_ok m c'" "tc_state c' = kconnected"
      "?k + length ts = answered rs ?got ?k es" "set ts \<subseteq> insert t T \<union> event_times es"
      "tc_accepted c' = tc_accepted c1 @ concat (map2 ?f (drop ?k rs) ts)"
      using Cons.IH [OF c1(5,4) len _ ok1 c1(2)] Cons.prems(4) by auto
    have "drop (length us) (drop k rs) = drop ?k rs" using c1(6) by (simp add: add.commute)
    then have "tc_accepted c' = tc_accepted c @ concat (map2 ?f (drop k rs) (us @ ts))"
      by (simp only: map2_append concat_append r(6) c1(8) append_assoc)
    moreover have "http_run cb (e # es) (Some ctx, c) = Some (Inr (Some ctx', c'))" using r(1) c1(1) by (simp add: Http_readable)
    moreover have "k + length (us @ ts) = answered rs got k (e # es)" using r(4) c1(6) by (simp add: Http_readable Let_def)
    moreover have "set (us @ ts) \<subseteq> T \<union> event_times (e # es)" using r(5) c1(7) by (auto simp: Http_readable)
    ultimately show ?thesis using r(2,3) by blast
  qed
qed

section \<open>Properties\<close>

lemma http_established_ok:
  assumes "0 \<le> fd"
  shows "\<exists>c. http_established fd = Inr (Some HttpContext_new, c) \<and> conn_ok conn_capacity c \<and> tc_state c = kconnected \<and>
    readable (tc_input c) = [] \<and> tc_accepted c = []"
proof -
  obtain c0 where c0: "TcpConnection_new fd = Inr c0" "conn_ok conn_capacity c0" using TcpConnection_new_ok [OF assms] by blast
  have new: "tc_state c0 = kconnecting" "readable (tc_input c0) = []" "tc_accepted c0 = []"
    using c0(1) Buffer_new_ok [of kinitial_size]
    by (auto simp: TcpConnection_new_def res_simps kinitial_size_def kcheap_prepend_def max_vector_def)
  obtain c where c: "TcpConnection_ConnectionEstablished True [] c0 = Inr c" "conn_ok conn_capacity c"
    using ConnectionEstablished_ok [of "[]" conn_capacity c0] c0(2) new(1) by auto
  have "tc_state c = kconnected" "tc_input c = tc_input c0" "tc_accepted c = tc_accepted c0"
    using c(1) by (auto simp: TcpConnection_ConnectionEstablished_def AssertInLoopThread_def TcpConnection_SetState_def Let_def res_simps)
  then show ?thesis using c0(1) c new
    by (simp add: http_established_def HttpServer_OnConnection_def TcpConnection_Connected_def)
qed

text \<open>C6. A session of the HTTP server: a connection is established and a client sends any number of requests in the wire
  format over it, cut into pieces anywhere, with write events of the socket in between. If the callback keeps the connection
  open, no event fails, the parser always returns, the connection stays up, and what was written to the socket followed by
  what waits in the output buffer is the texts of the responses to the first requests, in order, each to exactly the request
  that was sent, with the time of one of the events as its receive time. How many are answered is exact: each piece answers
  the next request if its last byte has come. So no request is answered early or twice; and when no piece holds the end of
  more than one request, every request received completely has been answered.\<close>

theorem http_session:
  assumes "0 \<le> fd" and rs: "list_all printable rs" "list_all (keeps_alive cb M) rs" "M < 2 ^ 31"
    and events: "list_all event_ok es" "received es @ rest = texts rs"
    and room: "length (received es) + length rs * M \<le> conn_capacity"
  shows "\<exists>hc ctx c ts. http_established fd = Inr hc \<and> http_run cb es hc = Some (Inr (Some ctx, c)) \<and> tc_state c = kconnected \<and>
    set ts \<subseteq> event_times es \<and>
    tc_written c @ readable (tc_output c) = concat (map2 (\<lambda>r t. response_text (response_to cb r t)) rs ts) \<and>
    length ts = answered rs 0 0 es \<and> length ts \<le> complete rs (length (received es)) \<and>
    (aligned rs 0 es \<longrightarrow> length ts = complete rs (length (received es)))"
proof -
  obtain c where c: "http_established fd = Inr (Some HttpContext_new, c)" "conn_ok conn_capacity c" "tc_state c = kconnected"
    "readable (tc_input c) = []" "tc_accepted c = []" using http_established_ok [OF assms(1)] by blast
  have exp: "expects {} (drop 0 rs) (received es @ rest) HttpContext_new (readable (tc_input c))"
    using expects_fresh [OF rs(1)] events(2) c(4) by simp
  have ok: "conn_ok (length (received es) + length (drop 0 rs) * M + 0) c" by (rule conn_mono [OF c(2)]) (use room in simp)
  have len: "length (texts rs) = 0 + length (received es @ rest)" using events(2) by simp
  obtain ctx' c' ts where r: "http_run cb es (Some HttpContext_new, c) = Some (Inr (Some ctx', c'))" "conn_ok 0 c'"
    "tc_state c' = kconnected" "length ts = answered rs 0 0 es" "set ts \<subseteq> event_times es"
    "tc_accepted c' = concat (map2 (\<lambda>r t. response_text (response_to cb r t)) rs ts)"
    using http_run_ok [OF exp _ len events(1) ok c(3) rs] c(5) by auto
  have zero: "complete rs 0 = 0" using rs(1) by (cases rs) (auto simp: request_text_def kCRLF_def)
  moreover have "tc_written c' @ readable (tc_output c') = tc_accepted c'" using r(2) by (simp add: conn_ok_def)
  moreover have "answered rs 0 0 es \<le> complete rs (length (received es))" using answered_le [of 0 rs 0 es] by simp
  moreover have "answered rs 0 0 es = complete rs (length (received es))" if "aligned rs 0 es"
    using answered_aligned [OF that] zero by simp
  ultimately show ?thesis using c(1) r by (intro exI [of _ "(Some HttpContext_new, c)"] exI [of _ ctx'] exI [of _ c'] exI [of _ ts]) simp
qed

text \<open>Two requests of which the second is cut: one piece has the first and the start of the second, the other the rest.\<close>

definition session_events :: "http_event list" where
  "session_events =
     [Http_readable (request_text sample_request @ ''GET /'') (Timestamp 1) (Inr 10), Http_writable (Inr 3),
      Http_readable (drop 5 (request_text sample_request)) (Timestamp 2) (Inl 11)]"

abbreviation echo_path :: "http_request \<Rightarrow> http_response \<Rightarrow> http_response" where
  "echo_path \<equiv> \<lambda>req resp. HttpResponse_SetBody (req_path req) resp"

lemma sample_text:
  "request_text sample_request = ''GET /a?x=1 HTTP/1.1'' @ kCRLF @ ''Host: h'' @ kCRLF @ ''X: y z'' @ kCRLF @ kCRLF"
  by (simp add: request_text_def request_line_def header_line_def sample_request_def)

lemma session_facts:
  "received session_events = texts [sample_request, sample_request]" "list_all event_ok session_events"
  "event_times session_events = {Timestamp 1, Timestamp 2}" "aligned [sample_request, sample_request] 0 session_events"
  "complete [sample_request, sample_request] (length (texts [sample_request, sample_request])) = 2"
  by (simp_all add: session_events_def sample_text kCRLF_def extrabuf_size_def write_ok_def EPIPE_def ECONNRESET_def)

lemma echo_path_alive: "keeps_alive echo_path 200 sample_request"
  by (simp add: keeps_alive_def response_to_def sample_request_def wants_close_def HttpRequest_GetHeader_def smap_get_def
      HttpResponse_new_def HttpResponse_SetBody_def response_text_def kCRLF_def int_dec_def nat_dec.simps)

theorem http_session_witness:
  "\<exists>hc ctx c t u. http_established 5 = Inr hc \<and> http_run echo_path session_events hc = Some (Inr (Some ctx, c)) \<and>
    {t, u} \<subseteq> {Timestamp 1, Timestamp 2} \<and>
    tc_written c @ readable (tc_output c) =
      response_text (response_to echo_path sample_request t) @ response_text (response_to echo_path sample_request u)"
proof -
  let ?rs = "[sample_request, sample_request]"
  have "length (received session_events) + length ?rs * 200 \<le> conn_capacity"
    using conn_capacity_big unfolding session_facts(1) by (simp add: sample_text)
  from http_session [where cb = echo_path and rs = ?rs and fd = 5 and rest = "[]" and M = 200, OF _ _ _ _ session_facts(2) _ this]
  obtain hc ctx c ts where r: "http_established 5 = Inr hc" "http_run echo_path session_events hc = Some (Inr (Some ctx, c))"
    "set ts \<subseteq> {Timestamp 1, Timestamp 2}" "length ts = 2"
    "tc_written c @ readable (tc_output c) = concat (map2 (\<lambda>r t. response_text (response_to echo_path r t)) ?rs ts)"
    using session_facts(1,3-5) echo_path_alive by auto
  from r(4) obtain t u where "ts = [t, u]" by (auto simp: numeral_2_eq_2 length_Suc_conv)
  then show ?thesis using r by auto
qed

end
