(* ===== verification/Connector.thy ===== *)
theory Connector
  imports Channel Sockets "HOL-Library.Multiset"
begin

unbundle bit_operations_syntax

text \<open>
  \<open>dwater/net/connector.h\<close> and \<open>connector.cc\<close>: the client side of a TCP connection up to the moment the socket
  is connected, with its retries. The record holds the members of the class, what the connector has given to its
  loop and not got back (functors queued, retries scheduled with \<open>RunAfter\<close>), and what became of the sockets it
  made. The outcomes of the system calls are arguments.
\<close>

section \<open>The connector\<close>

datatype connector_state = Kdisconnected | Kconnecting | Kconnected

datatype connector_functor = Start_in_loop | Stop_in_loop | Reset_channel

record connector =
  cn_connect :: bool
  cn_state :: connector_state
  cn_channel :: "channel option"
  cn_new_connection_callback :: bool
  cn_retry_delay_ms :: int
  cn_functors :: "connector_functor list"
  cn_retries :: "int list"
  cn_created :: "int list"
  cn_closed :: "int list"
  cn_handed :: "int list"

definition kmax_retry_delay_ms :: int where "kmax_retry_delay_ms = 30 * 1000"
definition kinit_retry_delay_ms :: int where "kinit_retry_delay_ms = 500"

definition Connector_new :: connector where
  "Connector_new = \<lparr>cn_connect = False, cn_state = Kdisconnected, cn_channel = None, cn_new_connection_callback = False,
     cn_retry_delay_ms = kinit_retry_delay_ms, cn_functors = [], cn_retries = [], cn_created = [], cn_closed = [],
     cn_handed = []\<rparr>"

definition Connector_destroy :: "connector \<Rightarrow> unit result" where
  "Connector_destroy c = c_assert (cn_channel c = None) (Inr ())"

definition Connector_SetNewConnectionCallback :: "connector \<Rightarrow> connector" where
  "Connector_SetNewConnectionCallback c = c\<lparr>cn_new_connection_callback := True\<rparr>"

definition Connector_SetState :: "connector_state \<Rightarrow> connector \<Rightarrow> connector" where
  "Connector_SetState s c = c\<lparr>cn_state := s\<rparr>"

definition queue_functor :: "connector_functor \<Rightarrow> connector \<Rightarrow> connector" where
  "queue_functor f c = c\<lparr>cn_functors := cn_functors c @ [f]\<rparr>"

definition close_socket :: "int \<Rightarrow> connector \<Rightarrow> connector" where
  "close_socket sockfd c = c\<lparr>cn_closed := cn_closed c @ [sockfd]\<rparr>"

text \<open>\<open>Retry\<close>: the delay of the timer it sets is recorded in milliseconds.\<close>

definition Connector_Retry :: "int \<Rightarrow> connector \<Rightarrow> connector" where
  "Connector_Retry sockfd c =
     (let c = Connector_SetState Kdisconnected (close_socket sockfd c)
      in if cn_connect c
         then c\<lparr>cn_retries := cn_retries c @ [cn_retry_delay_ms c],
                cn_retry_delay_ms := min (cn_retry_delay_ms c * 2) kmax_retry_delay_ms\<rparr>
         else c)"

definition Connector_Connecting :: "int \<Rightarrow> connector \<Rightarrow> connector result" where
  "Connector_Connecting sockfd c =
     (let c = Connector_SetState Kconnecting c
      in c_assert (cn_channel c = None)
           (Inr (c\<lparr>cn_channel := Some (Channel_EnableWriting (Channel_SetErrorCallback (Channel_SetWriteCallback
              (Channel_new sockfd))))\<rparr>)))"

definition EINPROGRESS :: int where "EINPROGRESS = 115"
definition EISCONN :: int where "EISCONN = 106"
definition EADDRINUSE :: int where "EADDRINUSE = 98"
definition EADDRNOTAVAIL :: int where "EADDRNOTAVAIL = 99"
definition ECONNREFUSED :: int where "ECONNREFUSED = 111"
definition ENETUNREACH :: int where "ENETUNREACH = 101"

text \<open>\<open>Connect\<close>: \<open>sockfd\<close> is what \<open>::socket\<close> returned, \<open>saved_errno\<close> is 0 or the error of \<open>::connect\<close>.\<close>

definition Connector_Connect :: "int \<Rightarrow> int \<Rightarrow> connector \<Rightarrow> connector result" where
  "Connector_Connect sockfd saved_errno c =
     bindr (socket_CreateNonblockingOrDie sockfd) (\<lambda>sockfd.
       let c = c\<lparr>cn_created := cn_created c @ [sockfd]\<rparr>
       in if saved_errno = 0 \<or> saved_errno = EINPROGRESS \<or> saved_errno = EINTR \<or> saved_errno = EISCONN
          then Connector_Connecting sockfd c
          else if saved_errno = EAGAIN \<or> saved_errno = EADDRINUSE \<or> saved_errno = EADDRNOTAVAIL
             \<or> saved_errno = ECONNREFUSED \<or> saved_errno = ENETUNREACH
          then Inr (Connector_Retry sockfd c)
          else Inr (close_socket sockfd c))"

definition Connector_StartInLoop :: "int \<Rightarrow> int \<Rightarrow> connector \<Rightarrow> connector result" where
  "Connector_StartInLoop sockfd saved_errno c =
     c_assert (cn_state c = Kdisconnected)
       (if cn_connect c then Connector_Connect sockfd saved_errno c else Inr c)"

text \<open>\<open>Start\<close>: \<open>RunInLoop\<close> runs the functor at once in the loop's thread and queues it elsewhere.\<close>

definition Connector_Start :: "bool \<Rightarrow> int \<Rightarrow> int \<Rightarrow> connector \<Rightarrow> connector result" where
  "Connector_Start in_loop sockfd saved_errno c =
     (let c = c\<lparr>cn_connect := True\<rparr>
      in if in_loop then Connector_StartInLoop sockfd saved_errno c else Inr (queue_functor Start_in_loop c))"

definition Connector_Stop :: "connector \<Rightarrow> connector" where
  "Connector_Stop c = queue_functor Stop_in_loop (c\<lparr>cn_connect := False\<rparr>)"

text \<open>\<open>RemoveAndResetChannel\<close> dereferences \<open>channel_\<close>; \<open>Channel::Remove\<close> asserts that no event is enabled.\<close>

definition Connector_RemoveAndResetChannel :: "connector \<Rightarrow> (int \<times> connector) result" where
  "Connector_RemoveAndResetChannel c =
     (case cn_channel c of None \<Rightarrow> Inl Bad_access
      | Some ch \<Rightarrow>
          (let ch = Channel_DisableAll ch
           in c_assert (Channel_IsNoneEvent ch)
                (Inr (ch_fd ch, queue_functor Reset_channel (c\<lparr>cn_channel := Some (ch\<lparr>ch_added_to_loop := False\<rparr>)\<rparr>)))))"

definition Connector_StopInLoop :: "connector \<Rightarrow> connector result" where
  "Connector_StopInLoop c =
     (if cn_state c = Kconnecting
      then bindr (Connector_RemoveAndResetChannel (Connector_SetState Kdisconnected c)) (\<lambda>(sockfd, c).
             Inr (Connector_Retry sockfd c))
      else Inr c)"

definition Connector_Restart :: "int \<Rightarrow> int \<Rightarrow> connector \<Rightarrow> connector result" where
  "Connector_Restart sockfd saved_errno c =
     Connector_StartInLoop sockfd saved_errno
       ((Connector_SetState Kdisconnected c)\<lparr>cn_retry_delay_ms := kinit_retry_delay_ms, cn_connect := True\<rparr>)"

text \<open>\<open>ResetChannel\<close> destroys the channel, whose destructor has its asserts.\<close>

definition Connector_ResetChannel :: "connector \<Rightarrow> connector result" where
  "Connector_ResetChannel c =
     (case cn_channel c of None \<Rightarrow> Inr c
      | Some ch \<Rightarrow> bindr (Channel_destroy True (ch_added_to_loop ch) ch) (\<lambda>_. Inr (c\<lparr>cn_channel := None\<rparr>)))"

definition Connector_HandleWrite :: "int \<Rightarrow> bool \<Rightarrow> connector \<Rightarrow> connector result" where
  "Connector_HandleWrite err self_connect c =
     (if cn_state c = Kconnecting
      then bindr (Connector_RemoveAndResetChannel c) (\<lambda>(sockfd, c).
             if err \<noteq> 0 then Inr (Connector_Retry sockfd c)
             else if self_connect then Inr (Connector_Retry sockfd c)
             else (let c = Connector_SetState Kconnected c
                   in if cn_connect c
                      then (if cn_new_connection_callback c then Inr (c\<lparr>cn_handed := cn_handed c @ [sockfd]\<rparr>)
                            else Inl Bad_function_call)
                      else Inr (close_socket sockfd c)))
      else c_assert (cn_state c = Kdisconnected) (Inr c))"

definition Connector_HandleError :: "connector \<Rightarrow> connector result" where
  "Connector_HandleError c =
     (if cn_state c = Kconnecting
      then bindr (Connector_RemoveAndResetChannel c) (\<lambda>(sockfd, c). Inr (Connector_Retry sockfd c))
      else Inr c)"

text \<open>What an event on the channel does: the callbacks \<open>Channel::HandleEvent\<close> makes, in order.\<close>

fun connector_actions :: "int \<Rightarrow> bool \<Rightarrow> chan_action list \<Rightarrow> connector \<Rightarrow> connector result" where
  "connector_actions err self_connect [] c = Inr c"
| "connector_actions err self_connect (a # as) c =
     bindr (case a of Error_callback \<Rightarrow> Connector_HandleError c
            | Write_callback \<Rightarrow> Connector_HandleWrite err self_connect c
            | _ \<Rightarrow> Inr c)
       (connector_actions err self_connect as)"

definition Connector_HandleEvent :: "32 word \<Rightarrow> timestamp \<Rightarrow> int \<Rightarrow> bool \<Rightarrow> connector \<Rightarrow> connector result" where
  "Connector_HandleEvent revents now err self_connect c =
     (case cn_channel c of None \<Rightarrow> Inl Bad_access
      | Some ch \<Rightarrow> bindr (Channel_HandleEvent True now (Channel_SetRevents revents ch)) (\<lambda>as.
          connector_actions err self_connect as c))"

section \<open>The connector in its loop\<close>

text \<open>
  One iteration of the loop handles events (the channel's, and the timers that are due), then takes the functors
  queued so far as a batch and runs them. \<open>cs_batch\<close> is what is left of the batch, \<open>cs_due\<close> the retry timers that can
  fire: those set in an earlier iteration, since none is set for less than half a second ahead.
\<close>

record connector_system =
  cs_conn :: connector
  cs_batch :: "connector_functor list"
  cs_due :: "int list"
  cs_started :: bool

datatype connector_input =
    User_start bool int int
  | User_stop
  | User_restart int int
  | Channel_event "32 word" timestamp int bool
  | Timer_fires int int
  | Take_batch
  | Run_functor int int

text \<open>
  Legal use: one \<open>Start\<close>; \<open>Stop\<close> at any time; \<open>Restart\<close> by the owner of the connection that was handed over, when that
  connection is down.
\<close>

fun connector_guard :: "connector_input \<Rightarrow> connector_system \<Rightarrow> bool" where
  "connector_guard (User_start in_loop sockfd err) s \<longleftrightarrow> \<not> cs_started s"
| "connector_guard User_stop s \<longleftrightarrow> True"
| "connector_guard (User_restart sockfd err) s \<longleftrightarrow>
     cn_state (cs_conn s) = Kconnected \<and> Reset_channel \<notin> set (cs_batch s @ cn_functors (cs_conn s))"
| "connector_guard (Channel_event revents now err self) s \<longleftrightarrow>
     cs_batch s = [] \<and> (case cn_channel (cs_conn s) of None \<Rightarrow> False | Some ch \<Rightarrow> \<not> Channel_IsNoneEvent ch)"
| "connector_guard (Timer_fires sockfd err) s \<longleftrightarrow> cs_batch s = [] \<and> cs_due s \<noteq> []"
| "connector_guard Take_batch s \<longleftrightarrow> cs_batch s = []"
| "connector_guard (Run_functor sockfd err) s \<longleftrightarrow> cs_batch s \<noteq> []"

fun connector_functor_exec :: "int \<Rightarrow> int \<Rightarrow> connector_functor \<Rightarrow> connector \<Rightarrow> connector result" where
  "connector_functor_exec sockfd err Start_in_loop c = Connector_StartInLoop sockfd err c"
| "connector_functor_exec sockfd err Stop_in_loop c = Connector_StopInLoop c"
| "connector_functor_exec sockfd err Reset_channel c = Connector_ResetChannel c"

definition with_conn :: "connector_system \<Rightarrow> connector result \<Rightarrow> connector_system result" where
  "with_conn s r = bindr r (\<lambda>c. Inr (s\<lparr>cs_conn := c\<rparr>))"

fun connector_exec :: "connector_input \<Rightarrow> connector_system \<Rightarrow> connector_system result" where
  "connector_exec (User_start in_loop sockfd err) s =
     with_conn (s\<lparr>cs_started := True\<rparr>) (Connector_Start in_loop sockfd err (cs_conn s))"
| "connector_exec User_stop s = with_conn s (Inr (Connector_Stop (cs_conn s)))"
| "connector_exec (User_restart sockfd err) s = with_conn s (Connector_Restart sockfd err (cs_conn s))"
| "connector_exec (Channel_event revents now err self) s =
     with_conn s (Connector_HandleEvent revents now err self (cs_conn s))"
| "connector_exec (Timer_fires sockfd err) s =
     with_conn (s\<lparr>cs_due := tl (cs_due s)\<rparr>) (Connector_StartInLoop sockfd err (cs_conn s))"
| "connector_exec Take_batch s =
     Inr (s\<lparr>cs_batch := cn_functors (cs_conn s), cs_due := cs_due s @ cn_retries (cs_conn s),
            cs_conn := (cs_conn s)\<lparr>cn_functors := [], cn_retries := []\<rparr>\<rparr>)"
| "connector_exec (Run_functor sockfd err) s =
     with_conn (s\<lparr>cs_batch := tl (cs_batch s)\<rparr>) (connector_functor_exec sockfd err (hd (cs_batch s)) (cs_conn s))"

definition connector_start :: connector_system where
  "connector_start = \<lparr>cs_conn = Connector_SetNewConnectionCallback Connector_new, cs_batch = [], cs_due = [], cs_started = False\<rparr>"

inductive connector_reach :: "connector_system \<Rightarrow> bool" where
  begins: "connector_reach connector_start"
| goes_on: "connector_reach s \<Longrightarrow> connector_guard i s \<Longrightarrow> connector_exec i s = Inr s' \<Longrightarrow> connector_reach s'"

section \<open>The invariant\<close>

definition live_channel :: "int \<Rightarrow> channel" where
  "live_channel fd = Channel_EnableWriting (Channel_SetErrorCallback (Channel_SetWriteCallback (Channel_new fd)))"

definition dead_channel :: "int \<Rightarrow> channel" where
  "dead_channel fd = (Channel_DisableAll (live_channel fd))\<lparr>ch_added_to_loop := False\<rparr>"

lemmas connector_channel_defs = Channel_EnableWriting_def Channel_SetErrorCallback_def Channel_SetWriteCallback_def
  Channel_new_def Channel_DisableAll_def Channel_set_events_def Channel_IsNoneEvent_def event_masks

lemma channel_facts [simp]:
  "ch_fd (live_channel fd) = fd" "\<not> Channel_IsNoneEvent (live_channel fd)" "Channel_IsNoneEvent (dead_channel fd)"
  "Channel_destroy True (ch_added_to_loop (dead_channel fd)) (dead_channel fd) = Inr ()"
  by (simp_all add: live_channel_def dead_channel_def connector_channel_defs Channel_destroy_def)

text \<open>
  \<open>conn_at\<close>: the state, whether a channel waits to be deleted (\<open>r\<close> times \<open>Reset_channel\<close> is under way), and the books
  of the sockets.
\<close>

definition conn_at :: "nat \<Rightarrow> connector \<Rightarrow> bool" where
  "conn_at r c \<longleftrightarrow> cn_new_connection_callback c \<and>
     kinit_retry_delay_ms \<le> cn_retry_delay_ms c \<and> cn_retry_delay_ms c \<le> kmax_retry_delay_ms \<and>
     (if cn_state c = Kconnecting
      then r = 0 \<and> (\<exists>fd. cn_channel c = Some (live_channel fd) \<and>
        mset (cn_created c) = mset (cn_closed c) + mset (cn_handed c) + {#fd#})
      else mset (cn_created c) = mset (cn_closed c) + mset (cn_handed c) \<and>
        (cn_channel c = None \<and> r = 0 \<or> (\<exists>fd. cn_channel c = Some (dead_channel fd)) \<and> r = 1))"

definition resets :: "connector_system \<Rightarrow> nat" where
  "resets s = count_list (cs_batch s @ cn_functors (cs_conn s)) Reset_channel"

definition starts :: "connector_system \<Rightarrow> nat" where
  "starts s = count_list (cs_batch s @ cn_functors (cs_conn s)) Start_in_loop + length (cs_due s) + length (cn_retries (cs_conn s))"

definition connector_inv :: "connector_system \<Rightarrow> bool" where
  "connector_inv s \<longleftrightarrow> conn_at (resets s) (cs_conn s) \<and> starts s \<le> 1 \<and>
     (starts s = 1 \<longrightarrow> cn_state (cs_conn s) = Kdisconnected) \<and>
     (Start_in_loop \<in> set (cs_batch s @ cn_functors (cs_conn s)) \<longrightarrow> resets s = 0) \<and>
     (cs_due s \<noteq> [] \<longrightarrow> Reset_channel \<notin> set (cn_functors (cs_conn s))) \<and>
     (\<not> cs_started s \<longrightarrow> starts s = 0 \<and> resets s = 0 \<and> cn_state (cs_conn s) = Kdisconnected)"

lemma connector_start_inv: "connector_inv connector_start"
  by (simp add: connector_inv_def connector_start_def Connector_SetNewConnectionCallback_def Connector_new_def conn_at_def
      resets_def starts_def kinit_retry_delay_ms_def kmax_retry_delay_ms_def)

text \<open>What an operation adds to the loop's books: the functors \<open>fs\<close>, and at most one retry, which leaves the connector
  disconnected.\<close>

definition adds :: "connector_functor list \<Rightarrow> connector \<Rightarrow> connector \<Rightarrow> bool" where
  "adds fs c c' \<longleftrightarrow> cn_functors c' = cn_functors c @ fs \<and>
     (cn_retries c' = cn_retries c \<or> cn_state c' = Kdisconnected \<and> (\<exists>d. cn_retries c' = cn_retries c @ [d]))"

lemmas connector_books = Connector_SetState_def close_socket_def queue_functor_def

lemma retry_delay:
  "kinit_retry_delay_ms \<le> d \<Longrightarrow> kinit_retry_delay_ms \<le> d * 2" "kinit_retry_delay_ms \<le> kmax_retry_delay_ms"
  by (auto simp: kinit_retry_delay_ms_def kmax_retry_delay_ms_def)

lemma StartInLoop_ok:
  assumes "conn_at 0 c" and "cn_state c = Kdisconnected"
  shows "case Connector_StartInLoop sockfd err c of Inl e \<Rightarrow> e = Log_fatal
    | Inr c' \<Rightarrow> conn_at 0 c' \<and> adds [] c c' \<and> cn_state c' \<noteq> Kconnected"
  using assms retry_delay(1) [of "cn_retry_delay_ms c"] retry_delay(2)
  by (simp add: Connector_StartInLoop_def Connector_Connect_def Connector_Connecting_def Connector_Retry_def connector_books
      socket_CreateNonblockingOrDie_def conn_at_def adds_def bindr_def Let_def live_channel_def)

lemma RemoveAndReset_ok:
  "cn_channel c = Some (live_channel fd) \<Longrightarrow>
   Connector_RemoveAndResetChannel c =
     Inr (fd, c\<lparr>cn_channel := Some (dead_channel fd), cn_functors := cn_functors c @ [Reset_channel]\<rparr>)"
  by (simp add: Connector_RemoveAndResetChannel_def Let_def dead_channel_def queue_functor_def Channel_IsNoneEvent_def
      Channel_DisableAll_def Channel_set_events_def live_channel_def connector_channel_defs)

lemma given_up:
  assumes "conn_at 0 c" and "cn_state c = Kconnecting"
  shows "case Connector_HandleError c of Inl e \<Rightarrow> False
      | Inr c' \<Rightarrow> conn_at 1 c' \<and> adds [Reset_channel] c c' \<and> cn_state c' = Kdisconnected" (is ?E)
    and "case Connector_StopInLoop c of Inl e \<Rightarrow> False
      | Inr c' \<Rightarrow> conn_at 1 c' \<and> adds [Reset_channel] c c' \<and> cn_state c' = Kdisconnected" (is ?S)
    and "case Connector_HandleWrite err self c of Inl e \<Rightarrow> False
      | Inr c' \<Rightarrow> conn_at 1 c' \<and> adds [Reset_channel] c c' \<and> cn_state c' \<noteq> Kconnecting" (is ?W)
proof -
  obtain fd where ch: "cn_channel c = Some (live_channel fd)" using assms by (auto simp: conn_at_def)
  have m: "mset (cn_created c) = add_mset fd (mset (cn_closed c) + mset (cn_handed c))"
    using assms by (auto simp: conn_at_def ch live_channel_def connector_channel_defs)
  note facts = RemoveAndReset_ok Connector_Retry_def connector_books conn_at_def adds_def bindr_def Let_def
  show ?E ?S ?W
    using assms retry_delay(1) [of "cn_retry_delay_ms c"] retry_delay(2) m
    by (simp_all add: Connector_HandleError_def Connector_StopInLoop_def Connector_HandleWrite_def ch facts) blast+
qed

lemma ResetChannel_ok:
  assumes "conn_at 1 c"
  shows "case Connector_ResetChannel c of Inl e \<Rightarrow> False | Inr c' \<Rightarrow> conn_at 0 c' \<and> cn_state c' = cn_state c \<and>
    cn_functors c' = cn_functors c \<and> cn_retries c' = cn_retries c"
  using assms by (auto simp: Connector_ResetChannel_def conn_at_def bindr_def split: if_splits)

lemma connector_actions_append:
  "connector_actions err self (as @ bs) c = bindr (connector_actions err self as c) (connector_actions err self bs)"
  by (induction as arbitrary: c) (auto simp: bindr_def split: sum.splits)

definition is_log :: "chan_action \<Rightarrow> bool" where
  "is_log a \<longleftrightarrow> a \<noteq> Error_callback \<and> a \<noteq> Write_callback"

lemma connector_actions_logs: "list_all is_log ls \<Longrightarrow> connector_actions err self ls c = Inr c"
  by (induction ls) (auto simp: is_log_def bindr_def split: chan_action.splits)

lemma live_channel_events:
  "\<exists>ls e w. Channel_HandleEvent True now (Channel_SetRevents revents (live_channel fd)) =
     Inr (ls @ (if e then [Error_callback] else []) @ (if w then [Write_callback] else [])) \<and> list_all is_log ls"
proof -
  let ?ch = "Channel_SetRevents revents (live_channel fd)"
  let ?hup = "revents AND POLLHUP \<noteq> 0 \<and> revents AND POLLIN = 0"
  have "Channel_HandleEvent True now ?ch =
     Inr ((Log_trace (Channel_ReventsToString ?ch) # (if ?hup then [Log_warn_hup fd] else []) @
       (if revents AND POLLNVAL \<noteq> 0 then [Log_warn_nval fd] else [])) @
       (if revents AND (POLLERR OR POLLNVAL) \<noteq> 0 then [Error_callback] else []) @
       (if revents AND POLLOUT \<noteq> 0 then [Write_callback] else []))"
    by (auto simp: Channel_HandleEvent_def Channel_HandleEventWithGuard_def Channel_SetRevents_def live_channel_def
      Channel_EnableWriting_def Channel_SetErrorCallback_def Channel_SetWriteCallback_def Channel_new_def Channel_set_events_def
      bindr_def Let_def)
  moreover have "list_all is_log (Log_trace (Channel_ReventsToString ?ch) # (if ?hup then [Log_warn_hup fd] else []) @
       (if revents AND POLLNVAL \<noteq> 0 then [Log_warn_nval fd] else []))"
    by (simp add: is_log_def)
  ultimately show ?thesis by blast
qed

lemma connector_HandleEvent_ok:
  assumes "conn_at 0 c" and "cn_state c = Kconnecting"
  shows "case Connector_HandleEvent revents now err self c of Inl e \<Rightarrow> False
    | Inr c' \<Rightarrow> c' = c \<or> conn_at 1 c' \<and> adds [Reset_channel] c c' \<and> cn_state c' \<noteq> Kconnecting"
proof -
  obtain fd where ch: "cn_channel c = Some (live_channel fd)" using assms by (auto simp: conn_at_def)
  obtain ls e w where ev: "Channel_HandleEvent True now (Channel_SetRevents revents (live_channel fd)) =
     Inr (ls @ (if e then [Error_callback] else []) @ (if w then [Write_callback] else []))" "list_all is_log ls"
    using live_channel_events by blast
  obtain c1 where c1: "Connector_HandleError c = Inr c1" "conn_at 1 c1" "adds [Reset_channel] c c1" "cn_state c1 = Kdisconnected"
    using given_up(1) [OF assms] by (auto split: sum.splits)
  obtain c2 where c2: "Connector_HandleWrite err self c = Inr c2" "conn_at 1 c2" "adds [Reset_channel] c c2" "cn_state c2 \<noteq> Kconnecting"
    using given_up(3) [OF assms, of err self] by (auto split: sum.splits)
  have "Connector_HandleWrite err self c1 = Inr c1" using c1(4) by (simp add: Connector_HandleWrite_def)
  then show ?thesis
    using c1 c2 by (cases e; cases w) (simp_all add: Connector_HandleEvent_def ch ev bindr_def connector_actions_append connector_actions_logs)
qed

lemma conn_at_ignores [simp]:
  "conn_at r (c\<lparr>cn_connect := b\<rparr>) = conn_at r c" "conn_at r (c\<lparr>cn_functors := fs\<rparr>) = conn_at r c"
  "conn_at r (c\<lparr>cn_retries := ds\<rparr>) = conn_at r c"
  by (simp_all add: conn_at_def)

lemma count_zero: "count_list fs f = 0 \<longleftrightarrow> f \<notin> set fs"
  by (simp add: count_list_0_iff)

lemmas connector_counts = connector_inv_def resets_def starts_def adds_def count_zero

lemma start_step_inv:
  assumes "connector_inv s" and "\<not> cs_started s"
  shows "case connector_exec (User_start in_loop sockfd err) s of Inl e \<Rightarrow> e = Log_fatal | Inr s' \<Rightarrow> connector_inv s'"
proof -
  let ?c = "(cs_conn s)\<lparr>cn_connect := True\<rparr>"
  have c: "conn_at 0 ?c" "cn_state ?c = Kdisconnected" using assms by (auto simp: connector_inv_def)
  show ?thesis
    using StartInLoop_ok [OF c, of sockfd err] assms
    by (cases in_loop) (auto simp: Connector_Start_def with_conn_def bindr_def Let_def connector_counts queue_functor_def
        split: sum.splits)
qed

lemma restart_step_inv:
  assumes "connector_inv s" and "connector_guard (User_restart sockfd err) s"
  shows "case connector_exec (User_restart sockfd err) s of Inl e \<Rightarrow> e = Log_fatal | Inr s' \<Rightarrow> connector_inv s'"
proof -
  let ?c = "(Connector_SetState Kdisconnected (cs_conn s))\<lparr>cn_retry_delay_ms := kinit_retry_delay_ms, cn_connect := True\<rparr>"
  have r: "resets s = 0" "starts s = 0" using assms by (auto simp: connector_inv_def resets_def)
  have c: "conn_at 0 ?c" "cn_state ?c = Kdisconnected"
    using assms r retry_delay(2) by (auto simp: connector_inv_def conn_at_def Connector_SetState_def)
  show ?thesis
    using StartInLoop_ok [OF c, of sockfd err] assms r
    by (auto simp: Connector_Restart_def with_conn_def bindr_def connector_counts Connector_SetState_def split: sum.splits)
qed

lemma timer_step_inv:
  assumes "connector_inv s" and "connector_guard (Timer_fires sockfd err) s"
  shows "case connector_exec (Timer_fires sockfd err) s of Inl e \<Rightarrow> e = Log_fatal | Inr s' \<Rightarrow> connector_inv s'"
proof -
  obtain d ds where due: "cs_due s = d # ds" using assms(2) by (cases "cs_due s") auto
  have s: "starts s = 1" "resets s = 0" "ds = []" using assms by (auto simp: connector_counts due)
  then have c: "conn_at 0 (cs_conn s)" "cn_state (cs_conn s) = Kdisconnected" using assms by (auto simp: connector_inv_def)
  show ?thesis
    using StartInLoop_ok [OF c, of sockfd err] assms s
    by (auto simp: with_conn_def bindr_def connector_counts due split: sum.splits)
qed

lemma event_step_inv:
  assumes "connector_inv s" and "connector_guard (Channel_event revents now err self) s"
  shows "case connector_exec (Channel_event revents now err self) s of Inl e \<Rightarrow> e = Log_fatal | Inr s' \<Rightarrow> connector_inv s'"
proof -
  have st: "cn_state (cs_conn s) = Kconnecting" "resets s = 0"
    using assms by (auto simp: connector_inv_def conn_at_def split: option.splits if_splits)
  then have "conn_at 0 (cs_conn s)" "starts s = 0" using assms by (auto simp: connector_inv_def)
  with connector_HandleEvent_ok [OF this(1) st(1), of revents now err self] assms st show ?thesis
    by (auto simp: with_conn_def bindr_def connector_counts split: sum.splits)
qed

lemma functor_step_inv:
  assumes "connector_inv s" and "connector_guard (Run_functor sockfd err) s"
  shows "case connector_exec (Run_functor sockfd err) s of Inl e \<Rightarrow> e = Log_fatal | Inr s' \<Rightarrow> connector_inv s'"
proof -
  obtain f fs where b: "cs_batch s = f # fs" using assms(2) by (cases "cs_batch s") auto
  show ?thesis
  proof (cases f)
    case Start_in_loop
    then have s: "starts s = 1" "resets s = 0" using assms by (auto simp: connector_counts b)
    then have c: "conn_at 0 (cs_conn s)" "cn_state (cs_conn s) = Kdisconnected" using assms by (auto simp: connector_inv_def)
    show ?thesis
      using StartInLoop_ok [OF c, of sockfd err] assms s
      by (auto simp: with_conn_def bindr_def connector_counts b Start_in_loop split: sum.splits)
  next
    case Stop_in_loop
    show ?thesis
    proof (cases "cn_state (cs_conn s) = Kconnecting")
      case True
      then have "conn_at 0 (cs_conn s)" "resets s = 0" "starts s = 0" using assms by (auto simp: connector_inv_def conn_at_def)
      with given_up(2) [OF this(1) True] assms True show ?thesis
        by (auto simp: with_conn_def bindr_def connector_counts b Stop_in_loop split: sum.splits)
    next
      case False
      then show ?thesis using assms
        by (auto simp: with_conn_def bindr_def connector_counts b Stop_in_loop Connector_StopInLoop_def)
    qed
  next
    case Reset_channel
    then have r: "0 < resets s" by (simp add: resets_def b)
    then have s: "resets s = 1" using assms by (auto simp: connector_inv_def conn_at_def split: if_splits)
    then have "conn_at 1 (cs_conn s)" using assms by (simp add: connector_inv_def)
    from ResetChannel_ok [OF this] assms s show ?thesis
      by (auto simp: with_conn_def bindr_def connector_counts b Reset_channel split: sum.splits)
  qed
qed

lemma connector_step_inv:
  assumes "connector_inv s" and "connector_guard i s"
  shows "case connector_exec i s of Inl e \<Rightarrow> e = Log_fatal | Inr s' \<Rightarrow> connector_inv s'"
proof (cases i)
  case (User_start in_loop sockfd err)
  then show ?thesis using start_step_inv assms by auto
next
  case User_stop
  then show ?thesis using assms
    by (auto simp: with_conn_def bindr_def Connector_Stop_def queue_functor_def connector_counts)
next
  case Take_batch
  then show ?thesis using assms by (auto simp: connector_counts)
qed (use assms restart_step_inv timer_step_inv event_step_inv functor_step_inv in auto)

lemma connector_reach_inv: "connector_reach s \<Longrightarrow> connector_inv s"
proof (induction rule: connector_reach.induct)
  case begins
  show ?case by (rule connector_start_inv)
next
  case (goes_on s i s')
  then show ?case using connector_step_inv [of s i] by simp
qed

section \<open>Properties\<close>

text \<open>C31. The connector is safe in its loop: from its creation on, whatever \<open>Stop\<close> calls, events, errors of \<open>connect\<close>, timers,
  functors and restarts come in whatever order, no assert fails, no callback is missing and \<open>channel_\<close> is never
  dereferenced when it is null (a failing \<open>socket()\<close> ends the process, as the code says); at most one attempt is scheduled,
  and no socket is lost or closed twice: those made are those closed, those handed over and the one being connected.\<close>

theorem connector_safe:
  assumes "connector_reach s" and "connector_guard i s"
  shows "case connector_exec i s of Inl e \<Rightarrow> e = Log_fatal
    | Inr s' \<Rightarrow> let c = cs_conn s' in starts s' \<le> 1 \<and>
        mset (cn_created c) = mset (cn_closed c) + mset (cn_handed c) +
          (if cn_state c = Kconnecting then image_mset ch_fd (mset_set (set_option (cn_channel c))) else {#})"
  using connector_step_inv [OF connector_reach_inv [OF assms(1)] assms(2)]
  by (auto simp: connector_inv_def conn_at_def Let_def split: sum.splits if_splits)

text \<open>The delays back off: \<open>n\<close> failed attempts in a row after a start or a restart set timers of 500, 1000, 2000, ...
  milliseconds up to 30 seconds and then 30 seconds each; the delay never leaves these bounds.\<close>

theorem connector_backoff:
  assumes "cn_connect c" and "cn_retry_delay_ms c = kinit_retry_delay_ms"
  shows "cn_retries (fold Connector_Retry fds c) =
      cn_retries c @ map (\<lambda>k. min (500 * 2 ^ k) 30000) [0..<length fds] \<and>
    cn_retry_delay_ms (fold Connector_Retry fds c) = min (500 * 2 ^ length fds) 30000"
proof -
  have "cn_connect (fold Connector_Retry fds c) \<and>
    cn_retries (fold Connector_Retry fds c) = cn_retries c @ map (\<lambda>k. min (500 * 2 ^ k) 30000) [0..<length fds] \<and>
    cn_retry_delay_ms (fold Connector_Retry fds c) = min (500 * 2 ^ length fds) 30000"
  proof (induction fds rule: rev_induct)
    case Nil
    then show ?case using assms by (simp add: kinit_retry_delay_ms_def)
  next
    case (snoc fd fds)
    then show ?case
      by (simp add: Connector_Retry_def connector_books Let_def kmax_retry_delay_ms_def min_def)
  qed
  then show ?thesis by blast
qed

theorem connector_backoff_witness:
  "cn_retries (fold Connector_Retry [3, 4, 5, 6, 7, 8, 9, 10] (Connector_new\<lparr>cn_connect := True\<rparr>)) =
     [500, 1000, 2000, 4000, 8000, 16000, 30000, 30000]"
  using connector_backoff [of "Connector_new\<lparr>cn_connect := True\<rparr>" "[3, 4, 5, 6, 7, 8, 9, 10]"]
  by (simp add: Connector_new_def upt_rec)

text \<open>\<open>Stop\<close> followed by \<open>Start\<close> from another thread while a connection attempt is under way trips an assert:
  \<open>StopInLoop\<close> has only queued the deletion of the old channel when \<open>StartInLoop\<close>, next in the same batch of functors,
  wants to make the new one.\<close>

theorem connector_stop_start_fails:
  assumes "connector_reach s" and "cn_state (cs_conn s) = Kconnecting" and "0 \<le> sockfd"
  shows "bindr (Connector_Start False sockfd 0 (Connector_Stop (cs_conn s))) (\<lambda>c.
      bindr (Connector_StopInLoop (c\<lparr>cn_functors := []\<rparr>)) (Connector_StartInLoop sockfd 0)) = Inl Assert_failed"
proof -
  have "conn_at 0 (cs_conn s)"
    using connector_reach_inv [OF assms(1)] assms(2) by (auto simp: connector_inv_def conn_at_def)
  then obtain fd where "cn_channel (cs_conn s) = Some (live_channel fd)" using assms(2) by (auto simp: conn_at_def)
  then show ?thesis using assms(2,3)
    by (simp add: Connector_Start_def Connector_Stop_def Connector_StopInLoop_def Connector_StartInLoop_def RemoveAndReset_ok
        Connector_Retry_def connector_books Connector_Connect_def Connector_Connecting_def socket_CreateNonblockingOrDie_def
        bindr_def Let_def)
qed

definition sample_connecting :: connector_system where
  "sample_connecting = \<lparr>cs_conn = (Connector_SetNewConnectionCallback Connector_new)\<lparr>cn_connect := True, cn_state := Kconnecting,
     cn_channel := Some (live_channel 5), cn_created := [5]\<rparr>, cs_batch = [], cs_due = [], cs_started = True\<rparr>"

lemma sample_connecting_reach: "connector_reach sample_connecting"
  by (rule connector_reach.goes_on [OF connector_reach.begins, of "User_start True 5 EINPROGRESS"])
    (simp_all add: sample_connecting_def connector_start_def with_conn_def Connector_Start_def Connector_StartInLoop_def
      Connector_Connect_def Connector_Connecting_def connector_books socket_CreateNonblockingOrDie_def bindr_def Let_def
      Connector_SetNewConnectionCallback_def Connector_new_def live_channel_def)

theorem connector_safe_witness:
  "case connector_exec (Channel_event POLLOUT (Timestamp 0) 0 False) sample_connecting of Inl e \<Rightarrow> e = Log_fatal
    | Inr s' \<Rightarrow> let c = cs_conn s' in mset (cn_created c) = mset (cn_closed c) + mset (cn_handed c) +
          (if cn_state c = Kconnecting then image_mset ch_fd (mset_set (set_option (cn_channel c))) else {#})"
  using connector_safe [OF sample_connecting_reach, of "Channel_event POLLOUT (Timestamp 0) 0 False"]
  by (auto simp: sample_connecting_def Let_def split: sum.splits)

theorem connector_stop_start_fails_witness:
  "bindr (Connector_Start False 6 0 (Connector_Stop (cs_conn sample_connecting))) (\<lambda>c.
      bindr (Connector_StopInLoop (c\<lparr>cn_functors := []\<rparr>)) (Connector_StartInLoop 6 0)) = Inl Assert_failed"
  using connector_stop_start_fails [OF sample_connecting_reach, of 6] by (simp add: sample_connecting_def)

end
