(* ===== verification/TcpClient.thy ===== *)
theory TcpClient
  imports TcpConnection Connector
begin

text \<open>
  \<open>dwater/net/tcp_client.h\<close> and \<open>tcp_client.cc\<close>: one connection at a time, made by the connector and, when retries are
  enabled, made again after it is down. What the client does with its connection (\<open>ConnectionEstablished\<close>,
  \<open>Shutdown\<close>, \<open>ForceClose\<close>, the queued \<open>ConnectionDestroyed\<close>) is appended to \<open>cl_log\<close>; the behaviour of a connection is
  the subject of the theory \<open>TcpConnection\<close>. The client and its connector run in the same loop.
\<close>

section \<open>The client\<close>

record client_conn =
  cc_id :: int
  cc_name :: string
  cc_fd :: int
  cc_object :: tcp_connection

datatype client_effect =
    Established int
  | Shut_down int
  | Forced_close int
  | Destroy_queued int
  | Close_callback_replaced int
  | Connector_kept rat

record tcp_client =
  cl_name :: string
  cl_retry :: bool
  cl_connect :: bool
  cl_next_conn_id :: int
  cl_write_complete_callback :: bool
  cl_connection :: "client_conn option"
  cl_log :: "client_effect list"

definition note_effect :: "client_effect \<Rightarrow> tcp_client \<Rightarrow> tcp_client" where
  "note_effect e c = c\<lparr>cl_log := cl_log c @ [e]\<rparr>"

text \<open>The constructor makes the connector and sets its callback.\<close>

definition TcpClient_new :: "string \<Rightarrow> tcp_client \<times> connector" where
  "TcpClient_new name =
     (\<lparr>cl_name = name, cl_retry = False, cl_connect = True, cl_next_conn_id = 1, cl_write_complete_callback = False,
       cl_connection = None, cl_log = []\<rparr>, Connector_SetNewConnectionCallback Connector_new)"

definition TcpClient_EnableRetry :: "tcp_client \<Rightarrow> tcp_client" where
  "TcpClient_EnableRetry c = c\<lparr>cl_retry := True\<rparr>"

text \<open>\<open>Connect\<close>: the arguments are those of \<open>Connector_Start\<close>.\<close>

definition TcpClient_Connect :: "bool \<Rightarrow> int \<Rightarrow> int \<Rightarrow> tcp_client \<times> connector \<Rightarrow> (tcp_client \<times> connector) result" where
  "TcpClient_Connect in_loop sockfd err cs =
     (case cs of (c, k) \<Rightarrow> bindr (Connector_Start in_loop sockfd err k) (\<lambda>k. Inr (c\<lparr>cl_connect := True\<rparr>, k)))"

definition TcpClient_Disconnect :: "tcp_client \<Rightarrow> tcp_client" where
  "TcpClient_Disconnect c =
     (let c = c\<lparr>cl_connect := False\<rparr>
      in case cl_connection c of None \<Rightarrow> c | Some conn \<Rightarrow> note_effect (Shut_down (cc_id conn)) c)"

definition TcpClient_Stop :: "tcp_client \<times> connector \<Rightarrow> tcp_client \<times> connector" where
  "TcpClient_Stop cs = (case cs of (c, k) \<Rightarrow> (c\<lparr>cl_connect := False\<rparr>, Connector_Stop k))"

text \<open>The name comes from a buffer of 32 bytes; \<open>peer\<close> is the text of the peer's address.\<close>

definition client_conn_name :: "string \<Rightarrow> string \<Rightarrow> int \<Rightarrow> string" where
  "client_conn_name name peer connid = name @ snprintf_buf 32 ('':'' @ peer @ ''#'' @ int_dec connid)"

definition TcpClient_NewConnection :: "bool \<Rightarrow> int \<Rightarrow> string \<Rightarrow> tcp_client \<Rightarrow> tcp_client result" where
  "TcpClient_NewConnection in_loop sockfd peer c =
     AssertInLoopThread in_loop
      (bindr (TcpConnection_new sockfd) (\<lambda>object.
        let connid = cl_next_conn_id c;
            conn = \<lparr>cc_id = connid, cc_name = client_conn_name (cl_name c) peer connid, cc_fd = sockfd,
              cc_object = (if cl_write_complete_callback c then TcpConnection_SetWriteCompleteCallback object else object)\<rparr>
        in Inr (note_effect (Established connid) (c\<lparr>cl_next_conn_id := connid + 1, cl_connection := Some conn\<rparr>))))"

text \<open>\<open>RemoveConnection\<close>, the close callback of the connection \<open>conn\<close>.\<close>

definition TcpClient_RemoveConnection ::
  "bool \<Rightarrow> client_conn \<Rightarrow> int \<Rightarrow> int \<Rightarrow> tcp_client \<times> connector \<Rightarrow> (tcp_client \<times> connector) result" where
  "TcpClient_RemoveConnection in_loop conn sockfd err cs =
     (case cs of (c, k) \<Rightarrow> AssertInLoopThread in_loop
       (c_assert (cl_connection c = Some conn)
         (let c = note_effect (Destroy_queued (cc_id conn)) (c\<lparr>cl_connection := None\<rparr>)
          in if cl_retry c \<and> cl_connect c
             then bindr (Connector_Restart sockfd err k) (\<lambda>k. Inr (c, k))
             else Inr (c, k))))"

text \<open>The destructor; \<open>unique\<close> is whether the client holds the only reference to the connection.\<close>

definition TcpClient_destroy :: "bool \<Rightarrow> tcp_client \<times> connector \<Rightarrow> tcp_client \<times> connector" where
  "TcpClient_destroy unique cs =
     (case cs of (c, k) \<Rightarrow>
       (case cl_connection c of
          Some conn \<Rightarrow>
            (let c = note_effect (Close_callback_replaced (cc_id conn)) c
             in (if unique then note_effect (Forced_close (cc_id conn)) c else c, k))
        | None \<Rightarrow> (note_effect (Connector_kept 1) c, Connector_Stop k)))"

text \<open>\<open>detail::RemoveConnection\<close>, the close callback the destructor leaves behind.\<close>

definition detail_RemoveConnection :: "int \<Rightarrow> tcp_client \<Rightarrow> tcp_client" where
  "detail_RemoveConnection connid c = note_effect (Destroy_queued connid) c"

section \<open>The client in its loop\<close>

record client_system =
  sy_client :: tcp_client
  sy_conn :: connector_system

datatype client_input =
    Cl_connector connector_input string
  | Cl_enable_retry
  | Cl_disconnect
  | Cl_closed int int

text \<open>A socket the connector hands over goes to \<open>NewConnection\<close>.\<close>

definition hand_over :: "string \<Rightarrow> connector_system \<Rightarrow> client_system \<Rightarrow> client_system result" where
  "hand_over peer k' s =
     (let old = cn_handed (cs_conn (sy_conn s)); new = cn_handed (cs_conn k')
      in if length old < length new
         then bindr (TcpClient_NewConnection True (last new) peer (sy_client s)) (\<lambda>c.
                Inr (s\<lparr>sy_client := c, sy_conn := k'\<rparr>))
         else Inr (s\<lparr>sy_conn := k'\<rparr>))"

definition user_flag :: "connector_input \<Rightarrow> tcp_client \<Rightarrow> tcp_client" where
  "user_flag i c = (case i of User_start in_loop sockfd err \<Rightarrow> c\<lparr>cl_connect := True\<rparr> | User_stop \<Rightarrow> c\<lparr>cl_connect := False\<rparr> | _ \<Rightarrow> c)"

fun client_exec :: "client_input \<Rightarrow> client_system \<Rightarrow> client_system result" where
  "client_exec (Cl_connector i peer) s =
     bindr (connector_exec i (sy_conn s)) (\<lambda>k. hand_over peer k (s\<lparr>sy_client := user_flag i (sy_client s)\<rparr>))"
| "client_exec Cl_enable_retry s = Inr (s\<lparr>sy_client := TcpClient_EnableRetry (sy_client s)\<rparr>)"
| "client_exec Cl_disconnect s = Inr (s\<lparr>sy_client := TcpClient_Disconnect (sy_client s)\<rparr>)"
| "client_exec (Cl_closed sockfd err) s =
     (case cl_connection (sy_client s) of None \<Rightarrow> Inr s
      | Some conn \<Rightarrow>
          bindr (TcpClient_RemoveConnection True conn sockfd err (sy_client s, cs_conn (sy_conn s))) (\<lambda>(c, k).
            Inr (s\<lparr>sy_client := c, sy_conn := (sy_conn s)\<lparr>cs_conn := k\<rparr>\<rparr>)))"

text \<open>
  \<open>Connect\<close> and \<open>Stop\<close> are the connector's \<open>Start\<close> and \<open>Stop\<close>; the client calls \<open>Restart\<close> itself. A connection does not
  come down before the functors queued when it was made have run.
\<close>

fun client_guard :: "client_input \<Rightarrow> client_system \<Rightarrow> bool" where
  "client_guard (Cl_connector i peer) s \<longleftrightarrow>
     connector_guard i (sy_conn s) \<and> (case i of User_restart sockfd err \<Rightarrow> False | _ \<Rightarrow> True)"
| "client_guard Cl_enable_retry s \<longleftrightarrow> True"
| "client_guard Cl_disconnect s \<longleftrightarrow> True"
| "client_guard (Cl_closed sockfd err) s \<longleftrightarrow> cl_connection (sy_client s) \<noteq> None \<and>
     Reset_channel \<notin> set (cs_batch (sy_conn s) @ cn_functors (cs_conn (sy_conn s)))"

definition client_start :: "string \<Rightarrow> client_system" where
  "client_start name = \<lparr>sy_client = fst (TcpClient_new name),
     sy_conn = \<lparr>cs_conn = snd (TcpClient_new name), cs_batch = [], cs_due = [], cs_started = False\<rparr>\<rparr>"

inductive client_reach :: "string \<Rightarrow> client_system \<Rightarrow> bool" for name where
  cl_begins: "client_reach name (client_start name)"
| cl_goes_on: "client_reach name s \<Longrightarrow> client_guard i s \<Longrightarrow> client_exec i s = Inr s' \<Longrightarrow> client_reach name s'"

section \<open>What the connector hands over\<close>

lemma StartInLoop_handed: "Connector_StartInLoop sockfd err c = Inr c' \<Longrightarrow> cn_handed c' = cn_handed c"
  by (auto simp: Connector_StartInLoop_def Connector_Connect_def Connector_Connecting_def Connector_Retry_def connector_books
      Let_def res_simps split: if_splits)

lemma RemoveAndReset_handed:
  "Connector_RemoveAndResetChannel c = Inr (fd, c') \<Longrightarrow>
   cn_handed c' = cn_handed c \<and> cn_state c' = cn_state c \<and> cn_connect c' = cn_connect c"
  by (auto simp: Connector_RemoveAndResetChannel_def queue_functor_def res_simps Let_def split: option.splits)

lemma Retry_handed [simp]: "cn_handed (Connector_Retry fd c) = cn_handed c" "cn_state (Connector_Retry fd c) = Kdisconnected"
  by (simp_all add: Connector_Retry_def connector_books Let_def)

lemma HandleError_handed: "Connector_HandleError c = Inr c' \<Longrightarrow> cn_handed c' = cn_handed c \<and> cn_state c' \<noteq> Kconnecting"
  by (auto simp: Connector_HandleError_def res_simps dest!: RemoveAndReset_handed split: if_splits)

lemma StopInLoop_handed:
  "Connector_StopInLoop c = Inr c' \<Longrightarrow> cn_handed c' = cn_handed c \<and> (cn_state c = Kconnected \<longrightarrow> cn_state c' = Kconnected)"
  by (auto simp: Connector_StopInLoop_def Connector_SetState_def res_simps dest!: RemoveAndReset_handed split: if_splits)

definition hands_over :: "connector \<Rightarrow> connector \<Rightarrow> bool" where
  "hands_over c c' \<longleftrightarrow> cn_handed c' = cn_handed c \<or>
     (\<exists>fd. cn_handed c' = cn_handed c @ [fd]) \<and> cn_state c = Kconnecting \<and> cn_state c' = Kconnected"

lemma HandleWrite_handed: "Connector_HandleWrite err self c = Inr c' \<Longrightarrow> hands_over c c'"
  by (auto simp: hands_over_def Connector_HandleWrite_def res_simps connector_books Let_def dest!: RemoveAndReset_handed split: if_splits)

lemma HandleWrite_idle: "cn_state c \<noteq> Kconnecting \<Longrightarrow> Connector_HandleWrite err self c = Inr c' \<Longrightarrow> c' = c"
  by (auto simp: Connector_HandleWrite_def res_simps)

lemma HandleEvent_handed:
  assumes "conn_at 0 c" and "cn_state c = Kconnecting" and "Connector_HandleEvent revents now err self c = Inr c'"
  shows "hands_over c c'"
proof -
  obtain fd where ch: "cn_channel c = Some (live_channel fd)" using assms(1,2) by (auto simp: conn_at_def)
  obtain ls e w where ev: "Channel_HandleEvent True now (Channel_SetRevents revents (live_channel fd)) =
     Inr (ls @ (if e then [Error_callback] else []) @ (if w then [Write_callback] else []))" "list_all is_log ls"
    using live_channel_events by blast
  have run: "connector_actions err self ((if e then [Error_callback] else []) @ (if w then [Write_callback] else [])) c = Inr c'"
    using assms(3) by (simp add: Connector_HandleEvent_def ch ev connector_actions_append connector_actions_logs)
  show ?thesis
  proof (cases e)
    case True
    then obtain c1 where c1: "Connector_HandleError c = Inr c1"
      "connector_actions err self (if w then [Write_callback] else []) c1 = Inr c'"
      using run by (auto simp: res_simps)
    note H = HandleError_handed [OF c1(1)]
    have "c' = c1" using c1(2) H HandleWrite_idle [of c1] by (cases w) (auto simp: res_simps)
    then show ?thesis using H by (simp add: hands_over_def)
  next
    case False
    then show ?thesis using run HandleWrite_handed by (cases w) (auto simp: res_simps hands_over_def)
  qed
qed

lemma connector_step_handed:
  assumes "connector_inv s" and "connector_guard i s" and "case i of User_restart sockfd err \<Rightarrow> False | _ \<Rightarrow> True"
    and "connector_exec i s = Inr s'"
  shows "hands_over (cs_conn s) (cs_conn s') \<and> (cn_state (cs_conn s) = Kconnected \<longrightarrow> cn_state (cs_conn s') = Kconnected)"
proof (cases i)
  case (User_start in_loop sockfd err)
  then have "cn_state (cs_conn s) = Kdisconnected" using assms(1,2) by (simp add: connector_inv_def)
  then show ?thesis using assms(4) User_start
    by (auto simp: with_conn_def Connector_Start_def Let_def queue_functor_def res_simps hands_over_def
        dest!: StartInLoop_handed split: if_splits)
next
  case (Channel_event revents now err self)
  then have st: "cn_state (cs_conn s) = Kconnecting" "conn_at 0 (cs_conn s)"
    using assms(1,2) by (auto simp: connector_inv_def conn_at_def split: option.splits if_splits)
  then show ?thesis
    using HandleEvent_handed [OF st(2,1)] assms(4) Channel_event by (auto simp: with_conn_def res_simps)
next
  case (Timer_fires sockfd err)
  then have "cn_state (cs_conn s) = Kdisconnected" using assms(1,2) by (cases "cs_due s") (auto simp: connector_counts)
  then show ?thesis using assms(4) Timer_fires
    by (auto simp: with_conn_def res_simps hands_over_def dest!: StartInLoop_handed)
next
  case (Run_functor sockfd err)
  then obtain f fs where b: "cs_batch s = f # fs" using assms(2) by (cases "cs_batch s") auto
  show ?thesis
  proof (cases f)
    case Start_in_loop
    then have "cn_state (cs_conn s) = Kdisconnected" using assms(1) b by (auto simp: connector_counts)
    then show ?thesis using assms(4) Run_functor b Start_in_loop
      by (auto simp: with_conn_def res_simps hands_over_def dest!: StartInLoop_handed)
  next
    case Stop_in_loop
    then show ?thesis using assms(4) Run_functor b
      by (auto simp: with_conn_def res_simps hands_over_def dest!: StopInLoop_handed)
  next
    case Reset_channel
    then show ?thesis using assms(4) Run_functor b
      by (auto simp: with_conn_def res_simps hands_over_def Connector_ResetChannel_def split: option.splits)
  qed
qed (use assms(3,4) in \<open>auto simp: with_conn_def Connector_Stop_def queue_functor_def hands_over_def\<close>)

section \<open>The invariant\<close>

fun life_event :: "client_effect \<Rightarrow> bool" where
  "life_event (Established i) \<longleftrightarrow> True"
| "life_event (Destroy_queued i) \<longleftrightarrow> True"
| "life_event _ \<longleftrightarrow> False"

definition full_lives :: "int \<Rightarrow> client_effect list" where
  "full_lives n = concat (map (\<lambda>i. [Established i, Destroy_queued i]) [1..n])"

text \<open>The lives of the connections, one after the other; the last one may still be on.\<close>

definition lives_ok :: "tcp_client \<Rightarrow> bool" where
  "lives_ok c \<longleftrightarrow> 1 \<le> cl_next_conn_id c \<and>
     (case cl_connection c of
        None \<Rightarrow> filter life_event (cl_log c) = full_lives (cl_next_conn_id c - 1)
      | Some conn \<Rightarrow> 1 \<le> cc_id conn \<and> cc_id conn = cl_next_conn_id c - 1 \<and>
          filter life_event (cl_log c) = full_lives (cc_id conn - 1) @ [Established (cc_id conn)])"

definition client_inv :: "client_system \<Rightarrow> bool" where
  "client_inv s \<longleftrightarrow> connector_inv (sy_conn s) \<and> lives_ok (sy_client s) \<and>
     (cl_connection (sy_client s) \<noteq> None \<longrightarrow> cn_state (cs_conn (sy_conn s)) = Kconnected)"

lemma full_lives_next: "1 \<le> n \<Longrightarrow> full_lives n = full_lives (n - 1) @ [Established n, Destroy_queued n]"
  using upto_rec2 [of 1 n] by (simp add: full_lives_def)

lemma TcpConnection_new_total: "\<exists>c. TcpConnection_new fd = Inr c"
  using TcpConnection_new_ok [of 0] by (auto simp: TcpConnection_new_def res_simps)

lemma NewConnection_lives:
  assumes "lives_ok c" and "cl_connection c = None"
  shows "\<exists>c'. TcpClient_NewConnection True sockfd peer c = Inr c' \<and> lives_ok c' \<and> cl_connection c' \<noteq> None"
  using TcpConnection_new_total [of sockfd] assms
  by (auto simp: TcpClient_NewConnection_def Let_def note_effect_def lives_ok_def)

lemma client_start_inv: "client_inv (client_start name)"
proof -
  have "sy_conn (client_start name) = connector_start"
    by (simp add: client_start_def TcpClient_new_def connector_start_def)
  then show ?thesis
    using connector_start_inv by (simp add: client_inv_def client_start_def TcpClient_new_def lives_ok_def full_lives_def)
qed

lemma user_flag_lives [simp]: "lives_ok (user_flag i c) = lives_ok c" "cl_connection (user_flag i c) = cl_connection c"
  by (simp_all add: user_flag_def lives_ok_def split: connector_input.splits option.splits)

lemma client_connector_step:
  assumes "client_inv s" and "client_guard (Cl_connector i peer) s"
  shows "case client_exec (Cl_connector i peer) s of Inl e \<Rightarrow> e = Log_fatal | Inr s' \<Rightarrow> client_inv s'"
proof (cases "connector_exec i (sy_conn s)")
  case (Inl e)
  then show ?thesis using connector_step_inv [of "sy_conn s" i] assms by (simp add: client_inv_def)
next
  case (Inr k)
  have k: "connector_inv k" "connector_inv (sy_conn s)" using connector_step_inv [of "sy_conn s" i] assms Inr by (auto simp: client_inv_def)
  have h: "hands_over (cs_conn (sy_conn s)) (cs_conn k)" "cn_state (cs_conn (sy_conn s)) = Kconnected \<longrightarrow> cn_state (cs_conn k) = Kconnected"
    using connector_step_handed [OF k(2) _ _ Inr] assms(2) by auto
  let ?c = "user_flag i (sy_client s)"
  show ?thesis
  proof (cases "cn_handed (cs_conn k) = cn_handed (cs_conn (sy_conn s))")
    case True
    then show ?thesis using assms(1) Inr k(1) h(2) by (auto simp: hand_over_def client_inv_def)
  next
    case False
    then obtain fd where fd: "cn_handed (cs_conn k) = cn_handed (cs_conn (sy_conn s)) @ [fd]"
      "cn_state (cs_conn (sy_conn s)) = Kconnecting" "cn_state (cs_conn k) = Kconnected"
      using h(1) by (auto simp: hands_over_def)
    then have "cl_connection ?c = None" "lives_ok ?c" using assms(1) by (auto simp: client_inv_def)
    from NewConnection_lives [OF this(2,1), of fd peer] show ?thesis
      using Inr fd k(1) by (auto simp: hand_over_def client_inv_def)
  qed
qed

lemma client_closed_step:
  assumes "client_inv s" and "client_guard (Cl_closed sockfd err) s"
  shows "case client_exec (Cl_closed sockfd err) s of Inl e \<Rightarrow> e = Log_fatal | Inr s' \<Rightarrow> client_inv s'"
proof -
  obtain conn where conn: "cl_connection (sy_client s) = Some conn" using assms(2) by auto
  let ?k = "sy_conn s"
  have k: "connector_inv ?k" "cn_state (cs_conn ?k) = Kconnected" using assms(1) conn by (auto simp: client_inv_def)
  have g: "connector_guard (User_restart sockfd err) ?k" using assms(2) k(2) by simp
  note R = restart_step_inv [OF k(1) g]
  have lives: "lives_ok (note_effect (Destroy_queued (cc_id conn)) ((sy_client s)\<lparr>cl_connection := None\<rparr>))"
    using assms(1) conn full_lives_next [of "cc_id conn"] by (simp add: client_inv_def lives_ok_def note_effect_def)
  show ?thesis
  proof (cases "cl_retry (sy_client s) \<and> cl_connect (sy_client s)")
    case True
    then show ?thesis using conn R lives
      by (auto simp: TcpClient_RemoveConnection_def with_conn_def Let_def note_effect_def bindr_def client_inv_def split: sum.splits)
  next
    case False
    then have "client_exec (Cl_closed sockfd err) s =
        Inr (s\<lparr>sy_client := note_effect (Destroy_queued (cc_id conn)) ((sy_client s)\<lparr>cl_connection := None\<rparr>),
               sy_conn := (sy_conn s)\<lparr>cs_conn := cs_conn (sy_conn s)\<rparr>\<rparr>)"
      using conn by (auto simp: TcpClient_RemoveConnection_def Let_def note_effect_def)
    then show ?thesis using lives k(1) by (simp add: client_inv_def) (simp add: note_effect_def)
  qed
qed

lemma client_step_inv:
  assumes "client_inv s" and "client_guard i s"
  shows "case client_exec i s of Inl e \<Rightarrow> e = Log_fatal | Inr s' \<Rightarrow> client_inv s'"
proof (cases i)
  case Cl_enable_retry
  then show ?thesis using assms(1) by (simp add: client_inv_def TcpClient_EnableRetry_def lives_ok_def split: option.splits)
next
  case Cl_disconnect
  then show ?thesis using assms(1)
    by (auto simp: client_inv_def TcpClient_Disconnect_def lives_ok_def note_effect_def Let_def split: option.splits)
qed (use assms client_connector_step client_closed_step in auto)

lemma client_reach_inv: "client_reach name s \<Longrightarrow> client_inv s"
proof (induction rule: client_reach.induct)
  case cl_begins
  show ?case by (rule client_start_inv)
next
  case (cl_goes_on s i s')
  then show ?case using client_step_inv [of s i] by simp
qed

section \<open>Properties\<close>

text \<open>C33. The client has one connection at a time: with one \<open>Connect\<close>, and \<open>Stop\<close>, \<open>Disconnect\<close>, \<open>EnableRetry\<close>, events of the
  connector and the end of the connection in any order, no assert of the client or of its connector fails (a failing
  \<open>socket()\<close> ends the process, as the code says), and the connections are numbered from 1, each established once and handed
  back for destruction once, before the next one is established.\<close>

theorem tcp_client_lives:
  assumes "client_reach name s" and "client_guard i s"
  shows "(case client_exec i s of Inl e \<Rightarrow> e = Log_fatal | Inr s' \<Rightarrow> True) \<and>
    (let c = sy_client s in
     filter life_event (cl_log c) =
       (case cl_connection c of None \<Rightarrow> full_lives (cl_next_conn_id c - 1)
        | Some conn \<Rightarrow> full_lives (cl_next_conn_id c - 2) @ [Established (cl_next_conn_id c - 1)]))"
  using client_step_inv [OF client_reach_inv [OF assms(1)] assms(2)] client_reach_inv [OF assms(1)]
  by (auto simp: client_inv_def lives_ok_def Let_def split: sum.splits option.splits)

text \<open>A client that has connected.\<close>

lemma client_run: "\<exists>s. client_reach ''C'' s \<and> cl_connection (sy_client s) \<noteq> None \<and> cl_next_conn_id (sy_client s) = 2"
proof -
  let ?k = "\<lparr>cs_conn = (Connector_SetNewConnectionCallback Connector_new)\<lparr>cn_connect := True, cn_state := Kconnecting,
     cn_channel := Some (live_channel 5), cn_created := [5]\<rparr>, cs_batch = [], cs_due = [], cs_started = True\<rparr>"
  let ?s = "\<lparr>sy_client = fst (TcpClient_new ''C''), sy_conn = ?k\<rparr>"
  have 1: "client_reach ''C'' ?s"
    by (rule cl_goes_on [OF cl_begins, of "Cl_connector (User_start True 5 EINPROGRESS) ''p''"])
      (simp_all add: client_start_def TcpClient_new_def with_conn_def Connector_Start_def Connector_StartInLoop_def
      Connector_Connect_def Connector_Connecting_def connector_books socket_CreateNonblockingOrDie_def Let_def
      Connector_SetNewConnectionCallback_def Connector_new_def live_channel_def hand_over_def user_flag_def)
  obtain ob where ob: "TcpConnection_new 5 = Inr ob" using TcpConnection_new_total by blast
  let ?e = "Cl_connector (Channel_event POLLOUT (Timestamp 0) 0 False) ''p''"
  have ev: "Channel_HandleEvent True (Timestamp 0) (Channel_SetRevents POLLOUT (live_channel 5)) =
      Inr [Log_trace (Channel_ReventsToString (Channel_SetRevents POLLOUT (live_channel 5))), Write_callback]"
    by (simp add: Channel_HandleEvent_def Channel_HandleEventWithGuard_def Channel_SetRevents_def live_channel_def
      connector_channel_defs Let_def)
  have "\<exists>s. client_exec ?e ?s = Inr s \<and> cl_connection (sy_client s) \<noteq> None \<and> cl_next_conn_id (sy_client s) = 2"
    by (simp add: with_conn_def Connector_HandleEvent_def ev Connector_HandleWrite_def RemoveAndReset_ok connector_books Let_def
        Connector_SetNewConnectionCallback_def Connector_new_def hand_over_def user_flag_def TcpClient_NewConnection_def ob
        note_effect_def TcpClient_new_def)
  moreover have "client_guard ?e ?s" by simp
  ultimately show ?thesis using cl_goes_on [OF 1] by blast
qed

theorem tcp_client_lives_witness:
  "\<exists>s. client_reach ''C'' s \<and> filter life_event (cl_log (sy_client s)) = full_lives 0 @ [Established 1]"
proof -
  obtain s where "client_reach ''C'' s" "cl_connection (sy_client s) \<noteq> None" "cl_next_conn_id (sy_client s) = 2"
    using client_run by blast
  with tcp_client_lives [OF this(1), of Cl_enable_retry] show ?thesis by (intro exI [of _ s]) (auto simp: Let_def)
qed

end
