(* ===== verification/LogStream.thy ===== *)
theory LogStream
  imports Format "HOL-Library.Word"
begin

text \<open>
  \<open>dwater/base/log_stream.h\<close> and \<open>log_stream.cc\<close>: the fixed buffer a log line is built in, the conversions of integers
  and pointers, and the insertion operators. A buffer is its memory, as large as \<open>SIZE\<close>, and the offset of \<open>curr_\<close> in
  it; a write beyond the memory is the fault \<open>Bad_access\<close>. Integers of all widths are \<open>int\<close>; pointers are 64-bit words.
  The formatting of \<open>double\<close> by \<open>snprintf\<close> (\<open>operator<<(double)\<close>, \<open>FormatSI\<close>, \<open>FormatIEC\<close>) is not modelled.
\<close>

section \<open>FixedBuffer\<close>

record fixed_buffer =
  fb_data :: "char list"
  fb_curr :: nat

definition k_small_buffer :: nat where "k_small_buffer = 4000"
definition k_large_buffer :: nat where "k_large_buffer = 4000 * 1000"

definition FixedBuffer_new :: "char list \<Rightarrow> fixed_buffer" where
  "FixedBuffer_new mem = \<lparr>fb_data = mem, fb_curr = 0\<rparr>"

text \<open>\<open>Avail\<close> is the distance from the start of the memory to its end, wherever \<open>curr_\<close> is.\<close>

definition FixedBuffer_Avail :: "fixed_buffer \<Rightarrow> nat" where
  "FixedBuffer_Avail b = length (fb_data b)"

definition FixedBuffer_Length :: "fixed_buffer \<Rightarrow> nat" where
  "FixedBuffer_Length b = fb_curr b"

definition FixedBuffer_Add :: "nat \<Rightarrow> fixed_buffer \<Rightarrow> fixed_buffer" where
  "FixedBuffer_Add len b = b\<lparr>fb_curr := fb_curr b + len\<rparr>"

definition FixedBuffer_Reset :: "fixed_buffer \<Rightarrow> fixed_buffer" where
  "FixedBuffer_Reset b = b\<lparr>fb_curr := 0\<rparr>"

definition FixedBuffer_Bzero :: "fixed_buffer \<Rightarrow> fixed_buffer" where
  "FixedBuffer_Bzero b = b\<lparr>fb_data := replicate (length (fb_data b)) (CHR 0x00)\<rparr>"

text \<open>A write of bytes at an offset of the memory.\<close>

definition store_at :: "nat \<Rightarrow> char list \<Rightarrow> fixed_buffer \<Rightarrow> fixed_buffer result" where
  "store_at i xs b =
     (if length (fb_data b) < i + length xs then Inl Bad_access else Inr (b\<lparr>fb_data := overwrite (fb_data b) i xs\<rparr>))"

definition FixedBuffer_Append :: "char list \<Rightarrow> fixed_buffer \<Rightarrow> fixed_buffer result" where
  "FixedBuffer_Append buf b =
     (if length buf < FixedBuffer_Avail b
      then bindr (store_at (fb_curr b) buf b) (\<lambda>b. Inr (FixedBuffer_Add (length buf) b))
      else Inr b)"

definition FixedBuffer_DebugString :: "fixed_buffer \<Rightarrow> fixed_buffer result" where
  "FixedBuffer_DebugString b = store_at (fb_curr b) [CHR 0x00] b"

definition FixedBuffer_ToString :: "fixed_buffer \<Rightarrow> string result" where
  "FixedBuffer_ToString b =
     (if length (fb_data b) < fb_curr b then Inl Bad_access else Inr (take (FixedBuffer_Length b) (fb_data b)))"

section \<open>Conversions\<close>

definition digits :: string where "digits = ''9876543210123456789''"
definition digits_hex :: string where "digits_hex = ''0123456789ABCDEF''"

text \<open>The loop of \<open>Convert\<close>: the digits, least significant first. The remainder of a negative number is not positive.\<close>

function convert_loop :: "int \<Rightarrow> string" where
  "convert_loop i =
     (let lsd = cmod i 10; i' = cdiv i 10
      in digits ! nat (9 + lsd) # (if i' \<noteq> 0 then convert_loop i' else []))"
  by auto
termination
  by (relation "measure (\<lambda>i. nat \<bar>i\<bar>)") (auto simp: cdiv_def sgn_if split: if_splits)

declare convert_loop.simps [simp del]

definition Convert :: "int \<Rightarrow> string" where
  "Convert value = rev (convert_loop value @ (if value < 0 then ''-'' else ''''))"

text \<open>\<open>ConvertHex\<close> puts the terminating zero in before it reverses, and counts it.\<close>

function convert_hex_loop :: "nat \<Rightarrow> string" where
  "convert_hex_loop i = digits_hex ! (i mod 16) # (if i div 16 \<noteq> 0 then convert_hex_loop (i div 16) else [])"
  by auto
termination
  by (relation "measure id") auto

declare convert_hex_loop.simps [simp del]

definition ConvertHex :: "64 word \<Rightarrow> string" where
  "ConvertHex value = rev (convert_hex_loop (unat value) @ [CHR 0x00])"

section \<open>LogStream\<close>

definition k_max_numeric_size :: nat where "k_max_numeric_size = 32"

text \<open>\<open>FormatInteger\<close> writes the text and a zero behind it.\<close>

definition LogStream_FormatInteger :: "int \<Rightarrow> fixed_buffer \<Rightarrow> fixed_buffer result" where
  "LogStream_FormatInteger v b =
     (if k_max_numeric_size \<le> FixedBuffer_Avail b
      then bindr (store_at (fb_curr b) (Convert v @ [CHR 0x00]) b) (\<lambda>b. Inr (FixedBuffer_Add (length (Convert v)) b))
      else Inr b)"

definition LogStream_bool :: "bool \<Rightarrow> fixed_buffer \<Rightarrow> fixed_buffer result" where
  "LogStream_bool v b = FixedBuffer_Append (if v then ''1'' else ''0'') b"

definition LogStream_char :: "char \<Rightarrow> fixed_buffer \<Rightarrow> fixed_buffer result" where
  "LogStream_char v b = FixedBuffer_Append [v] b"

text \<open>\<open>None\<close> is the null pointer.\<close>

definition LogStream_cstr :: "string option \<Rightarrow> fixed_buffer \<Rightarrow> fixed_buffer result" where
  "LogStream_cstr str b =
     (case str of Some s \<Rightarrow> FixedBuffer_Append s b | None \<Rightarrow> FixedBuffer_Append ''(null)'' b)"

definition LogStream_string :: "string \<Rightarrow> fixed_buffer \<Rightarrow> fixed_buffer result" where
  "LogStream_string v b = FixedBuffer_Append v b"

definition LogStream_pointer :: "64 word \<Rightarrow> fixed_buffer \<Rightarrow> fixed_buffer result" where
  "LogStream_pointer p b =
     (if k_max_numeric_size \<le> FixedBuffer_Avail b
      then bindr (store_at (fb_curr b) (''0x'' @ ConvertHex p) b) (\<lambda>b. Inr (FixedBuffer_Add (length (ConvertHex p) + 2) b))
      else Inr b)"

definition LogStream_Append :: "char list \<Rightarrow> fixed_buffer \<Rightarrow> fixed_buffer result" where
  "LogStream_Append data b = FixedBuffer_Append data b"

definition LogStream_ResetBuffer :: "fixed_buffer \<Rightarrow> fixed_buffer" where
  "LogStream_ResetBuffer b = FixedBuffer_Reset b"

text \<open>\<open>Format\<close>: the text \<open>snprintf\<close> makes must fit its 32 bytes.\<close>

definition Format_new :: "string \<Rightarrow> string result" where
  "Format_new text = c_assert (length text < 32) (Inr text)"

section \<open>Lemmas\<close>

lemma digits_nth:
  assumes "- 10 < d" and "d < 10"
  shows "digits ! nat (9 + d) = digit_char (nat \<bar>d\<bar>)"
proof -
  have "d \<in> {-9, -8, -7, -6, -5, -4, -3, -2, -1, 0, 1, 2, 3, 4, 5, 6, 7, 8, 9}" using assms by simp presburger
  then show ?thesis by (auto simp: digits_def digit_char_def eval_nat_numeral) code_simp+
qed

lemma cdiv_abs: "nat \<bar>cdiv i 10\<bar> = nat \<bar>i\<bar> div 10" "nat \<bar>cmod i 10\<bar> = nat \<bar>i\<bar> mod 10"
  by (auto simp: cdiv_def cmod_def nat_div_distrib nat_mod_distrib minus_div_mult_eq_mod)

lemma convert_loop_digits: "rev (convert_loop i) = nat_dec (nat \<bar>i\<bar>)"
proof (induction i rule: convert_loop.induct)
  case (1 i)
  have b: "- 10 < cmod i 10" "cmod i 10 < 10" using cmod_bounds [of 10 i] by auto
  have "convert_loop i = digit_char (nat \<bar>i\<bar> mod 10) # (if cdiv i 10 \<noteq> 0 then convert_loop (cdiv i 10) else [])"
    using digits_nth [OF b] by (subst convert_loop.simps) (simp add: Let_def cdiv_abs)
  moreover have "cdiv i 10 = 0 \<longleftrightarrow> nat \<bar>i\<bar> < 10"
    using cdiv_abs(1) [of i] by (metis abs_eq_0_iff div_eq_0_iff int_nat_eq nat_0 nat_eq_iff2 zero_neq_numeral abs_ge_zero)
  ultimately show ?case
    using 1 by (subst nat_dec.simps) (auto simp: cdiv_abs Let_def)
qed

lemma Convert_decimal: "Convert v = int_dec v"
  by (simp add: Convert_def convert_loop_digits int_dec_def)

lemma int_dec_length64: "- (2 ^ 63) \<le> v \<Longrightarrow> v < 2 ^ 64 \<Longrightarrow> length (int_dec v) \<le> 20"
  using nat_dec_length [of 19 "nat (- v)"] nat_dec_length [of 20 "nat v"] by (auto simp: int_dec_def)

lemma ConvertHex_text: "ConvertHex p = CHR 0x00 # rev (convert_hex_loop (unat p))"
  by (simp add: ConvertHex_def)

definition held :: "fixed_buffer \<Rightarrow> string" where
  "held b = take (fb_curr b) (fb_data b)"

lemma store_held:
  assumes "store_at (fb_curr b) (xs @ ys) b = Inr b'"
  shows "held (FixedBuffer_Add (length xs) b') = held b @ xs" and "length (fb_data b') = length (fb_data b)"
    and "fb_curr b' = fb_curr b"
  using assms by (auto simp: store_at_def held_def FixedBuffer_Add_def overwrite_def split: if_splits)

lemma Append_fits:
  assumes "length xs < length (fb_data b)" and "fb_curr b + length xs \<le> length (fb_data b)"
  shows "\<exists>b'. FixedBuffer_Append xs b = Inr b' \<and> held b' = held b @ xs \<and> fb_curr b' = fb_curr b + length xs \<and>
    length (fb_data b') = length (fb_data b)"
  using assms
  by (auto simp: FixedBuffer_Append_def FixedBuffer_Avail_def store_at_def FixedBuffer_Add_def held_def overwrite_def)

lemma Append_beyond:
  "length xs < length (fb_data b) \<Longrightarrow> length (fb_data b) < fb_curr b + length xs \<Longrightarrow> FixedBuffer_Append xs b = Inl Bad_access"
  by (simp add: FixedBuffer_Append_def FixedBuffer_Avail_def store_at_def)

fun stream_all :: "string list \<Rightarrow> fixed_buffer \<Rightarrow> fixed_buffer result" where
  "stream_all [] b = Inr b"
| "stream_all (s # ss) b = bindr (LogStream_string s b) (stream_all ss)"

lemma stream_all_cases:
  assumes "list_all (\<lambda>s. length s < length (fb_data b)) ss" and "fb_curr b \<le> length (fb_data b)"
  shows "if fb_curr b + length (concat ss) \<le> length (fb_data b)
    then \<exists>b'. stream_all ss b = Inr b' \<and> held b' = held b @ concat ss
    else stream_all ss b = Inl Bad_access"
  using assms
proof (induction ss arbitrary: b)
  case (Cons s ss)
  show ?case
  proof (cases "fb_curr b + length s \<le> length (fb_data b)")
    case True
    then obtain b1 where b1: "FixedBuffer_Append s b = Inr b1" "held b1 = held b @ s" "fb_curr b1 = fb_curr b + length s"
      "length (fb_data b1) = length (fb_data b)"
      using Append_fits [of s b] Cons.prems by auto
    with Cons.IH [of b1] Cons.prems True show ?thesis by (auto simp: LogStream_string_def add.assoc split: if_splits)
  next
    case False
    then show ?thesis using Append_beyond [of s b] Cons.prems by (simp add: LogStream_string_def)
  qed
qed simp

section \<open>Properties\<close>

text \<open>Integers are printed in decimal: for every integer type up to 64 bits, signed or not, and every value, the most
  negative one included, \<open>FormatInteger\<close> appends the decimal text that \<open>%d\<close> would give, and does not write beyond the 32
  bytes it reserves.\<close>

theorem FormatInteger_decimal:
  assumes "- (2 ^ 63) \<le> v" and "v < 2 ^ 64" and "fb_curr b + k_max_numeric_size \<le> length (fb_data b)"
  shows "Convert v = int_dec v \<and> length (Convert v @ [CHR 0x00]) \<le> k_max_numeric_size \<and>
    (\<exists>b'. LogStream_FormatInteger v b = Inr b' \<and> held b' = held b @ int_dec v)"
proof -
  have len: "length (int_dec v) \<le> 20" by (rule int_dec_length64 [OF assms(1,2)])
  then obtain b1 where b1: "store_at (fb_curr b) (int_dec v @ [CHR 0x00]) b = Inr b1"
    using assms(3) by (simp add: store_at_def k_max_numeric_size_def)
  from store_held(1) [OF b1] b1 len assms(3) show ?thesis
    by (simp add: Convert_decimal LogStream_FormatInteger_def FixedBuffer_Avail_def k_max_numeric_size_def)
qed

theorem FormatInteger_decimal_witness:
  "\<exists>b'. LogStream_FormatInteger (- (2 ^ 63)) (FixedBuffer_new (replicate k_small_buffer (CHR 0x00))) = Inr b' \<and>
     held b' = ''-9223372036854775808''"
proof -
  have "int_dec (- (2 ^ 63)) = ''-9223372036854775808''" by (simp add: int_dec_def nat_dec.simps digit_char_eq_iff)
  then show ?thesis
    using FormatInteger_decimal [of "- (2 ^ 63)" "FixedBuffer_new (replicate k_small_buffer (CHR 0x00))"]
    by (simp add: FixedBuffer_new_def k_small_buffer_def k_max_numeric_size_def held_def)
qed

text \<open>C39. A log line holds what was inserted as long as it fits, and is written beyond the end of the buffer when it does
  not: \<open>Append\<close> compares with the size of the whole buffer instead of the space that is left, so pieces that each fit are
  all copied.\<close>

theorem log_stream_overflow:
  assumes "length mem = k_small_buffer" and "list_all (\<lambda>s. length s < k_small_buffer) ss"
  shows "if length (concat ss) \<le> k_small_buffer
    then \<exists>b. stream_all ss (FixedBuffer_new mem) = Inr b \<and> FixedBuffer_ToString b = Inr (concat ss)
    else stream_all ss (FixedBuffer_new mem) = Inl Bad_access"
proof -
  let ?b = "FixedBuffer_new mem"
  have b: "fb_curr ?b = 0" "fb_data ?b = mem" "held ?b = ''''" by (simp_all add: FixedBuffer_new_def held_def)
  have "FixedBuffer_ToString b' = Inr (held b')" if "stream_all ss ?b = Inr b'" for b'
  proof -
    have "fb_curr b'' \<le> length (fb_data b'')" if "stream_all ss b = Inr b''" "fb_curr b \<le> length (fb_data b)" for ss b b''
      using that
      by (induction ss arbitrary: b)
        (auto simp: LogStream_string_def FixedBuffer_Append_def FixedBuffer_Add_def store_at_def overwrite_def res_simps split: if_splits)
    from this [OF that] show ?thesis using b by (simp add: FixedBuffer_ToString_def FixedBuffer_Length_def held_def)
  qed
  then show ?thesis using stream_all_cases [of ?b ss] assms b by (auto split: if_splits)
qed

theorem log_stream_overflow_witness:
  "stream_all [replicate 3000 (CHR ''a''), replicate 1001 (CHR ''b'')] (FixedBuffer_new (replicate k_small_buffer (CHR 0x00))) =
     Inl Bad_access"
  using log_stream_overflow [of "replicate k_small_buffer (CHR 0x00)" "[replicate 3000 (CHR ''a''), replicate 1001 (CHR ''b'')]"]
  by (simp add: k_small_buffer_def del: stream_all.simps)

end
