(* ===== verification/Calendar.thy ===== *)
theory Calendar
  imports Format Timestamp
begin

text \<open>
  \<open>dwater/base/date.h\<close> and \<open>date.cc\<close>: dates as Julian day numbers, and the conversions to and from the
  year, month and day of the Gregorian calendar. The arithmetic is that of \<open>int\<close> with division
  truncating towards zero; the values of the conversions stay below \<open>2 ^ 31\<close> for all years up to five
  million, so no wrap-around is written out.
\<close>

section \<open>Dates\<close>

record year_month_day =
  ymd_year :: int
  ymd_month :: int
  ymd_day :: int

definition GetJulianDayNumber :: "int \<Rightarrow> int \<Rightarrow> int \<Rightarrow> int" where
  "GetJulianDayNumber year month day =
     (let a = cdiv (14 - month) 12;
          y = year + 4800 - a;
          m = month + 12 * a - 3
      in day + cdiv (153 * m + 2) 5 + y * 365 + cdiv y 4 - cdiv y 100 + cdiv y 400 - 32045)"

definition GetYearMonthDay :: "int \<Rightarrow> year_month_day" where
  "GetYearMonthDay julian_day_number =
     (let a = julian_day_number + 32044;
          b = cdiv (4 * a + 3) 146097;
          c = a - cdiv (b * 146097) 4;
          d = cdiv (4 * c + 3) 1461;
          e = c - cdiv (1461 * d) 4;
          m = cdiv (5 * e + 2) 153
      in \<lparr>ymd_year = b * 100 + d - 4800 + cdiv m 10, ymd_month = m + 3 - 12 * cdiv m 10,
          ymd_day = e - cdiv (153 * m + 2) 5 + 1\<rparr>)"

definition kjulian_day_of_19700101 :: int where
  "kjulian_day_of_19700101 = GetJulianDayNumber 1970 1 1"

definition kdays_per_week :: int where
  "kdays_per_week = 7"

datatype date = Date (JulianDayNumber: int)

definition Date_default :: date where
  "Date_default = Date 0"

definition Date_ymd :: "int \<Rightarrow> int \<Rightarrow> int \<Rightarrow> date" where
  "Date_ymd y m d = Date (GetJulianDayNumber y m d)"

definition Date_Swap :: "date \<Rightarrow> date \<Rightarrow> date \<times> date" where
  "Date_Swap x that = (Date (JulianDayNumber that), Date (JulianDayNumber x))"

definition Date_Valid :: "date \<Rightarrow> bool" where
  "Date_Valid x \<longleftrightarrow> JulianDayNumber x > 0"

definition Date_YearMonthDay :: "date \<Rightarrow> year_month_day" where
  "Date_YearMonthDay x = GetYearMonthDay (JulianDayNumber x)"

definition Date_Year :: "date \<Rightarrow> int" where
  "Date_Year x = ymd_year (Date_YearMonthDay x)"

definition Date_Month :: "date \<Rightarrow> int" where
  "Date_Month x = ymd_month (Date_YearMonthDay x)"

definition Date_Day :: "date \<Rightarrow> int" where
  "Date_Day x = ymd_day (Date_YearMonthDay x)"

definition Date_WeekDay :: "date \<Rightarrow> int" where
  "Date_WeekDay x = cmod (JulianDayNumber x + 1) kdays_per_week"

definition Date_ToIsoString :: "date \<Rightarrow> string" where
  "Date_ToIsoString x =
     (let ymd = Date_YearMonthDay x
      in snprintf_buf 32 (int_decw 4 (ymd_year ymd) @ ''-'' @ int_dec0 2 (ymd_month ymd) @ ''-'' @ int_dec0 2 (ymd_day ymd)))"

definition Date_less :: "date \<Rightarrow> date \<Rightarrow> bool" where
  "Date_less x y \<longleftrightarrow> JulianDayNumber x < JulianDayNumber y"

definition Date_eq :: "date \<Rightarrow> date \<Rightarrow> bool" where
  "Date_eq x y \<longleftrightarrow> JulianDayNumber x = JulianDayNumber y"

lemma Date_eq_iff: "Date_eq x y \<longleftrightarrow> x = y"
  by (auto simp: Date_eq_def intro: date.expand)

instantiation date :: linorder
begin

definition less_eq_date :: "date \<Rightarrow> date \<Rightarrow> bool" where
  "less_eq_date x y \<longleftrightarrow> JulianDayNumber x \<le> JulianDayNumber y"

definition less_date :: "date \<Rightarrow> date \<Rightarrow> bool" where
  "less_date x y \<longleftrightarrow> Date_less x y"

instance
  by standard (auto simp: less_eq_date_def less_date_def Date_less_def intro: date.expand)

end

section \<open>The Gregorian calendar\<close>

text \<open>The reference: leap years, the lengths of the months, and the day after a day.\<close>

definition leap_year :: "int \<Rightarrow> bool" where
  "leap_year y \<longleftrightarrow> y mod 4 = 0 \<and> (y mod 100 \<noteq> 0 \<or> y mod 400 = 0)"

definition month_length :: "int \<Rightarrow> int \<Rightarrow> int" where
  "month_length y m =
     (if m = 2 then (if leap_year y then 29 else 28)
      else if m = 4 \<or> m = 6 \<or> m = 9 \<or> m = 11 then 30 else 31)"

definition valid_ymd :: "year_month_day \<Rightarrow> bool" where
  "valid_ymd x \<longleftrightarrow> 1 \<le> ymd_month x \<and> ymd_month x \<le> 12 \<and> 1 \<le> ymd_day x \<and>
     ymd_day x \<le> month_length (ymd_year x) (ymd_month x) \<and>
     (- 4800 < ymd_year x \<or> ymd_year x = - 4800 \<and> 3 \<le> ymd_month x)"

definition next_day :: "year_month_day \<Rightarrow> year_month_day" where
  "next_day x =
     (if ymd_day x < month_length (ymd_year x) (ymd_month x) then x\<lparr>ymd_day := ymd_day x + 1\<rparr>
      else if ymd_month x < 12 then x\<lparr>ymd_month := ymd_month x + 1, ymd_day := 1\<rparr>
      else \<lparr>ymd_year = ymd_year x + 1, ymd_month = 1, ymd_day = 1\<rparr>)"

definition julian :: "year_month_day \<Rightarrow> int" where
  "julian x = GetJulianDayNumber (ymd_year x) (ymd_month x) (ymd_day x)"

section \<open>Lemmas\<close>

text \<open>
  Both conversions count from the first of March: \<open>y\<close> years of March to February, \<open>m\<close> months and \<open>e\<close> days in
  the year.
\<close>

definition march_year :: "int \<Rightarrow> int \<Rightarrow> int" where
  "march_year year month = (if month \<le> 2 then year + 4799 else year + 4800)"

definition march_month :: "int \<Rightarrow> int" where
  "march_month month = (if month \<le> 2 then month + 9 else month - 3)"

lemma julian_march:
  assumes "1 \<le> m" "m \<le> 12" "0 \<le> march_year y m"
  shows "GetJulianDayNumber y m d = d + (153 * march_month m + 2) div 5 + march_year y m * 365
    + march_year y m div 4 - march_year y m div 100 + march_year y m div 400 - 32045"
proof (cases "m \<le> 2")
  case True
  then have "cdiv (14 - m) 12 = 1" using assms by (simp add: cdiv_nonneg)
  then show ?thesis using True assms
    by (simp add: GetJulianDayNumber_def Let_def march_year_def march_month_def cdiv_nonneg) (simp add: add.commute)
next
  case False
  then have "cdiv (14 - m) 12 = 0" using assms by (simp add: cdiv_nonneg)
  then show ?thesis using False assms by (simp add: GetJulianDayNumber_def Let_def march_year_def march_month_def cdiv_nonneg)
qed

text \<open>The decomposition of a day count into centuries, years and days.\<close>

lemma div_quarter:
  fixes B k :: int
  shows "((4 * k + 1) * B) div 4 = k * B + B div 4" and "4 * (((4 * k + 1) * B) div 4) = (4 * k + 1) * B - B mod 4"
proof -
  have "(4 * k + 1) * B = B + k * B * 4" by algebra
  then show a: "((4 * k + 1) * B) div 4 = k * B + B div 4" by simp
  have "4 * (B div 4) = B - B mod 4" by (simp add: minus_mod_eq_mult_div)
  then show "4 * (((4 * k + 1) * B) div 4) = (4 * k + 1) * B - B mod 4" unfolding a by (simp add: algebra_simps)
qed

lemmas quarter_century = div_quarter [where k = 36524, simplified]
lemmas quarter_year = div_quarter [where k = 365, simplified]

lemma mod4_bounds: "0 \<le> (x::int) mod 4" "x mod 4 \<le> 3"
  using pos_mod_bound [of 4 x] by simp_all

lemma split_century:
  fixes B c :: int
  assumes "0 \<le> B" and "0 \<le> c" and "c \<le> 36523 \<or> (c = 36524 \<and> B mod 4 = 3)"
  shows "(4 * ((146097 * B) div 4 + c) + 3) div 146097 = B"
proof -
  have "4 * ((146097 * B) div 4 + c) + 3 = B * 146097 + (4 * c + 3 - B mod 4)"
    "0 \<le> 4 * c + 3 - B mod 4" "4 * c + 3 - B mod 4 < 146097"
    using assms quarter_century(2) [of B] mod4_bounds [of B] by auto
  then show ?thesis by simp
qed

lemma split_year:
  fixes Y e :: int
  assumes "0 \<le> Y" and "0 \<le> e" and "e \<le> 364 \<or> (e = 365 \<and> Y mod 4 = 3)"
  shows "(4 * ((1461 * Y) div 4 + e) + 3) div 1461 = Y"
proof -
  have "4 * ((1461 * Y) div 4 + e) + 3 = Y * 1461 + (4 * e + 3 - Y mod 4)"
    "0 \<le> 4 * e + 3 - Y mod 4" "4 * e + 3 - Y mod 4 < 1461"
    using assms quarter_year(2) [of Y] mod4_bounds [of Y] by auto
  then show ?thesis by simp
qed

lemma march_days:
  fixes y :: int
  shows "y * 365 + y div 4 - y div 100 + y div 400
    = (146097 * (y div 100)) div 4 + (1461 * (y mod 100)) div 4"
proof -
  define B Y where "B = y div 100" and "Y = y mod 100"
  have y: "y = 100 * B + Y" "0 \<le> Y" "Y < 100" by (simp_all add: B_def Y_def)
  have "y = Y + 25 * B * 4" using y(1) by simp
  then have "y div 4 = 25 * B + Y div 4" by simp
  moreover have "y div 400 = B div 4" using zdiv_zmult2_eq [of 4 y 100] by (simp add: B_def)
  moreover note quarter_century(1) [of B] quarter_year(1) [of Y]
  ultimately show ?thesis unfolding B_def [symmetric] Y_def [symmetric] using y(1) by simp
qed

lemma leap_next_march:
  assumes "leap_year (y + 1)"
  shows "y mod 100 mod 4 = 3" and "y mod 100 = 99 \<Longrightarrow> y div 100 mod 4 = 3"
proof -
  have "(y + 1) mod 4 = 0" using assms by (simp add: leap_year_def)
  then have "y mod 4 = 3" by presburger
  moreover have "y mod 100 mod 4 = y mod 4" by (rule mod_mod_cancel) simp
  ultimately show "y mod 100 mod 4 = 3" by simp
  assume "y mod 100 = 99"
  define B where "B = y div 100"
  have y: "y + 1 = (B + 1) * 100" using \<open>y mod 100 = 99\<close> div_mult_mod_eq [of y 100] by (simp add: B_def)
  then have "(y + 1) mod 100 = 0" by simp
  then have "(y + 1) mod 400 = 0" using assms by (simp add: leap_year_def)
  moreover have "(y + 1) mod 400 = (B + 1) mod 4 * 100" unfolding y using mult_mod_right [of 100 "B + 1" 4] by (simp add: mult.commute)
  ultimately have "(B + 1) mod 4 = 0" by simp
  then show "y div 100 mod 4 = 3" unfolding B_def [symmetric] by presburger
qed

text \<open>\<open>e\<close> is a day of the year from March to February.\<close>

definition day_of_year :: "int \<Rightarrow> int \<Rightarrow> bool" where
  "day_of_year y e \<longleftrightarrow> 0 \<le> e \<and> (e \<le> 364 \<or> e = 365 \<and> leap_year (y + 1))"

lemma year_recovered:
  assumes y: "0 \<le> y" and e: "day_of_year y e"
  defines "a \<equiv> e + y * 365 + y div 4 - y div 100 + y div 400"
  shows "(4 * a + 3) div 146097 = y div 100"
    and "a - (y div 100 * 146097) div 4 = (1461 * (y mod 100)) div 4 + e"
    and "(4 * ((1461 * (y mod 100)) div 4 + e) + 3) div 1461 = y mod 100" and "0 \<le> a"
proof -
  define B Y where "B = y div 100" and "Y = y mod 100"
  have a: "a = (146097 * B) div 4 + ((1461 * Y) div 4 + e)"
    using march_days [of y] by (simp add: a_def B_def Y_def)
  have B: "0 \<le> B" and Y: "0 \<le> Y" "Y \<le> 99" using y by (simp_all add: B_def Y_def pos_imp_zdiv_nonneg_iff)
  have c: "(1461 * Y) div 4 + e = 365 * Y + Y div 4 + e" using quarter_year(1) [of Y] by simp
  have Y4: "0 \<le> Y div 4" "Y div 4 \<le> 24" using Y by simp_all
  have e': "0 \<le> e" "e \<le> 365" "e = 365 \<Longrightarrow> leap_year (y + 1)" using e by (auto simp: day_of_year_def)
  have c_bound: "(1461 * Y) div 4 + e \<le> 36523 \<or> ((1461 * Y) div 4 + e = 36524 \<and> B mod 4 = 3)"
  proof (cases "Y = 99")
    case True
    then show ?thesis using c e' leap_next_march(2) [of y] by (auto simp: B_def Y_def)
  next
    case False
    then show ?thesis using c Y Y4 e' by linarith
  qed
  have e_bound: "e \<le> 364 \<or> (e = 365 \<and> Y mod 4 = 3)"
    using e leap_next_march(1) [of y] by (auto simp: day_of_year_def Y_def)
  have c0: "0 \<le> (1461 * Y) div 4 + e" using Y e' by (simp add: pos_imp_zdiv_nonneg_iff)
  show "(4 * a + 3) div 146097 = y div 100"
    unfolding a B_def [symmetric] by (rule split_century [OF B c0 c_bound])
  show "a - (y div 100 * 146097) div 4 = (1461 * (y mod 100)) div 4 + e"
    unfolding a B_def [symmetric] Y_def [symmetric] by (simp add: mult.commute)
  show "(4 * ((1461 * (y mod 100)) div 4 + e) + 3) div 1461 = y mod 100"
    unfolding Y_def [symmetric] by (rule split_year [OF Y(1) e'(1) e_bound])
  show "0 \<le> a" unfolding a using B c0 by (simp add: pos_imp_zdiv_nonneg_iff)
qed

lemma div_eqI: "q * b \<le> a \<Longrightarrow> a < (q + 1) * b \<Longrightarrow> 0 < b \<Longrightarrow> a div b = (q::int)"
  by (rule int_div_pos_eq [where r = "a - q * b"]) (simp_all add: algebra_simps)

lemma twelve:
  assumes "1 \<le> m" "m \<le> (12::int)"
  shows "m = 1 \<or> m = 2 \<or> m = 3 \<or> m = 4 \<or> m = 5 \<or> m = 6 \<or> m = 7 \<or> m = 8 \<or> m = 9 \<or> m = 10 \<or> m = 11 \<or> m = 12"
  using assms by presburger

text \<open>The day of the year and its month.\<close>

definition march_day :: "int \<Rightarrow> int \<Rightarrow> int" where
  "march_day m d = (153 * march_month m + 2) div 5 + d - 1"

lemma month_recovered:
  assumes "1 \<le> m" "m \<le> 12" "1 \<le> d" "d \<le> month_length y m"
  shows "(5 * march_day m d + 2) div 153 = march_month m" and "day_of_year (march_year y m) (march_day m d)"
proof -
  have "leap_year (y + 4800) = leap_year y"
    using mod_add_right_eq [of y 4800 4] mod_add_right_eq [of y 4800 100] mod_add_right_eq [of y 4800 400] by (simp add: leap_year_def)
  then show "day_of_year (march_year y m) (march_day m d)"
    using twelve [OF assms(1,2)] assms(3,4)
    by (elim disjE) (auto simp: day_of_year_def march_day_def march_month_def march_year_def month_length_def add.commute split: if_splits)
  show "(5 * march_day m d + 2) div 153 = march_month m"
    using twelve [OF assms(1,2)] assms(3,4)
    by (elim disjE) (auto simp: march_day_def march_month_def month_length_def intro!: div_eqI split: if_splits)
qed

lemma valid_march:
  assumes "valid_ymd x"
  shows "1 \<le> ymd_month x" "ymd_month x \<le> 12" "1 \<le> ymd_day x" "ymd_day x \<le> month_length (ymd_year x) (ymd_month x)"
    "0 \<le> march_year (ymd_year x) (ymd_month x)"
  using assms by (auto simp: valid_ymd_def march_year_def)

lemma julian_valid:
  assumes "valid_ymd x"
  defines "y \<equiv> march_year (ymd_year x) (ymd_month x)" and "e \<equiv> march_day (ymd_month x) (ymd_day x)"
  shows "julian x + 32044 = e + y * 365 + y div 4 - y div 100 + y div 400"
  using julian_march [OF valid_march(1,2,5) [OF assms(1)], of "ymd_day x"]
  by (simp add: julian_def y_def e_def march_day_def)

lemma month_back:
  assumes "1 \<le> m" "m \<le> (12::int)"
  shows "0 \<le> march_month m" "march_month m + 3 - 12 * (march_month m div 10) = m"
    "march_year y m - 4800 + march_month m div 10 = y"
  using twelve [OF assms] by (elim disjE; simp add: march_month_def march_year_def)+

lemma GetYearMonthDay_julian:
  assumes v: "valid_ymd x"
  shows "GetYearMonthDay (julian x) = x"
proof -
  define y where "y = march_year (ymd_year x) (ymd_month x)"
  define e where "e = march_day (ymd_month x) (ymd_day x)"
  note V = valid_march [OF v]
  have y0: "0 \<le> y" using V(5) by (simp add: y_def)
  note mr = month_recovered [OF V(1-4)]
  have doy: "day_of_year y e" using mr(2) by (simp add: y_def e_def)
  let ?a = "julian x + 32044"
  have a: "?a = e + y * 365 + y div 4 - y div 100 + y div 400" using julian_valid [OF v] by (simp add: y_def e_def)
  note R = year_recovered [OF y0 doy, folded a]
  have e0: "0 \<le> e" using doy by (simp add: day_of_year_def)
  have b0: "0 \<le> y div 100" and d0: "0 \<le> y mod 100" and c0: "0 \<le> (1461 * (y mod 100)) div 4"
    using y0 by (simp_all add: pos_imp_zdiv_nonneg_iff)
  have b: "cdiv (4 * ?a + 3) 146097 = y div 100" using R(1,4) by (simp add: cdiv_nonneg)
  have c: "?a - cdiv (y div 100 * 146097) 4 = (1461 * (y mod 100)) div 4 + e" using R(2) b0 by (simp add: cdiv_nonneg)
  have d: "cdiv (4 * ((1461 * (y mod 100)) div 4 + e) + 3) 1461 = y mod 100" using R(3) e0 c0 by (simp add: cdiv_nonneg)
  have ee: "(1461 * (y mod 100)) div 4 + e - cdiv (1461 * (y mod 100)) 4 = e" using d0 by (simp add: cdiv_nonneg)
  have m: "cdiv (5 * e + 2) 153 = march_month (ymd_month x)" using mr(1) e0 by (simp add: cdiv_nonneg e_def)
  note mb = month_back [OF V(1,2)]
  have mm: "cdiv (march_month (ymd_month x)) 10 = march_month (ymd_month x) div 10"
    "cdiv (153 * march_month (ymd_month x) + 2) 5 = (153 * march_month (ymd_month x) + 2) div 5"
    using mb(1) by (simp_all add: cdiv_nonneg)
  have "y div 100 * 100 + y mod 100 = y" by simp
  then have "GetYearMonthDay (julian x) = \<lparr>ymd_year = ymd_year x, ymd_month = ymd_month x, ymd_day = ymd_day x\<rparr>"
    using mb(2) mb(3) [of "ymd_year x"] unfolding GetYearMonthDay_def Let_def b c d ee m mm
    by (simp add: y_def [symmetric] e_def march_day_def)
  then show ?thesis by simp
qed

text \<open>The day after has the next number.\<close>

lemma valid_next: "valid_ymd x \<Longrightarrow> valid_ymd (next_day x)"
  by (auto simp: valid_ymd_def next_day_def month_length_def)

lemma div_Suc:
  fixes y k :: int
  assumes "0 < k"
  shows "(y + 1) div k = y div k + (if (y + 1) mod k = 0 then 1 else 0)"
proof -
  define q r where "q = y div k" and "r = y mod k"
  have y: "y + 1 = k * q + (r + 1)" "0 \<le> r" "r < k" using assms by (simp_all add: q_def r_def)
  show ?thesis
  proof (cases "r + 1 = k")
    case True
    then have "y + 1 = k * (q + 1)" using y(1) by (simp add: algebra_simps)
    then show ?thesis using assms unfolding q_def [symmetric] by simp
  next
    case False
    then have "(y + 1) div k = q" "(y + 1) mod k = r + 1"
      using y assms by (auto intro: int_div_pos_eq int_mod_pos_eq)
    then show ?thesis using y(2) unfolding q_def [symmetric] by simp
  qed
qed

lemma leap_count:
  fixes D4 D100 D400 E4 E100 E400 y :: int
  assumes "D4 = E4 + (if P then 1 else 0)" "D100 = E100 + (if Q then 1 else 0)" "D400 = E400 + (if R then 1 else 0)"
    and "Q \<Longrightarrow> P" "R \<Longrightarrow> Q"
  shows "(y + 1) * 365 + D4 - D100 + D400 = y * 365 + E4 - E100 + E400 + 365 + (if P \<and> (\<not> Q \<or> R) then 1 else 0)"
  using assms by (cases P; cases Q; cases R) auto

lemma march_next_year:
  fixes y :: int
  assumes "0 \<le> y"
  shows "(y + 1) * 365 + (y + 1) div 4 - (y + 1) div 100 + (y + 1) div 400
    = y * 365 + y div 4 - y div 100 + y div 400 + 365 + (if leap_year (y + 1) then 1 else 0)"
proof -
  have m4: "(y + 1) mod 100 = 0 \<Longrightarrow> (y + 1) mod 4 = 0" "(y + 1) mod 400 = 0 \<Longrightarrow> (y + 1) mod 100 = 0"
    using mod_mod_cancel [of 4 100 "y + 1"] mod_mod_cancel [of 100 400 "y + 1"] by simp_all
  show ?thesis unfolding leap_year_def by (rule leap_count [OF div_Suc div_Suc div_Suc m4]) simp_all
qed

lemma julian_next:
  assumes v: "valid_ymd x"
  shows "julian (next_day x) = julian x + 1"
proof -
  define y where "y = march_year (ymd_year x) (ymd_month x)"
  define F where "F z = z * 365 + z div 4 - z div 100 + z div (400::int)" for z
  note V = valid_march [OF v] and V' = valid_march [OF valid_next [OF v]]
  have j: "julian x = march_day (ymd_month x) (ymd_day x) + F y - 32044"
    using julian_valid [OF v] by (simp add: y_def F_def)
  have j': "julian (next_day x) = march_day (ymd_month (next_day x)) (ymd_day (next_day x))
      + F (march_year (ymd_year (next_day x)) (ymd_month (next_day x))) - 32044"
    using julian_valid [OF valid_next [OF v]] by (simp add: F_def)
  have y0: "0 \<le> y" using V(5) by (simp add: y_def)
  have F1: "F (y + 1) = F y + 365 + (if leap_year (y + 1) then 1 else 0)" using march_next_year [OF y0] by (simp add: F_def)
  have leap: "leap_year (ymd_year x + 4800) = leap_year (ymd_year x)"
    using mod_add_right_eq [of "ymd_year x" 4800 4] mod_add_right_eq [of "ymd_year x" 4800 100]
      mod_add_right_eq [of "ymd_year x" 4800 400] by (simp add: leap_year_def)
  have whole: "ymd_day x < month_length (ymd_year x) (ymd_month x) \<or> ymd_day x = month_length (ymd_year x) (ymd_month x)"
    "month_length (ymd_year x) 12 = 31" "ymd_month x = 12 \<or> ymd_month x < 12"
    using V(2,4) by (auto simp: month_length_def)
  consider (inside) "ymd_day x < month_length (ymd_year x) (ymd_month x)"
    | (february) "ymd_month x = 2" "ymd_day x = month_length (ymd_year x) 2"
    | (december) "ymd_month x = 12" "ymd_day x = 31"
    | (month) "ymd_month x \<noteq> 2" "ymd_month x < 12" "ymd_day x = month_length (ymd_year x) (ymd_month x)"
    using whole by metis
  then show ?thesis
  proof cases
    case inside
    then show ?thesis using j j' by (simp add: next_day_def march_day_def y_def)
  next
    case february
    then have "y + 1 = ymd_year x + 4800" by (simp add: y_def march_year_def)
    from F1 [unfolded this leap] february j j' show ?thesis
      by (simp add: next_day_def month_length_def march_day_def march_month_def march_year_def split: if_splits)
  next
    case december
    then show ?thesis using j j'
      by (simp add: next_day_def month_length_def march_day_def march_month_def march_year_def y_def add.commute)
  next
    case month
    have "march_day (ymd_month x + 1) 1 = march_day (ymd_month x) (month_length (ymd_year x) (ymd_month x)) + 1"
      using twelve [OF V(1,2)] month by (elim disjE) (simp_all add: march_day_def march_month_def month_length_def)
    moreover have "march_year (ymd_year x) (ymd_month x + 1) = y" using month V(1) by (auto simp: y_def march_year_def)
    ultimately show ?thesis using j j' month by (simp add: next_day_def)
  qed
qed

text \<open>Every day number from the epoch of the algorithm on is the number of a day of the calendar.\<close>

definition first_day :: year_month_day where
  "first_day = \<lparr>ymd_year = - 4800, ymd_month = 3, ymd_day = 1\<rparr>"

lemma julian_reached: "\<exists>x. valid_ymd x \<and> julian x = int n - 32044"
proof (induction n)
  case 0
  have "valid_ymd first_day" by (simp add: first_day_def valid_ymd_def month_length_def)
  moreover have "julian first_day = - 32044" by code_simp
  ultimately show ?case by auto
next
  case (Suc n)
  then obtain x where "valid_ymd x" "julian x = int n - 32044" by blast
  then show ?case using valid_next julian_next by (intro exI [of _ "next_day x"]) auto
qed

lemma julian_GetYearMonthDay:
  assumes "- 32044 \<le> j"
  shows "julian (GetYearMonthDay j) = j" and "valid_ymd (GetYearMonthDay j)"
proof -
  have "int (nat (j + 32044)) - 32044 = j" using assms by simp
  then obtain x where "valid_ymd x" "julian x = j" using julian_reached [of "nat (j + 32044)"] by auto
  then show "julian (GetYearMonthDay j) = j" "valid_ymd (GetYearMonthDay j)"
    using GetYearMonthDay_julian [of x] by auto
qed

lemma julian_1970: "kjulian_day_of_19700101 = 2440588"
  by code_simp



end
