(* ===== verification/TimeZone.thy ===== *)
theory TimeZone
  imports Calendar
begin

text \<open>
  \<open>dwater/base/time_zone.h\<close> and \<open>time_zone.cc\<close>: broken-down times, the reader of compiled time zone files and
  the search for the offset in force. A file is its bytes, or \<open>None\<close> when \<open>fopen\<close> fails. The reader throws
  \<open>logic_error\<close> (and \<open>length_error\<close>, which is one) inside a \<open>try\<close> that keeps what was read so far;
  \<open>try_read\<close> is that \<open>try\<close>. The C library's \<open>gmtime_r\<close> and \<open>timegm\<close> are the conversions of \<open>ToUtcTime\<close> and
  \<open>FromUtcTime\<close>. \<open>std::lower_bound\<close> on a range ordered by the comparison is the length of the prefix
  before the key.
\<close>

section \<open>Data\<close>

record transition =
  tr_gmttime :: int
  tr_localtime :: int
  tr_localtime_index :: int

definition Comp :: "bool \<Rightarrow> transition \<Rightarrow> transition \<Rightarrow> bool" where
  "Comp compare_gmt lhs rhs =
     (if compare_gmt then tr_gmttime lhs < tr_gmttime rhs else tr_localtime lhs < tr_localtime rhs)"

definition Comp_Equal :: "bool \<Rightarrow> transition \<Rightarrow> transition \<Rightarrow> bool" where
  "Comp_Equal compare_gmt lhs rhs =
     (if compare_gmt then tr_gmttime lhs < tr_gmttime rhs else tr_localtime lhs < tr_localtime rhs)"

record local_time =
  lt_gmt_offset :: int
  lt_is_dst :: bool
  lt_arrb_index :: int

record tz_data =
  tz_transitions :: "transition list"
  tz_localtimes :: "local_time list"
  tz_names :: "string list"
  tz_abbreviation :: string

definition empty_data :: tz_data where
  "empty_data = \<lparr>tz_transitions = [], tz_localtimes = [], tz_names = [], tz_abbreviation = []\<rparr>"

record tm =
  tm_sec :: int
  tm_min :: int
  tm_hour :: int
  tm_mday :: int
  tm_mon :: int
  tm_year :: int
  tm_wday :: int
  tm_yday :: int
  tm_isdst :: bool
  tm_gmtoff :: int
  tm_zone :: string

definition zero_tm :: tm where
  "zero_tm = \<lparr>tm_sec = 0, tm_min = 0, tm_hour = 0, tm_mday = 0, tm_mon = 0, tm_year = 0, tm_wday = 0, tm_yday = 0,
     tm_isdst = False, tm_gmtoff = 0, tm_zone = []\<rparr>"

definition FillHMS :: "int \<Rightarrow> tm \<Rightarrow> tm" where
  "FillHMS seconds utc =
     (let minutes = seconds div 60
      in utc\<lparr>tm_sec := seconds mod 60, tm_min := minutes mod 60, tm_hour := minutes div 60\<rparr>)"

definition kseconds_per_day :: int where
  "kseconds_per_day = 24 * 60 * 60"

section \<open>Coordinated universal time\<close>

definition TimeZone_ToUtcTime :: "int \<Rightarrow> bool \<Rightarrow> tm" where
  "TimeZone_ToUtcTime seconds_since_epoch yday =
     (let seconds0 = to_int32 (cmod seconds_since_epoch kseconds_per_day);
          days0 = to_int32 (cdiv seconds_since_epoch kseconds_per_day);
          seconds = (if seconds0 < 0 then seconds0 + kseconds_per_day else seconds0);
          days = (if seconds0 < 0 then days0 - 1 else days0);
          utc = FillHMS seconds (zero_tm\<lparr>tm_zone := ''GMT''\<rparr>);
          date = Date (days + kjulian_day_of_19700101);
          ymd = Date_YearMonthDay date;
          utc1 = utc\<lparr>tm_year := ymd_year ymd - 1900, tm_mon := ymd_month ymd - 1, tm_mday := ymd_day ymd,
                     tm_wday := Date_WeekDay date\<rparr>
      in if yday then utc1\<lparr>tm_yday := JulianDayNumber date - JulianDayNumber (Date_ymd (ymd_year ymd) 1 1)\<rparr> else utc1)"

definition TimeZone_FromUtcTime_fields :: "int \<Rightarrow> int \<Rightarrow> int \<Rightarrow> int \<Rightarrow> int \<Rightarrow> int \<Rightarrow> int" where
  "TimeZone_FromUtcTime_fields year month day hour minute seconds =
     (let date = Date_ymd year month day;
          seconds_in_day = hour * 3600 + minute * 60 + seconds;
          days = JulianDayNumber date - kjulian_day_of_19700101
      in days * kseconds_per_day + seconds_in_day)"

definition TimeZone_FromUtcTime :: "tm \<Rightarrow> int" where
  "TimeZone_FromUtcTime utc =
     TimeZone_FromUtcTime_fields (tm_year utc + 1900) (tm_mon utc + 1) (tm_mday utc) (tm_hour utc) (tm_min utc) (tm_sec utc)"

definition Date_tm :: "tm \<Rightarrow> date" where
  "Date_tm t = Date (GetJulianDayNumber (tm_year t + 1900) (tm_mon t + 1) (tm_mday t))"

definition gmtime_r :: "int \<Rightarrow> tm" where
  "gmtime_r t = TimeZone_ToUtcTime t True"

definition timegm :: "tm \<Rightarrow> int" where
  "timegm t = TimeZone_FromUtcTime t"

section \<open>Time zone files\<close>

definition File_ReadBytes :: "nat \<Rightarrow> char list \<Rightarrow> (string \<times> char list) option" where
  "File_ReadBytes n f = (if length f < n then None else Some (take n f, drop n f))"

definition be32 :: "char list \<Rightarrow> int" where
  "be32 bs = to_int32 (int (le_val (rev bs)))"

definition File_ReadInt32 :: "char list \<Rightarrow> (int \<times> char list) option" where
  "File_ReadInt32 f = (if length f < 4 then None else Some (be32 (take 4 f), drop 4 f))"

definition File_ReadUInt8 :: "char list \<Rightarrow> (int \<times> char list) option" where
  "File_ReadUInt8 f = (case f of [] \<Rightarrow> None | c # f' \<Rightarrow> Some (int (of_char c), f'))"

definition try_read :: "('a \<times> char list) option \<Rightarrow> tz_data \<Rightarrow> ('a \<Rightarrow> char list \<Rightarrow> tz_data result) \<Rightarrow> tz_data result" where
  "try_read r data k = (case r of None \<Rightarrow> Inr data | Some (x, f) \<Rightarrow> k x f)"

fun read_many :: "(char list \<Rightarrow> ('a \<times> char list) option) \<Rightarrow> nat \<Rightarrow> char list \<Rightarrow> ('a list \<times> char list) option" where
  "read_many rd 0 f = Some ([], f)"
| "read_many rd (Suc n) f =
     (case rd f of None \<Rightarrow> None
      | Some (x, f') \<Rightarrow> (case read_many rd n f' of None \<Rightarrow> None | Some (xs, f'') \<Rightarrow> Some (x # xs, f'')))"

text \<open>The loop over the local time types pushes into \<open>data\<close> as it goes; \<open>None\<close> is the exception.\<close>

fun read_types :: "nat \<Rightarrow> char list \<Rightarrow> tz_data \<Rightarrow> tz_data \<times> char list option" where
  "read_types 0 f data = (data, Some f)"
| "read_types (Suc n) f data =
     (case File_ReadInt32 f of None \<Rightarrow> (data, None) | Some (gmtoff, f1) \<Rightarrow>
      (case File_ReadUInt8 f1 of None \<Rightarrow> (data, None) | Some (isdst, f2) \<Rightarrow>
      (case File_ReadUInt8 f2 of None \<Rightarrow> (data, None) | Some (abbrind, f3) \<Rightarrow>
         read_types n f3 (data\<lparr>tz_localtimes := tz_localtimes data @
           [\<lparr>lt_gmt_offset = gmtoff, lt_is_dst = (isdst \<noteq> 0), lt_arrb_index = abbrind\<rparr>]\<rparr>))))"

fun push_transitions :: "(int \<times> int) list \<Rightarrow> tz_data \<Rightarrow> tz_data result" where
  "push_transitions [] data = Inr data"
| "push_transitions ((at_time, localIdx) # ts) data =
     (if localIdx < 0 \<or> int (length (tz_localtimes data)) \<le> localIdx then Inl Bad_access
      else let localtime = at_time + lt_gmt_offset (tz_localtimes data ! nat localIdx)
           in push_transitions ts (data\<lparr>tz_transitions := tz_transitions data @
                [\<lparr>tr_gmttime = at_time, tr_localtime = localtime, tr_localtime_index = localIdx\<rparr>]\<rparr>))"

definition read_header :: "char list \<Rightarrow> ((int \<times> int \<times> int) \<times> char list) option" where
  "read_header f =
     (case File_ReadBytes 4 f of None \<Rightarrow> None | Some (head, f1) \<Rightarrow>
      if head \<noteq> ''TZif'' then None else
      (case File_ReadBytes 1 f1 of None \<Rightarrow> None | Some (version, f2) \<Rightarrow>
      (case File_ReadBytes 15 f2 of None \<Rightarrow> None | Some (reserved, f3) \<Rightarrow>
      (case read_many File_ReadInt32 6 f3 of
         Some ([isgmtcnt, isstdcnt, leapcnt, timecnt, typecnt, charcnt], f4) \<Rightarrow> Some ((timecnt, typecnt, charcnt), f4)
       | _ \<Rightarrow> None))))"

text \<open>\<open>trans.reserve\<close> of a negative count throws \<open>length_error\<close>; an array of a negative size is undefined.\<close>

definition ReadTimeZoneFile :: "char list option \<Rightarrow> tz_data \<Rightarrow> (bool \<times> tz_data) result" where
  "ReadTimeZoneFile zone_file data =
     (case zone_file of
        None \<Rightarrow> Inr (True, data)
      | Some f \<Rightarrow>
          bindr (try_read (read_header f) data (\<lambda>(timecnt, typecnt, charcnt) f1.
            if timecnt < 0 then Inr data else
            try_read (read_many File_ReadInt32 (nat timecnt) f1) data (\<lambda>times f2.
            try_read (read_many File_ReadUInt8 (nat timecnt) f2) data (\<lambda>localtimes f3.
            case read_types (nat typecnt) f3 data of
              (data1, None) \<Rightarrow> Inr data1
            | (data1, Some f4) \<Rightarrow>
                bindr (push_transitions (zip times localtimes) data1) (\<lambda>data2.
                  if charcnt < 0 then Inl Bad_access else
                  try_read (File_ReadBytes (nat charcnt) f4) data2 (\<lambda>abbreviation f5.
                    Inr (data2\<lparr>tz_abbreviation := abbreviation\<rparr>)))))))
            (\<lambda>d. Inr (True, d)))"

section \<open>Local time\<close>

definition lower_idx :: "bool \<Rightarrow> transition list \<Rightarrow> transition \<Rightarrow> nat" where
  "lower_idx gmt ts sentry = length (takeWhile (\<lambda>t. Comp gmt t sentry) ts)"

definition local_at :: "tz_data \<Rightarrow> int \<Rightarrow> local_time result" where
  "local_at data i = (if i < 0 \<or> int (length (tz_localtimes data)) \<le> i then Inl Bad_access
                      else Inr (tz_localtimes data ! nat i))"

definition FindLocaltime :: "tz_data \<Rightarrow> transition \<Rightarrow> bool \<Rightarrow> local_time result" where
  "FindLocaltime data sentry gmt =
     (if tz_transitions data = [] \<or> Comp gmt sentry (hd (tz_transitions data))
      then local_at data 0
      else let iter = lower_idx gmt (tz_transitions data) sentry
           in if iter \<noteq> length (tz_transitions data)
              then if \<not> Comp_Equal gmt sentry (tz_transitions data ! iter)
                   then c_assert (iter \<noteq> 0) (local_at data (tr_localtime_index (tz_transitions data ! (iter - 1))))
                   else local_at data (tr_localtime_index (tz_transitions data ! iter))
              else local_at data (tr_localtime_index (last (tz_transitions data))))"

text \<open>A zone is its \<open>data_\<close> pointer. The two constructors; \<open>valid\<close> is whether the pointer is set.\<close>

type_synonym time_zone = "tz_data option"

definition TimeZone_file :: "char list option \<Rightarrow> time_zone result" where
  "TimeZone_file zone_file =
     bindr (ReadTimeZoneFile zone_file empty_data) (\<lambda>(good, data). Inr (if \<not> good then None else Some data))"

definition TimeZone_fixed :: "int \<Rightarrow> string \<Rightarrow> time_zone" where
  "TimeZone_fixed east_of_utc name =
     Some (empty_data\<lparr>tz_localtimes := [\<lparr>lt_gmt_offset = east_of_utc, lt_is_dst = False, lt_arrb_index = 0\<rparr>],
                      tz_abbreviation := name\<rparr>)"

definition TimeZone_valid :: "time_zone \<Rightarrow> bool" where
  "TimeZone_valid z \<longleftrightarrow> z \<noteq> None"

text \<open>The text behind \<open>&data.abbreviation[i]\<close>, up to its NUL.\<close>

definition zone_name :: "tz_data \<Rightarrow> int \<Rightarrow> string" where
  "zone_name data i = takeWhile (\<lambda>c. c \<noteq> CHR 0x00) (drop (nat i) (tz_abbreviation data))"

definition TimeZone_ToLocalTime :: "int \<Rightarrow> time_zone \<Rightarrow> tm result" where
  "TimeZone_ToLocalTime seconds z =
     (case z of
        None \<Rightarrow> Inl Assert_failed
      | Some data \<Rightarrow>
          bindr (FindLocaltime data \<lparr>tr_gmttime = seconds, tr_localtime = 0, tr_localtime_index = 0\<rparr> True) (\<lambda>local.
            let local_seconds = seconds + lt_gmt_offset local
            in Inr ((gmtime_r local_seconds)\<lparr>tm_isdst := lt_is_dst local, tm_gmtoff := lt_gmt_offset local,
                      tm_zone := zone_name data (lt_arrb_index local)\<rparr>)))"

definition TimeZone_FromLocalTime :: "tm \<Rightarrow> time_zone \<Rightarrow> int result" where
  "TimeZone_FromLocalTime localtime z =
     (case z of
        None \<Rightarrow> Inl Assert_failed
      | Some data \<Rightarrow>
          let seconds = timegm localtime
          in bindr (FindLocaltime data \<lparr>tr_gmttime = 0, tr_localtime = seconds, tr_localtime_index = 0\<rparr> False) (\<lambda>local.
             bindr (if tm_isdst localtime
                    then bindr (TimeZone_ToLocalTime (seconds - lt_gmt_offset local) z) (\<lambda>try_tm.
                           Inr (if \<not> tm_isdst try_tm \<and> tm_hour try_tm = tm_hour localtime \<and> tm_min try_tm = tm_min localtime
                                then seconds - 60 * 60 else seconds))
                    else Inr seconds)
              (\<lambda>seconds'. Inr (seconds' - lt_gmt_offset local))))"

section \<open>Lemmas\<close>

lemma utc_split:
  fixes t :: int
  assumes "- (2 ^ 46) \<le> t" "t \<le> 2 ^ 46"
  defines "s0 \<equiv> to_int32 (cmod t kseconds_per_day)" and "d0 \<equiv> to_int32 (cdiv t kseconds_per_day)"
  defines "s \<equiv> if s0 < 0 then s0 + kseconds_per_day else s0" and "d \<equiv> if s0 < 0 then d0 - 1 else d0"
  shows "s = t mod kseconds_per_day" and "d = t div kseconds_per_day"
proof -
  let ?k = "kseconds_per_day"
  have k: "?k = 86400" by (simp add: kseconds_per_day_def)
  have m: "- 86400 < cmod t ?k" "cmod t ?k < 86400" using cmod_bounds [of ?k t] by (simp_all add: k)
  then have s0: "s0 = cmod t ?k" unfolding s0_def by (intro to_int32_in_range) auto
  have "\<bar>cdiv t ?k\<bar> \<le> \<bar>t\<bar> div 86400"
    by (cases "0 \<le> t") (simp_all add: cdiv_def k)
  moreover have "\<bar>t\<bar> div 86400 \<le> 2 ^ 46 div 86400" using assms(1,2) by (intro zdiv_mono1) auto
  ultimately have "\<bar>cdiv t ?k\<bar> < 2 ^ 31" by simp
  then have d0: "d0 = cdiv t ?k" unfolding d0_def by (intro to_int32_in_range) auto
  have t: "t = ?k * d + s" using cdiv_cmod [of t ?k] by (auto simp: s_def d_def s0 d0 k algebra_simps)
  have "0 \<le> s" "s < ?k" using m by (auto simp: s_def s0 k)
  then show "s = t mod ?k" "d = t div ?k" unfolding t by (simp_all add: k)
qed

lemma hms_back:
  fixes s :: int
  assumes "0 \<le> s" "s < 86400"
  shows "s div 60 div 60 * 3600 + s div 60 mod 60 * 60 + s mod 60 = s" "0 \<le> s div 60 div 60" "s div 60 div 60 < 24"
proof -
  have "s div 60 div 60 * 60 + s div 60 mod 60 = s div 60" "s div 60 * 60 + s mod 60 = s" by simp_all
  then show "s div 60 div 60 * 3600 + s div 60 mod 60 * 60 + s mod 60 = s" by linarith
  have "s div 60 div 60 = s div 3600" using zdiv_zmult2_eq [of 60 s 60] by simp
  then show "0 \<le> s div 60 div 60" "s div 60 div 60 < 24" using assms by simp_all
qed

lemma ToUtcTime_fields:
  assumes "- 213635404800 \<le> t" "t \<le> 2 ^ 45" and u: "u = TimeZone_ToUtcTime t yday"
    and x: "x = GetYearMonthDay (t div kseconds_per_day + kjulian_day_of_19700101)"
  shows "tm_year u + 1900 = ymd_year x" "tm_mon u + 1 = ymd_month x" "tm_mday u = ymd_day x"
    "tm_sec u = t mod kseconds_per_day mod 60" "tm_min u = t mod kseconds_per_day div 60 mod 60"
    "tm_hour u = t mod kseconds_per_day div 60 div 60" "valid_ymd x"
    "julian x = t div kseconds_per_day + kjulian_day_of_19700101"
proof -
  let ?s0 = "to_int32 (cmod t kseconds_per_day)" and ?d0 = "to_int32 (cdiv t kseconds_per_day)"
  have sp: "(if ?s0 < 0 then ?s0 + kseconds_per_day else ?s0) = t mod kseconds_per_day"
    "(if ?s0 < 0 then ?d0 - 1 else ?d0) = t div kseconds_per_day"
    using utc_split [of t] assms(1,2) by simp_all
  show "tm_year u + 1900 = ymd_year x" "tm_mon u + 1 = ymd_month x" "tm_mday u = ymd_day x"
    "tm_sec u = t mod kseconds_per_day mod 60" "tm_min u = t mod kseconds_per_day div 60 mod 60"
    "tm_hour u = t mod kseconds_per_day div 60 div 60"
    unfolding u x TimeZone_ToUtcTime_def Let_def sp by (simp_all add: FillHMS_def Let_def Date_YearMonthDay_def)
  have "- 213635404800 div kseconds_per_day \<le> t div kseconds_per_day"
    using assms(1) by (intro zdiv_mono1) (simp_all add: kseconds_per_day_def)
  then have j: "- 32044 \<le> t div kseconds_per_day + kjulian_day_of_19700101"
    by (simp add: kseconds_per_day_def julian_1970)
  then show "valid_ymd x" "julian x = t div kseconds_per_day + kjulian_day_of_19700101"
    using julian_GetYearMonthDay [OF j] by (simp_all add: x)
qed

lemma FromUtcTime_ToUtcTime:
  assumes "- 213635404800 \<le> t" "t \<le> 2 ^ 45"
  shows "TimeZone_FromUtcTime (TimeZone_ToUtcTime t yday) = t"
proof -
  note F = ToUtcTime_fields [OF assms refl [of "TimeZone_ToUtcTime t yday"] refl]
  have s: "0 \<le> t mod kseconds_per_day" "t mod kseconds_per_day < 86400" by (simp_all add: kseconds_per_day_def)
  have "t div kseconds_per_day * kseconds_per_day + t mod kseconds_per_day = t" by simp
  then show ?thesis using hms_back(1) [OF s] F(8)
    unfolding TimeZone_FromUtcTime_def F(1-6) TimeZone_FromUtcTime_fields_def Let_def
    by (simp add: Date_ymd_def julian_def)
qed

lemma timegm_cong:
  "timegm (u\<lparr>tm_isdst := a, tm_gmtoff := b, tm_zone := c\<rparr>) = timegm u"
  by (simp add: timegm_def TimeZone_FromUtcTime_def)

lemma fixed_zone_roundtrip:
  assumes "- 213635404800 \<le> t + off" "t + off \<le> 2 ^ 45"
  shows "bindr (TimeZone_ToLocalTime t (TimeZone_fixed off name)) (\<lambda>l. TimeZone_FromLocalTime l (TimeZone_fixed off name)) = Inr t"
  using FromUtcTime_ToUtcTime [OF assms]
  by (simp add: TimeZone_ToLocalTime_def TimeZone_FromLocalTime_def TimeZone_fixed_def empty_data_def FindLocaltime_def local_at_def
      timegm_cong Let_def) (simp add: timegm_def gmtime_r_def)



section \<open>Searching the transitions\<close>

definition at_gmt :: "int \<Rightarrow> transition" where
  "at_gmt t = \<lparr>tr_gmttime = t, tr_localtime = 0, tr_localtime_index = 0\<rparr>"

definition tz_sorted :: "tz_data \<Rightarrow> bool" where
  "tz_sorted d \<longleftrightarrow> sorted_wrt (\<lambda>a b. tr_gmttime a < tr_gmttime b) (tz_transitions d)"

lemma lower_idx_between:
  assumes "tz_sorted d" and i: "i < length (tz_transitions d)"
    and lo: "\<And>j. j < i \<Longrightarrow> tr_gmttime (tz_transitions d ! j) < t" and hi: "t \<le> tr_gmttime (tz_transitions d ! i)"
  shows "lower_idx True (tz_transitions d) (at_gmt t) = i"
proof -
  let ?ts = "tz_transitions d" and ?P = "\<lambda>x. Comp True x (at_gmt t)"
  have "takeWhile ?P ?ts = take i ?ts"
    by (rule takeWhile_eq_take_P_nth) (use lo hi i in \<open>auto simp: Comp_def at_gmt_def not_less\<close>)
  then show ?thesis using i by (simp add: lower_idx_def)
qed

lemma sorted_nth:
  "tz_sorted d \<Longrightarrow> i < j \<Longrightarrow> j < length (tz_transitions d) \<Longrightarrow>
   tr_gmttime (tz_transitions d ! i) < tr_gmttime (tz_transitions d ! j)"
  unfolding tz_sorted_def by (rule sorted_wrt_nth_less)

text \<open>C28. The search for the offset in force is off by one, because \<open>Comp::Equal\<close> compares with \<open><\<close>: strictly between
  two transitions it gives the local time of the later one, at a transition other than the first that of
  the one before it, and at the first transition it fails its assert. (The offset in force at \<open>t\<close> is that of
  the last transition not after \<open>t\<close>.) Only before the first and after the last transition is it right.\<close>

theorem FindLocaltime_off_by_one:
  assumes s: "tz_sorted d" and i: "Suc i < length (tz_transitions d)"
    and t: "tr_gmttime (tz_transitions d ! i) < t" "t < tr_gmttime (tz_transitions d ! Suc i)"
    and u: "tr_gmttime (last (tz_transitions d)) < u"
  shows "FindLocaltime d (at_gmt t) True = local_at d (tr_localtime_index (tz_transitions d ! Suc i)) \<and>
    FindLocaltime d (at_gmt (tr_gmttime (tz_transitions d ! Suc i))) True = local_at d (tr_localtime_index (tz_transitions d ! i)) \<and>
    FindLocaltime d (at_gmt (tr_gmttime (tz_transitions d ! 0))) True = Inl Assert_failed \<and>
    FindLocaltime d (at_gmt u) True = local_at d (tr_localtime_index (last (tz_transitions d)))"
proof -
  let ?ts = "tz_transitions d"
  have ne: "?ts \<noteq> []" using i by auto
  have le: "tr_gmttime (?ts ! j) \<le> tr_gmttime (?ts ! i)" if "j \<le> i" for j
    using sorted_nth [OF s, of j i] that i by (cases "j = i") auto
  have first: "\<not> Comp True (at_gmt x) (hd ?ts)" if "tr_gmttime (?ts ! 0) \<le> x" for x
    using that ne by (simp add: Comp_def at_gmt_def hd_conv_nth)
  have l1: "lower_idx True ?ts (at_gmt t) = Suc i"
    by (rule lower_idx_between [OF s i]) (use le t in \<open>force simp: less_Suc_eq_le\<close>)+
  have l2: "lower_idx True ?ts (at_gmt (tr_gmttime (?ts ! Suc i))) = Suc i"
    by (rule lower_idx_between [OF s i]) (use sorted_nth [OF s _ i] in auto)
  have l3: "lower_idx True ?ts (at_gmt (tr_gmttime (?ts ! 0))) = 0"
    by (rule lower_idx_between [OF s]) (use i in auto)
  have "tr_gmttime x < u" if x: "x \<in> set ?ts" for x
  proof -
    obtain j where j: "j < length ?ts" "x = ?ts ! j" using x by (auto simp: in_set_conv_nth)
    show ?thesis
    proof (cases "j = length ?ts - 1")
      case True
      then show ?thesis using j u ne by (simp add: last_conv_nth)
    next
      case False
      then show ?thesis using sorted_nth [OF s, of j "length ?ts - 1"] j u ne by (force simp: last_conv_nth)
    qed
  qed
  then have u0: "tr_gmttime (?ts ! 0) \<le> u" and tw: "takeWhile (\<lambda>x. Comp True x (at_gmt u)) ?ts = ?ts"
    using ne by (simp_all add: Comp_def at_gmt_def takeWhile_eq_all_conv less_imp_le)
  from tw have l4: "lower_idx True ?ts (at_gmt u) = length ?ts" unfolding lower_idx_def by (rule arg_cong)
  have "tr_gmttime (?ts ! 0) \<le> t" "tr_gmttime (?ts ! 0) \<le> tr_gmttime (?ts ! Suc i)" using le [of 0] t by simp_all
  then show ?thesis
    using ne i t l1 l2 l3 l4 first [of t] first [of "tr_gmttime (?ts ! Suc i)"] first [of "tr_gmttime (?ts ! 0)"] first [OF u0]
    by (simp add: FindLocaltime_def Let_def Comp_Equal_def at_gmt_def)
qed

definition sample_zone :: tz_data where
  "sample_zone = \<lparr>tz_transitions = [\<lparr>tr_gmttime = 100, tr_localtime = 3700, tr_localtime_index = 1\<rparr>,
       \<lparr>tr_gmttime = 200, tr_localtime = 200, tr_localtime_index = 0\<rparr>],
     tz_localtimes = [\<lparr>lt_gmt_offset = 0, lt_is_dst = False, lt_arrb_index = 0\<rparr>, \<lparr>lt_gmt_offset = 3600, lt_is_dst = True, lt_arrb_index = 4\<rparr>],
     tz_names = [], tz_abbreviation = ''GMT'' @ [CHR 0x00] @ ''BST'' @ [CHR 0x00]\<rparr>"

theorem FindLocaltime_off_by_one_witness:
  "map_sum id lt_gmt_offset (FindLocaltime sample_zone (at_gmt 150) True) = Inr 0 \<and>
   FindLocaltime sample_zone (at_gmt 100) True = Inl Assert_failed"
  using FindLocaltime_off_by_one [of sample_zone 0 150 201]
  by (simp add: tz_sorted_def sample_zone_def local_at_def)

section \<open>Reading back a file\<close>

text \<open>The first block of a compiled time zone file.\<close>

definition be32_bytes :: "int \<Rightarrow> char list" where
  "be32_bytes x = rev (le_bytes 4 (nat (x mod 2 ^ 32)))"

definition int32 :: "int \<Rightarrow> bool" where
  "int32 x \<longleftrightarrow> - (2 ^ 31) \<le> x \<and> x < 2 ^ 31"

definition byte_of :: "int \<Rightarrow> char" where
  "byte_of i = char_of (nat i)"

definition type_bytes :: "local_time \<Rightarrow> char list" where
  "type_bytes l = be32_bytes (lt_gmt_offset l) @ [byte_of (if lt_is_dst l then 1 else 0), byte_of (lt_arrb_index l)]"

definition tzif :: "(int \<times> int) list \<Rightarrow> local_time list \<Rightarrow> string \<Rightarrow> char list \<Rightarrow> char list" where
  "tzif ts types abbr trailer =
     ''TZif'' @ [CHR ''2''] @ replicate 15 (CHR 0x00)
     @ be32_bytes 0 @ be32_bytes 0 @ be32_bytes 0
     @ be32_bytes (int (length ts)) @ be32_bytes (int (length types)) @ be32_bytes (int (length abbr))
     @ concat (map (be32_bytes \<circ> fst) ts) @ map (byte_of \<circ> snd) ts @ concat (map type_bytes types) @ abbr @ trailer"

lemma length_be32 [simp]: "length (be32_bytes x) = 4"
  by (simp add: be32_bytes_def)

lemma be32_back: "int32 x \<Longrightarrow> be32 (be32_bytes x) = x"
proof -
  assume x: "int32 x"
  have "le_val (le_bytes 4 (nat (x mod 2 ^ 32))) = nat (x mod 2 ^ 32)"
    by (simp add: le_val_le_bytes nat_less_iff)
  then have "be32 (be32_bytes x) = to_int32 (x mod 2 ^ 32)" by (simp add: be32_def be32_bytes_def)
  also have "\<dots> = to_int32 x" by (simp add: to_int32_def mod_add_left_eq)
  also have "\<dots> = x" using x by (intro to_int32_in_range) (auto simp: int32_def)
  finally show ?thesis .
qed

lemma ReadInt32_bytes: "int32 x \<Longrightarrow> File_ReadInt32 (be32_bytes x @ f) = Some (x, f)"
  by (simp add: File_ReadInt32_def be32_back)

lemma ReadUInt8_byte: "0 \<le> i \<Longrightarrow> i < 256 \<Longrightarrow> File_ReadUInt8 (byte_of i # f) = Some (i, f)"
  by (simp add: File_ReadUInt8_def byte_of_def)

lemma read_many_ints:
  "list_all (int32 \<circ> fst) ts \<Longrightarrow>
   read_many File_ReadInt32 (length ts) (concat (map (be32_bytes \<circ> fst) ts) @ f) = Some (map fst ts, f)"
  by (induction ts) (simp_all add: ReadInt32_bytes)

lemma read_many_bytes:
  "list_all (\<lambda>t. 0 \<le> snd t \<and> snd t < 256) ts \<Longrightarrow>
   read_many File_ReadUInt8 (length ts) (map (byte_of \<circ> snd) ts @ f) = Some (map snd ts, f)"
  by (induction ts) (simp_all add: ReadUInt8_byte)

definition type_ok :: "local_time \<Rightarrow> bool" where
  "type_ok l \<longleftrightarrow> int32 (lt_gmt_offset l) \<and> 0 \<le> lt_arrb_index l \<and> lt_arrb_index l < 256"

lemma read_types_bytes:
  "list_all type_ok types \<Longrightarrow>
   read_types (length types) (concat (map type_bytes types) @ f) data
     = (data\<lparr>tz_localtimes := tz_localtimes data @ types\<rparr>, Some f)"
proof (induction types arbitrary: data)
  case (Cons l types)
  then show ?case by (simp add: type_bytes_def type_ok_def ReadInt32_bytes ReadUInt8_byte)
qed simp

lemma push_transitions_ok:
  assumes "list_all (\<lambda>t. 0 \<le> snd t \<and> snd t < int (length (tz_localtimes data))) ts"
  shows "push_transitions ts data = Inr (data\<lparr>tz_transitions := tz_transitions data @
    map (\<lambda>(g, i). \<lparr>tr_gmttime = g, tr_localtime = g + lt_gmt_offset (tz_localtimes data ! nat i), tr_localtime_index = i\<rparr>) ts\<rparr>)"
  using assms
proof (induction ts arbitrary: data)
  case (Cons t ts)
  then show ?case by (cases t) (simp add: Let_def)
qed simp

lemma read_header_bytes:
  assumes "int32 a" "int32 b" "int32 c" "int32 timecnt" "int32 typecnt" "int32 charcnt"
  shows "read_header (''TZif'' @ [v] @ replicate 15 z @ be32_bytes a @ be32_bytes b @ be32_bytes c @ be32_bytes timecnt
    @ be32_bytes typecnt @ be32_bytes charcnt @ f) = Some ((timecnt, typecnt, charcnt), f)"
  using assms
  by (simp add: read_header_def File_ReadBytes_def ReadInt32_bytes numeral_eq_Suc)

text \<open>C29. Compiled time zone files are read back: for the file with the given transitions, local time types and
  abbreviations (whatever follows them), the reader gives exactly these, with the local time of a
  transition computed from the offset of its type. A file that cannot be opened gives a zone that claims
  to be valid and reads out of bounds when it is used.\<close>

theorem zone_file_roundtrip:
  assumes "list_all (\<lambda>(g, i). int32 g \<and> 0 \<le> i \<and> i < int (length types)) ts" and "list_all type_ok types"
    and "length types \<le> 256" and "length ts < 2 ^ 31" and "length abbr < 2 ^ 31"
  shows "TimeZone_file (Some (tzif ts types abbr trailer)) = Inr (Some
      \<lparr>tz_transitions = map (\<lambda>(g, i). \<lparr>tr_gmttime = g, tr_localtime = g + lt_gmt_offset (types ! nat i), tr_localtime_index = i\<rparr>) ts,
       tz_localtimes = types, tz_names = [], tz_abbreviation = abbr\<rparr>) \<and>
    TimeZone_file None = Inr (Some empty_data) \<and> TimeZone_ToLocalTime t (Some empty_data) = Inl Bad_access"
proof -
  have ts: "list_all (int32 \<circ> fst) ts" "list_all (\<lambda>t. 0 \<le> snd t \<and> snd t < 256) ts"
    "list_all (\<lambda>t. 0 \<le> snd t \<and> snd t < int (length types)) ts"
    using assms(1,3) by (auto simp: list_all_iff)
  have cnt: "int32 0" "int32 (int (length ts))" "int32 (int (length types))" "int32 (int (length abbr))"
    using assms(3-5) by (auto simp: int32_def)
  have hdr: "read_header (tzif ts types abbr trailer) = Some ((int (length ts), int (length types), int (length abbr)),
      concat (map (be32_bytes \<circ> fst) ts) @ map (byte_of \<circ> snd) ts @ concat (map type_bytes types) @ abbr @ trailer)"
    unfolding tzif_def by (rule read_header_bytes) (rule cnt)+
  have "zip (map fst ts) (map snd ts) = ts" by (simp add: zip_map_fst_snd)
  then have "ReadTimeZoneFile (Some (tzif ts types abbr trailer)) empty_data = Inr (True,
      \<lparr>tz_transitions = map (\<lambda>(g, i). \<lparr>tr_gmttime = g, tr_localtime = g + lt_gmt_offset (types ! nat i), tr_localtime_index = i\<rparr>) ts,
       tz_localtimes = types, tz_names = [], tz_abbreviation = abbr\<rparr>)"
    using ts assms(2) hdr
    by (simp add: ReadTimeZoneFile_def try_read_def read_many_ints read_many_bytes read_types_bytes push_transitions_ok empty_data_def File_ReadBytes_def)
  then show ?thesis
    by (simp add: TimeZone_file_def ReadTimeZoneFile_def [of None] TimeZone_ToLocalTime_def FindLocaltime_def local_at_def empty_data_def)
qed

theorem zone_file_roundtrip_witness:
  "TimeZone_file (Some (tzif [(- 1633280400, 1), (1000000000, 0)]
      [\<lparr>lt_gmt_offset = - 18000, lt_is_dst = False, lt_arrb_index = 0\<rparr>, \<lparr>lt_gmt_offset = - 14400, lt_is_dst = True, lt_arrb_index = 4\<rparr>]
      ''EST'' [])) = Inr (Some
    \<lparr>tz_transitions = [\<lparr>tr_gmttime = - 1633280400, tr_localtime = - 1633294800, tr_localtime_index = 1\<rparr>,
       \<lparr>tr_gmttime = 1000000000, tr_localtime = 999982000, tr_localtime_index = 0\<rparr>],
     tz_localtimes = [\<lparr>lt_gmt_offset = - 18000, lt_is_dst = False, lt_arrb_index = 0\<rparr>, \<lparr>lt_gmt_offset = - 14400, lt_is_dst = True, lt_arrb_index = 4\<rparr>],
     tz_names = [], tz_abbreviation = ''EST''\<rparr>)"
  using zone_file_roundtrip [of "[\<lparr>lt_gmt_offset = - 18000, lt_is_dst = False, lt_arrb_index = 0\<rparr>, \<lparr>lt_gmt_offset = - 14400, lt_is_dst = True, lt_arrb_index = 4\<rparr>]"
      "[(- 1633280400, 1), (1000000000, 0)]" "''EST''" "[]" 0]
  by (simp add: int32_def type_ok_def)

end
