(* ===== verification/LogFile.thy ===== *)
theory LogFile
  imports LogStream TimeZone
begin

text \<open>
  The files log lines end up in: \<open>AppendFile\<close> (\<open>dwater/base/file_util.h\<close>, \<open>file_util.cc\<close>), \<open>LogFile\<close> (\<open>log_file.h\<close>,
  \<open>log_file.cc\<close>) with its rolling, and \<open>AsyncLogging\<close> (\<open>async_logging.h\<close>, \<open>async_logging.cc\<close>) with its buffers and its
  background thread. What \<open>fwrite_unlocked\<close> takes, the clock, the host name and the process id are arguments; the mutex
  makes \<open>Append\<close> and the swap of the background thread atomic.
\<close>

section \<open>AppendFile\<close>

record append_file =
  af_name :: string
  af_content :: "char list"
  af_written_bytes :: nat

text \<open>\<open>opened\<close>: whether \<open>::fopen\<close> succeeded.\<close>

definition AppendFile_new :: "bool \<Rightarrow> string \<Rightarrow> append_file result" where
  "AppendFile_new opened filename = c_assert opened (Inr \<lparr>af_name = filename, af_content = [], af_written_bytes = 0\<rparr>)"

text \<open>\<open>Write\<close>: the outcome \<open>x\<close> of the call, at most what was asked for.\<close>

definition AppendFile_Write :: "nat \<Rightarrow> char list \<Rightarrow> append_file \<Rightarrow> nat \<times> append_file" where
  "AppendFile_Write x data f = (min x (length data), f\<lparr>af_content := af_content f @ take x data\<rparr>)"

text \<open>The loop of \<open>Append\<close>; when the outcomes given run out the rest is written at once.\<close>

fun append_loop :: "nat list \<Rightarrow> char list \<Rightarrow> append_file \<Rightarrow> append_file" where
  "append_loop [] data f = snd (AppendFile_Write (length data) data f)"
| "append_loop (x # xs) data f =
     (if data = [] then f
      else case AppendFile_Write x data f of (n, f) \<Rightarrow>
        if n = 0 then f else append_loop xs (drop n data) f)"

definition AppendFile_Append :: "nat list \<Rightarrow> char list \<Rightarrow> append_file \<Rightarrow> append_file" where
  "AppendFile_Append outs logline f =
     (let f' = (case outs of [] \<Rightarrow> append_loop [] logline f
                | x # xs \<Rightarrow> (case AppendFile_Write x logline f of (n, f) \<Rightarrow> append_loop xs (drop n logline) f))
      in f'\<lparr>af_written_bytes := af_written_bytes f' + length logline\<rparr>)"

section \<open>LogFile\<close>

record log_file =
  lf_basename :: string
  lf_roll_size :: nat
  lf_flush_interval :: int
  lf_check_every_n :: int
  lf_count :: int
  lf_start_of_period :: int
  lf_last_roll :: int
  lf_last_flush :: int
  lf_file :: "append_file option"
  lf_closed :: "append_file list"
  lf_flushes :: nat

definition kroll_per_seconds :: int where "kroll_per_seconds = 60 * 60 * 24"

text \<open>The environment of a call: the clock, the host name, the process id and whether a file can be opened.\<close>

record log_env =
  le_now :: int
  le_hostname :: string
  le_pid :: int
  le_opened :: bool

definition GetLogFileName :: "log_env \<Rightarrow> string \<Rightarrow> string" where
  "GetLogFileName env basename =
     (let tm = gmtime_r (le_now env)
      in basename @ ''.'' @ int_dec (tm_year tm + 1900) @ int_dec0 2 (tm_mon tm + 1) @ int_dec0 2 (tm_mday tm) @ ''-''
         @ int_dec0 2 (tm_hour tm) @ int_dec0 2 (tm_min tm) @ int_dec0 2 (tm_sec tm) @ ''.''
         @ le_hostname env @ snprintf_buf 32 (''.'' @ int_dec (le_pid env)) @ ''.log'')"

text \<open>\<open>RollFile\<close>; \<open>file_.reset\<close> closes the file before.\<close>

definition LogFile_RollFile :: "log_env \<Rightarrow> log_file \<Rightarrow> (bool \<times> log_file) result" where
  "LogFile_RollFile env l =
     (let filename = GetLogFileName env (lf_basename l); now = le_now env;
          start = cdiv now kroll_per_seconds * kroll_per_seconds
      in if now > lf_last_roll l
         then bindr (AppendFile_new (le_opened env) filename) (\<lambda>f.
                Inr (True, l\<lparr>lf_last_roll := now, lf_last_flush := now, lf_start_of_period := start,
                  lf_closed := lf_closed l @ (case lf_file l of None \<Rightarrow> [] | Some old \<Rightarrow> [old]), lf_file := Some f\<rparr>))
         else Inr (False, l))"

definition LogFile_new :: "log_env \<Rightarrow> string \<Rightarrow> nat \<Rightarrow> int \<Rightarrow> int \<Rightarrow> log_file result" where
  "LogFile_new env basename roll_size flush_interval check_every_n =
     c_assert (CHR ''/'' \<notin> set basename)
       (bindr (LogFile_RollFile env
          \<lparr>lf_basename = basename, lf_roll_size = roll_size, lf_flush_interval = flush_interval,
           lf_check_every_n = check_every_n, lf_count = 0, lf_start_of_period = 0, lf_last_roll = 0, lf_last_flush = 0,
           lf_file = None, lf_closed = [], lf_flushes = 0\<rparr>) (\<lambda>(_, l). Inr l))"

definition LogFile_Flush :: "log_file \<Rightarrow> log_file result" where
  "LogFile_Flush l = (case lf_file l of None \<Rightarrow> Inl Bad_access | Some f \<Rightarrow> Inr (l\<lparr>lf_flushes := lf_flushes l + 1\<rparr>))"

text \<open>\<open>AppendUnlocked\<close>; \<open>now\<close> is the clock of the periodic check, \<open>env\<close> that of \<open>RollFile\<close>.\<close>

definition LogFile_AppendUnlocked :: "nat list \<Rightarrow> int \<Rightarrow> log_env \<Rightarrow> char list \<Rightarrow> log_file \<Rightarrow> log_file result" where
  "LogFile_AppendUnlocked outs now env logline l =
     (case lf_file l of None \<Rightarrow> Inl Bad_access
      | Some f \<Rightarrow>
         (let f = AppendFile_Append outs logline f; l = l\<lparr>lf_file := Some f\<rparr>
          in if lf_roll_size l < af_written_bytes f
             then bindr (LogFile_RollFile env l) (\<lambda>(_, l). Inr l)
             else (let l = l\<lparr>lf_count := lf_count l + 1\<rparr>
                   in if lf_check_every_n l \<le> lf_count l
                      then (let l = l\<lparr>lf_count := 0\<rparr>; this_period = cdiv now kroll_per_seconds * kroll_per_seconds
                            in if this_period \<noteq> lf_start_of_period l
                               then bindr (LogFile_RollFile env l) (\<lambda>(_, l). Inr l)
                               else if now - lf_last_flush l > lf_flush_interval l
                               then LogFile_Flush (l\<lparr>lf_last_flush := now\<rparr>)
                               else Inr l)
                      else Inr l)))"

definition LogFile_Append :: "nat list \<Rightarrow> int \<Rightarrow> log_env \<Rightarrow> char list \<Rightarrow> log_file \<Rightarrow> log_file result" where
  "LogFile_Append outs now env logline l = LogFile_AppendUnlocked outs now env logline l"

section \<open>Nothing is lost in rolling\<close>

text \<open>A call of \<open>Append\<close>: the outcomes of \<open>fwrite_unlocked\<close>, the clock of the check, the environment and the line.\<close>

type_synonym log_call = "nat list \<times> int \<times> log_env \<times> char list"

fun log_lines :: "log_call list \<Rightarrow> log_file \<Rightarrow> log_file result" where
  "log_lines [] l = Inr l"
| "log_lines ((outs, now, env, line) # calls) l = bindr (LogFile_Append outs now env line l) (log_lines calls)"

text \<open>Files can be opened, and every write makes progress.\<close>

definition call_ok :: "log_call \<Rightarrow> bool" where
  "call_ok call \<longleftrightarrow> (case call of (outs, now, env, line) \<Rightarrow> le_opened env \<and> list_all (\<lambda>x. 0 < x) outs)"

definition logged :: "log_file \<Rightarrow> char list" where
  "logged l = concat (map af_content (lf_closed l)) @ (case lf_file l of None \<Rightarrow> [] | Some f \<Rightarrow> af_content f)"

text \<open>Every file knows its size, and is only left behind when a later second has come.\<close>

definition log_file_ok :: "log_file \<Rightarrow> bool" where
  "log_file_ok l \<longleftrightarrow> lf_file l \<noteq> None \<and>
     list_all (\<lambda>f. af_written_bytes f = length (af_content f)) (lf_closed l @ (case lf_file l of None \<Rightarrow> [] | Some f \<Rightarrow> [f]))"

lemma append_loop_all: "list_all (\<lambda>x. 0 < x) outs \<Longrightarrow> append_loop outs data f = f\<lparr>af_content := af_content f @ data\<rparr>"
proof (induction outs data f rule: append_loop.induct)
  case (2 x xs data f)
  then show ?case
    by (cases "x < length data") (auto simp: AppendFile_Write_def min_def not_less append.assoc [symmetric] simp del: append.assoc)
qed (simp add: AppendFile_Write_def)

lemma AppendFile_Append_all:
  assumes "list_all (\<lambda>x. 0 < x) outs"
  shows "AppendFile_Append outs line f =
    f\<lparr>af_content := af_content f @ line, af_written_bytes := af_written_bytes f + length line\<rparr>"
proof (cases outs)
  case (Cons x xs)
  have "append_loop xs (drop (min x (length line)) line) (f\<lparr>af_content := af_content f @ take x line\<rparr>) =
      f\<lparr>af_content := (af_content f @ take x line) @ drop (min x (length line)) line\<rparr>"
    using append_loop_all [of xs] assms Cons by simp
  also have "(af_content f @ take x line) @ drop (min x (length line)) line = af_content f @ line"
    by (cases "x < length line") (auto simp: min_def)
  finally show ?thesis using Cons by (simp add: AppendFile_Append_def AppendFile_Write_def Let_def)
qed (simp add: AppendFile_Append_def AppendFile_Write_def Let_def)

lemma RollFile_keeps:
  assumes "log_file_ok l" and "le_opened env"
  shows "\<exists>b l'. LogFile_RollFile env l = Inr (b, l') \<and> log_file_ok l' \<and> logged l' = logged l"
  using assms
  by (auto simp: LogFile_RollFile_def Let_def AppendFile_new_def log_file_ok_def logged_def split: option.splits)

lemma LogFile_Append_keeps:
  assumes "log_file_ok l" and "call_ok (outs, now, env, line)"
  shows "\<exists>l'. LogFile_Append outs now env line l = Inr l' \<and> log_file_ok l' \<and> logged l' = logged l @ line"
proof -
  obtain f where f: "lf_file l = Some f" using assms(1) by (auto simp: log_file_ok_def)
  have env: "le_opened env" "list_all (\<lambda>x. 0 < x) outs" using assms(2) by (auto simp: call_ok_def)
  define f1 where "f1 = f\<lparr>af_content := af_content f @ line, af_written_bytes := af_written_bytes f + length line\<rparr>"
  have ok: "log_file_ok (l\<lparr>lf_file := Some f1, lf_count := n\<rparr>)" "logged (l\<lparr>lf_file := Some f1, lf_count := n\<rparr>) = logged l @ line" for n
    using assms(1) f by (auto simp: log_file_ok_def logged_def f1_def)
  have ok0: "log_file_ok (l\<lparr>lf_file := Some f1\<rparr>)" "logged (l\<lparr>lf_file := Some f1\<rparr>) = logged l @ line"
    using assms(1) f by (auto simp: log_file_ok_def logged_def f1_def)
  obtain b l1 where l1: "LogFile_RollFile env (l\<lparr>lf_file := Some f1\<rparr>) = Inr (b, l1)" "log_file_ok l1" "logged l1 = logged l @ line"
    using RollFile_keeps [OF ok0(1) env(1)] ok0(2) by auto
  obtain b l2 where l2: "LogFile_RollFile env (l\<lparr>lf_file := Some f1, lf_count := 0\<rparr>) = Inr (b, l2)" "log_file_ok l2" "logged l2 = logged l @ line"
    using RollFile_keeps [OF ok(1) [of 0] env(1)] ok(2) [of 0] by auto
  have "LogFile_Append outs now env line l =
     (if lf_roll_size l < af_written_bytes f1 then Inr l1
      else if lf_check_every_n l \<le> lf_count l + 1
      then (if cdiv now kroll_per_seconds * kroll_per_seconds \<noteq> lf_start_of_period l then Inr l2
            else if now - lf_last_flush l > lf_flush_interval l
            then Inr (l\<lparr>lf_file := Some f1, lf_count := 0, lf_last_flush := now, lf_flushes := lf_flushes l + 1\<rparr>)
            else Inr (l\<lparr>lf_file := Some f1, lf_count := 0\<rparr>))
      else Inr (l\<lparr>lf_file := Some f1, lf_count := lf_count l + 1\<rparr>))"
    using l1(1) l2(1)
    by (simp add: LogFile_Append_def LogFile_AppendUnlocked_def f AppendFile_Append_all [OF env(2)] f1_def [symmetric] Let_def
        LogFile_Flush_def)
  moreover have "log_file_ok (l\<lparr>lf_file := Some f1, lf_count := 0, lf_last_flush := now, lf_flushes := n\<rparr>)"
    "logged (l\<lparr>lf_file := Some f1, lf_count := 0, lf_last_flush := now, lf_flushes := n\<rparr>) = logged l @ line" for n
    using ok [of 0] by (simp_all add: log_file_ok_def logged_def)
  ultimately show ?thesis using l1 l2 ok by auto
qed

lemma LogFile_new_ok:
  assumes "LogFile_new env basename roll_size flush_interval check_every_n = Inr l" and "0 < le_now env"
  shows "log_file_ok l" "logged l = []"
  using assms by (auto simp: LogFile_new_def LogFile_RollFile_def AppendFile_new_def log_file_ok_def logged_def res_simps Let_def)

lemma log_lines_keep:
  assumes "log_file_ok l" and "list_all call_ok calls"
  shows "\<exists>l'. log_lines calls l = Inr l' \<and> logged l' = logged l @ concat (map (\<lambda>(outs, now, env, line). line) calls) \<and> log_file_ok l'"
  using assms
proof (induction calls arbitrary: l)
  case (Cons call calls)
  obtain outs now env line where call: "call = (outs, now, env, line)" by (metis prod_cases4)
  obtain l1 where l1: "LogFile_Append outs now env line l = Inr l1" "log_file_ok l1" "logged l1 = logged l @ line"
    using LogFile_Append_keeps [OF Cons.prems(1), of outs now env line] Cons.prems(2) call by auto
  from Cons.IH [OF l1(2)] Cons.prems(2) l1 show ?case by (auto simp: call)
qed simp

text \<open>Rolling loses nothing: from the construction of a log file on, when files can be opened and writes make progress,
  every \<open>Append\<close> succeeds, and the contents of the files in the order they were opened are the lines in the order they
  were appended, whether a file was left for its size, for a new day or not at all; each file's count of bytes is its
  size.\<close>

theorem log_file_keeps_lines:
  assumes "LogFile_new env basename roll_size flush_interval check_every_n = Inr l0" and "0 < le_now env"
    and "list_all call_ok calls"
  shows "\<exists>l. log_lines calls l0 = Inr l \<and> logged l = concat (map (\<lambda>(outs, now, env, line). line) calls) \<and> log_file_ok l"
  using log_lines_keep [OF LogFile_new_ok(1) [OF assms(1,2)] assms(3)] LogFile_new_ok(2) [OF assms(1,2)] by simp

theorem log_file_keeps_lines_witness:
  "\<exists>l0 l. LogFile_new \<lparr>le_now = 100, le_hostname = ''h'', le_pid = 1, le_opened = True\<rparr> ''app'' 4 3 1024 = Inr l0 \<and>
     log_lines [([2, 1], 100, \<lparr>le_now = 101, le_hostname = ''h'', le_pid = 1, le_opened = True\<rparr>, ''hello''),
                ([], 101, \<lparr>le_now = 101, le_hostname = ''h'', le_pid = 1, le_opened = True\<rparr>, ''world'')] l0 = Inr l \<and>
     logged l = ''helloworld''"
proof -
  obtain l0 where l0: "LogFile_new \<lparr>le_now = 100, le_hostname = ''h'', le_pid = 1, le_opened = True\<rparr> ''app'' 4 3 1024 = Inr l0"
    by (simp add: LogFile_new_def LogFile_RollFile_def AppendFile_new_def Let_def)
  from log_file_keeps_lines [OF l0, of
      "[([2, 1], 100, \<lparr>le_now = 101, le_hostname = ''h'', le_pid = 1, le_opened = True\<rparr>, ''hello''),
        ([], 101, \<lparr>le_now = 101, le_hostname = ''h'', le_pid = 1, le_opened = True\<rparr>, ''world'')]"] l0
  show ?thesis by (auto simp: call_ok_def)
qed

section \<open>AsyncLogging\<close>

text \<open>
  \<open>al_curr\<close> and \<open>al_next\<close> are the buffers of the front end, \<open>al_buffers\<close> those that are full; \<open>al_new1\<close> and \<open>al_new2\<close> belong to
  the background thread. \<open>None\<close> is the null pointer, which \<open>std::move\<close> leaves behind.
\<close>

record async_logging =
  al_flush_interval :: int
  al_running :: bool
  al_basename :: string
  al_roll_size :: nat
  al_curr :: "fixed_buffer option"
  al_next :: "fixed_buffer option"
  al_buffers :: "fixed_buffer list"
  al_new1 :: "fixed_buffer option"
  al_new2 :: "fixed_buffer option"
  al_output :: "log_file option"

definition large_buffer :: fixed_buffer where
  "large_buffer = FixedBuffer_Bzero (FixedBuffer_new (replicate k_large_buffer (CHR 0x00)))"

definition AsyncLogging_new :: "string \<Rightarrow> nat \<Rightarrow> int \<Rightarrow> async_logging" where
  "AsyncLogging_new basename roll_size flush_interval =
     \<lparr>al_flush_interval = flush_interval, al_running = False, al_basename = basename, al_roll_size = roll_size,
      al_curr = Some large_buffer, al_next = Some large_buffer, al_buffers = [], al_new1 = None, al_new2 = None,
      al_output = None\<rparr>"

text \<open>
  \<open>Append\<close>, inside \<open>mutex_\<close>. The memory of a fresh buffer that nothing has cleared is taken to be zero; only bytes that
  were written to it are ever read.
\<close>

definition AsyncLogging_Append :: "char list \<Rightarrow> async_logging \<Rightarrow> async_logging result" where
  "AsyncLogging_Append logline a =
     (case al_curr a of None \<Rightarrow> Inl Bad_access
      | Some cur \<Rightarrow>
          if FixedBuffer_Avail cur \<noteq> 0
          then bindr (FixedBuffer_Append logline cur) (\<lambda>cur. Inr (a\<lparr>al_curr := Some cur\<rparr>))
          else (let a = a\<lparr>al_buffers := al_buffers a @ [cur]\<rparr>;
                    (cur, nxt) = (case al_next a of Some b \<Rightarrow> (b, None) | None \<Rightarrow> (large_buffer, None))
                in bindr (FixedBuffer_Append logline cur) (\<lambda>cur.
                     Inr (a\<lparr>al_curr := Some cur, al_next := nxt\<rparr>))))"

definition AsyncLogging_Start :: "async_logging \<Rightarrow> async_logging" where
  "AsyncLogging_Start a = a\<lparr>al_running := True\<rparr>"

definition AsyncLogging_Stop :: "async_logging \<Rightarrow> async_logging" where
  "AsyncLogging_Stop a = a\<lparr>al_running := False\<rparr>"

definition AsyncLogging_destroy :: "async_logging \<Rightarrow> async_logging" where
  "AsyncLogging_destroy a = (if al_running a then AsyncLogging_Stop a else a)"

text \<open>\<open>ThreadFunc\<close> up to its loop; \<open>Start\<close> has set \<open>running_\<close>.\<close>

definition AsyncLogging_ThreadFunc_begin :: "log_env \<Rightarrow> async_logging \<Rightarrow> async_logging result" where
  "AsyncLogging_ThreadFunc_begin env a =
     c_assert (al_running a)
       (bindr (LogFile_new env (al_basename a) (al_roll_size a) 3 1024) (\<lambda>output.
          Inr (a\<lparr>al_output := Some output, al_new1 := Some large_buffer, al_new2 := Some large_buffer\<rparr>)))"

text \<open>
  A round of the loop as its surroundings see it: the lines the front end logs before the background thread takes the
  mutex, the time in the notice of dropped buffers, and for the \<open>i\<close>th call of \<open>output.Append\<close> the outcomes of the writes,
  the clock and the environment.
\<close>

record async_round =
  ar_lines :: "char list list"
  ar_when :: string
  ar_call :: "nat \<Rightarrow> nat list \<times> int \<times> log_env"

definition output_append :: "async_round \<Rightarrow> nat \<Rightarrow> char list \<Rightarrow> log_file \<Rightarrow> log_file result" where
  "output_append r i data out = (case ar_call r i of (outs, now, env) \<Rightarrow> LogFile_Append outs now env data out)"

text \<open>The critical section of a round: what there is goes to the background thread, and empty buffers come back.\<close>

definition swap_buffers :: "async_logging \<Rightarrow> fixed_buffer option list \<times> async_logging" where
  "swap_buffers a =
     (let to_write = map Some (al_buffers a) @ [al_curr a];
          a = a\<lparr>al_buffers := [], al_curr := al_new1 a, al_new1 := None\<rparr>
      in (to_write, if al_next a = None then a\<lparr>al_next := al_new2 a, al_new2 := None\<rparr> else a))"

definition dropped_notice :: "string \<Rightarrow> nat \<Rightarrow> string" where
  "dropped_notice time n =
     snprintf_buf 256 (''Dropped log messages at '' @ time @ '', '' @ nat_dec (n - 2) @ '' larger buffers'' @ [CHR 0x0A])"

fun write_buffers :: "async_round \<Rightarrow> nat \<Rightarrow> fixed_buffer option list \<Rightarrow> log_file \<Rightarrow> log_file result" where
  "write_buffers r i [] out = Inr out"
| "write_buffers r i (b # bs) out =
     (case b of None \<Rightarrow> Inl Bad_access
      | Some b \<Rightarrow> bindr (FixedBuffer_ToString b) (\<lambda>s. bindr (output_append r i s out) (write_buffers r (i + 1) bs)))"

text \<open>
  Getting a buffer back for the next round: \<open>new_buffer1.reset()\<close> resets the pointer, not the buffer.
\<close>

definition recycle :: "fixed_buffer option \<Rightarrow> fixed_buffer option list \<Rightarrow> (fixed_buffer option \<times> fixed_buffer option list) result" where
  "recycle new to_write =
     (if new = None
      then c_assert (to_write \<noteq> []) (let new = last to_write; to_write = butlast to_write; new = None in Inr (new, to_write))
      else Inr (new, to_write))"

definition spare_ok :: "fixed_buffer option \<Rightarrow> bool" where
  "spare_ok p = (case p of None \<Rightarrow> False | Some b \<Rightarrow> FixedBuffer_Length b = 0)"

text \<open>
  One round of the loop. \<open>buffers_to_write\<close> is empty at its head, because every round clears it, and not empty after the
  critical section.
\<close>

definition AsyncLogging_ThreadFunc_round :: "async_round \<Rightarrow> async_logging \<Rightarrow> async_logging result" where
  "AsyncLogging_ThreadFunc_round r a =
     c_assert (spare_ok (al_new1 a)) (c_assert (spare_ok (al_new2 a))
       (case al_output a of None \<Rightarrow> Inl Bad_access
        | Some out \<Rightarrow>
          (case swap_buffers a of (to_write, a) \<Rightarrow> c_assert (to_write \<noteq> [])
             (bindr (if 25 < length to_write then output_append r 0 (dropped_notice (ar_when r) (length to_write)) out
                     else Inr out) (\<lambda>out.
              let to_write = (if 25 < length to_write then take 2 to_write else to_write)
              in bindr (write_buffers r 1 to_write out) (\<lambda>out.
                 bindr (recycle (al_new1 a) (take 2 to_write)) (\<lambda>(new1, to_write).
                 bindr (recycle (al_new2 a) to_write) (\<lambda>(new2, to_write).
                 bindr (LogFile_Flush out) (\<lambda>out.
                   Inr (a\<lparr>al_new1 := new1, al_new2 := new2, al_output := Some out\<rparr>))))))))))"

fun async_lines :: "char list list \<Rightarrow> async_logging \<Rightarrow> async_logging result" where
  "async_lines [] a = Inr a"
| "async_lines (line # ls) a = bindr (AsyncLogging_Append line a) (async_lines ls)"

text \<open>\<open>ThreadFunc\<close>: as many rounds as \<open>running_\<close> is read as true, and the last flush.\<close>

fun ThreadFunc_loop :: "async_round list \<Rightarrow> async_logging \<Rightarrow> async_logging result" where
  "ThreadFunc_loop [] a =
     (case al_output a of None \<Rightarrow> Inl Bad_access
      | Some out \<Rightarrow> bindr (LogFile_Flush out) (\<lambda>out. Inr (a\<lparr>al_output := Some out\<rparr>)))"
| "ThreadFunc_loop (r # rs) a =
     bindr (async_lines (ar_lines r) a) (\<lambda>a. bindr (AsyncLogging_ThreadFunc_round r a) (ThreadFunc_loop rs))"

definition AsyncLogging_ThreadFunc :: "log_env \<Rightarrow> async_round list \<Rightarrow> async_logging \<Rightarrow> async_logging result" where
  "AsyncLogging_ThreadFunc env rounds a = bindr (AsyncLogging_ThreadFunc_begin env a) (ThreadFunc_loop rounds)"

subsection \<open>One round, and the next\<close>

lemma async_lines_new: "async_lines ls a = Inr a' \<Longrightarrow> al_new1 a' = al_new1 a"
  by (induction ls arbitrary: a) (fastforce simp: AsyncLogging_Append_def res_simps Let_def split: option.splits if_splits)+

lemma round_drops_new1: "AsyncLogging_ThreadFunc_round r a = Inr a' \<Longrightarrow> al_new1 a' = None"
  by (auto simp: AsyncLogging_ThreadFunc_round_def swap_buffers_def recycle_def res_simps Let_def split: option.splits if_splits prod.splits)

lemma record_same_curr: "al_curr a = Some b \<Longrightarrow> a\<lparr>al_curr := Some b\<rparr> = a"
  by (cases a) simp

lemma async_lines_fit:
  assumes "al_curr a = Some b" and "length (fb_data b) = k_large_buffer"
    and "fb_curr b + length (concat ls) \<le> k_large_buffer" and "list_all (\<lambda>l. length l < k_large_buffer) ls"
  shows "\<exists>b'. async_lines ls a = Inr (a\<lparr>al_curr := Some b'\<rparr>) \<and> held b' = held b @ concat ls \<and>
    fb_curr b' \<le> length (fb_data b')"
  using assms
proof (induction ls arbitrary: a b)
  case (Cons l ls)
  obtain b1 where b1: "FixedBuffer_Append l b = Inr b1" "held b1 = held b @ l" "fb_curr b1 = fb_curr b + length l"
    "length (fb_data b1) = length (fb_data b)"
    using Append_fits [of l b] Cons.prems by auto
  have "AsyncLogging_Append l a = Inr (a\<lparr>al_curr := Some b1\<rparr>)"
    using Cons.prems b1 by (simp add: AsyncLogging_Append_def FixedBuffer_Avail_def k_large_buffer_def)
  with Cons.IH [of "a\<lparr>al_curr := Some b1\<rparr>" b1] Cons.prems b1 show ?case by (auto simp: add.assoc)
next
  case Nil
  then show ?case by (auto intro!: exI [of _ b] simp: record_same_curr)
qed

lemma large_buffer_simps [simp]: "fb_curr large_buffer = 0" "length (fb_data large_buffer) = k_large_buffer" "held large_buffer = ''''"
  "spare_ok (Some large_buffer)"
  by (simp_all add: large_buffer_def FixedBuffer_Bzero_def FixedBuffer_new_def held_def spare_ok_def FixedBuffer_Length_def)

lemma round_writes:
  assumes "al_curr a = Some b" "fb_curr b \<le> length (fb_data b)" "al_buffers a = []" "al_next a \<noteq> None"
    "spare_ok (al_new1 a)" "spare_ok (al_new2 a)" "al_output a = Some out" "log_file_ok out"
    and call: "ar_call r 1 = (outs, now, env)" "call_ok (outs, now, env, held b)"
  shows "\<exists>a' out'. AsyncLogging_ThreadFunc_round r a = Inr a' \<and> al_output a' = Some out' \<and> log_file_ok out' \<and>
    logged out' = logged out @ held b"
proof -
  obtain out1 where o1: "LogFile_Append outs now env (held b) out = Inr out1" "log_file_ok out1" "logged out1 = logged out @ held b"
    using LogFile_Append_keeps [OF assms(8) call(2)] by auto
  have "log_file_ok (out1\<lparr>lf_flushes := n\<rparr>)" "logged (out1\<lparr>lf_flushes := n\<rparr>) = logged out1" for n
    using o1(2) by (auto simp: log_file_ok_def logged_def)
  moreover have "FixedBuffer_ToString b = Inr (held b)"
    using assms(2) by (simp add: FixedBuffer_ToString_def FixedBuffer_Length_def held_def)
  moreover have "al_new2 a \<noteq> None" using assms(6) by (auto simp: spare_ok_def split: option.splits)
  moreover have "LogFile_Flush out1 = Inr (out1\<lparr>lf_flushes := lf_flushes out1 + 1\<rparr>)"
    using o1(2) by (auto simp: LogFile_Flush_def log_file_ok_def)
  ultimately show ?thesis
    using assms o1 by (simp add: AsyncLogging_ThreadFunc_round_def swap_buffers_def recycle_def output_append_def Let_def)
qed

definition lines_fit :: "char list list \<Rightarrow> bool" where
  "lines_fit ls \<longleftrightarrow> length (concat ls) \<le> k_large_buffer \<and> list_all (\<lambda>l. length l < k_large_buffer) ls"

lemma round_gives_buffer:
  "AsyncLogging_ThreadFunc_round r a = Inr a' \<Longrightarrow> al_curr a' = al_new1 a"
  by (auto simp: AsyncLogging_ThreadFunc_round_def swap_buffers_def res_simps Let_def split: option.splits if_splits prod.splits)

lemma async_first_round:
  assumes env: "0 < le_now env" "le_opened env" "CHR ''/'' \<notin> set basename" and fit: "lines_fit (ar_lines r)"
    and call: "ar_call r 1 = (outs, now, env')" "le_opened env'" "list_all (\<lambda>x. 0 < x) outs"
    and start: "a0 = AsyncLogging_Start (AsyncLogging_new basename roll_size flush_interval)"
  obtains a1 b a2 out where "AsyncLogging_ThreadFunc_begin env a0 = Inr a1" "async_lines (ar_lines r) a1 = Inr (a1\<lparr>al_curr := Some b\<rparr>)"
    "AsyncLogging_ThreadFunc_round r (a1\<lparr>al_curr := Some b\<rparr>) = Inr a2" "al_output a2 = Some out" "log_file_ok out"
    "logged out = concat (ar_lines r)" "al_curr a2 = Some large_buffer"
proof -
  obtain out0 where new: "LogFile_new env basename roll_size 3 1024 = Inr out0"
    using env by (auto simp: LogFile_new_def LogFile_RollFile_def AppendFile_new_def Let_def)
  note out0 = new LogFile_new_ok [OF new env(1)]
  define a1 where "a1 = a0\<lparr>al_output := Some out0, al_new1 := Some large_buffer, al_new2 := Some large_buffer\<rparr>"
  have a1: "AsyncLogging_ThreadFunc_begin env a0 = Inr a1" "al_curr a1 = Some large_buffer"
    using out0 by (simp_all add: start a1_def AsyncLogging_ThreadFunc_begin_def AsyncLogging_Start_def AsyncLogging_new_def)
  obtain b where b: "async_lines (ar_lines r) a1 = Inr (a1\<lparr>al_curr := Some b\<rparr>)" "held b = concat (ar_lines r)"
    "fb_curr b \<le> length (fb_data b)"
    using async_lines_fit [OF a1(2)] fit by (auto simp: lines_fit_def)
  obtain a2 out where a2: "AsyncLogging_ThreadFunc_round r (a1\<lparr>al_curr := Some b\<rparr>) = Inr a2" "al_output a2 = Some out"
    "log_file_ok out" "logged out = concat (ar_lines r)"
    using round_writes [of "a1\<lparr>al_curr := Some b\<rparr>" b out0 r outs now env'] b out0 call
    by (auto simp: a1_def start AsyncLogging_Start_def AsyncLogging_new_def call_ok_def)
  have "al_curr a2 = Some large_buffer" using round_gives_buffer [OF a2(1)] by (simp add: a1_def)
  then show thesis by (rule that [OF a1(1) b(1) a2])
qed

lemma LogFile_Flush_ok: "log_file_ok out \<Longrightarrow> LogFile_Flush out = Inr (out\<lparr>lf_flushes := lf_flushes out + 1\<rparr>)"
  by (auto simp: LogFile_Flush_def log_file_ok_def)

lemma async_one_round:
  assumes "0 < le_now env" "le_opened env" "CHR ''/'' \<notin> set basename" "lines_fit (ar_lines r)"
    "ar_call r 1 = (outs, now, env')" "le_opened env'" "list_all (\<lambda>x. 0 < x) outs"
  shows "\<exists>a out. AsyncLogging_ThreadFunc env [r] (AsyncLogging_Start (AsyncLogging_new basename roll_size flush_interval)) = Inr a \<and>
    al_output a = Some out \<and> logged out = concat (ar_lines r)"
proof -
  obtain a1 b a2 out where a: "AsyncLogging_ThreadFunc_begin env (AsyncLogging_Start (AsyncLogging_new basename roll_size flush_interval)) = Inr a1"
    "async_lines (ar_lines r) a1 = Inr (a1\<lparr>al_curr := Some b\<rparr>)" "AsyncLogging_ThreadFunc_round r (a1\<lparr>al_curr := Some b\<rparr>) = Inr a2"
    "al_output a2 = Some out" "log_file_ok out" "logged out = concat (ar_lines r)" "al_curr a2 = Some large_buffer"
    by (rule async_first_round [OF assms refl])
  then show ?thesis using LogFile_Flush_ok [OF a(5)] by (simp add: AsyncLogging_ThreadFunc_def logged_def)
qed

text \<open>C40. The background thread of \<open>AsyncLogging\<close> writes what was logged before its first round, and does not survive the
  second one: when files can be opened, writes make progress and the lines fit a buffer, a logger that is stopped after
  one round has its lines in the log file in order; but in a second round the first assert fails, whatever was logged in
  between, because the round before gave its first spare buffer away and reset the pointer to the one it took back.\<close>

theorem async_second_round_fails:
  assumes env: "0 < le_now env" "le_opened env" "CHR ''/'' \<notin> set basename"
    and fit: "lines_fit (ar_lines r)" "lines_fit (ar_lines r')"
    and call: "ar_call r 1 = (outs, now, env')" "le_opened env'" "list_all (\<lambda>x. 0 < x) outs"
    and start: "a0 = AsyncLogging_Start (AsyncLogging_new basename roll_size flush_interval)"
  shows "(\<exists>a out. AsyncLogging_ThreadFunc env [r] a0 = Inr a \<and> al_output a = Some out \<and> logged out = concat (ar_lines r)) \<and>
    AsyncLogging_ThreadFunc env (r # r' # rs) a0 = Inl Assert_failed"
proof
  show "\<exists>a out. AsyncLogging_ThreadFunc env [r] a0 = Inr a \<and> al_output a = Some out \<and> logged out = concat (ar_lines r)"
    unfolding start by (rule async_one_round [OF env fit(1) call])
  obtain a1 b a2 out where a: "AsyncLogging_ThreadFunc_begin env a0 = Inr a1" "async_lines (ar_lines r) a1 = Inr (a1\<lparr>al_curr := Some b\<rparr>)"
    "AsyncLogging_ThreadFunc_round r (a1\<lparr>al_curr := Some b\<rparr>) = Inr a2" "al_output a2 = Some out" "log_file_ok out"
    "logged out = concat (ar_lines r)" "al_curr a2 = Some large_buffer"
    by (rule async_first_round [OF env fit(1) call start])
  obtain b' where b': "async_lines (ar_lines r') a2 = Inr (a2\<lparr>al_curr := Some b'\<rparr>)"
    using async_lines_fit [OF a(7), of "ar_lines r'"] fit(2) by (auto simp: lines_fit_def)
  have "AsyncLogging_ThreadFunc_round r' (a2\<lparr>al_curr := Some b'\<rparr>) = Inl Assert_failed"
    using round_drops_new1 [OF a(3)] by (simp add: AsyncLogging_ThreadFunc_round_def spare_ok_def)
  then show "AsyncLogging_ThreadFunc env (r # r' # rs) a0 = Inl Assert_failed"
    using a b' by (simp add: AsyncLogging_ThreadFunc_def)
qed

theorem async_second_round_fails_witness:
  "\<exists>a out. AsyncLogging_ThreadFunc \<lparr>le_now = 100, le_hostname = ''h'', le_pid = 1, le_opened = True\<rparr>
       [\<lparr>ar_lines = [''hello '', ''world''], ar_when = '''',
         ar_call = \<lambda>_. ([4], 101, \<lparr>le_now = 101, le_hostname = ''h'', le_pid = 1, le_opened = True\<rparr>)\<rparr>]
       (AsyncLogging_Start (AsyncLogging_new ''app'' 1000 3)) = Inr a \<and>
     al_output a = Some out \<and> logged out = ''hello world''"
  using async_second_round_fails
    [of "\<lparr>le_now = 100, le_hostname = ''h'', le_pid = 1, le_opened = True\<rparr>" "''app''"
        "\<lparr>ar_lines = [''hello '', ''world''], ar_when = '''',
         ar_call = \<lambda>_. ([4], 101, \<lparr>le_now = 101, le_hostname = ''h'', le_pid = 1, le_opened = True\<rparr>)\<rparr>"
        "\<lparr>ar_lines = [], ar_when = '''', ar_call = \<lambda>_. ([], 101, \<lparr>le_now = 101, le_hostname = ''h'', le_pid = 1, le_opened = True\<rparr>)\<rparr>",
      OF _ _ _ _ _ _ _ _ refl, of "[4]" 101 "\<lparr>le_now = 101, le_hostname = ''h'', le_pid = 1, le_opened = True\<rparr>" 1000 3 "[]"]
  by (simp add: lines_fit_def k_large_buffer_def)

end
