(* ===== verification/Monitor.thy ===== *)
theory Monitor
  imports Prelude "HOL-Library.Multiset"
begin

text \<open>
  The library's blocking components: \<open>MutexLock\<close> and \<open>Condition\<close> (\<open>dwater/base/mutex.h\<close>, \<open>condition.h\<close>,
  \<open>condition.cc\<close>), \<open>CountDownLatch\<close>, \<open>BlockingQueue\<close>, \<open>BoundedBlockingQueue\<close> and \<open>ThreadPool\<close>.

  Each operation of the queues runs under the mutex from its start to its end or to a \<open>Wait\<close>; such a
  stretch is one atomic step, and it is a function from the protected data to what the operation does
  next: wait on its condition, or finish. The threads interleave these steps. The threads inside the
  operations are kept as multisets: those that are about to test their loop condition and those that
  wait. \<open>Notify\<close> moves one waiting thread back, \<open>NotifyAll\<close> moves all, and a waiting thread may also come
  back by itself (the spurious wake-ups \<open>pthread_cond_wait\<close> allows).

  The locale \<open>blocking_monitor\<close> is the contract of such a queue; the three classes are its interpretations.
\<close>

section \<open>Mutex and condition\<close>

text \<open>\<open>mx_owner\<close> is the state of the \<open>pthread_mutex_t\<close>, \<open>mx_holder\<close> the member \<open>holder_\<close>; 0 is no thread.\<close>

record mutex_lock =
  mx_owner :: nat
  mx_holder :: nat

definition MutexLock_new :: mutex_lock where
  "MutexLock_new = \<lparr>mx_owner = 0, mx_holder = 0\<rparr>"

definition MutexLock_destroy :: "mutex_lock \<Rightarrow> unit result" where
  "MutexLock_destroy m = c_assert (mx_holder m = 0) (Inr ())"

definition MutexLock_AssignHolder :: "nat \<Rightarrow> mutex_lock \<Rightarrow> mutex_lock" where
  "MutexLock_AssignHolder tid m = m\<lparr>mx_holder := tid\<rparr>"

definition MutexLock_UnassignHolder :: "mutex_lock \<Rightarrow> mutex_lock" where
  "MutexLock_UnassignHolder m = m\<lparr>mx_holder := 0\<rparr>"

definition MutexLock_IsLockedByThisThread :: "nat \<Rightarrow> mutex_lock \<Rightarrow> bool" where
  "MutexLock_IsLockedByThisThread tid m \<longleftrightarrow> mx_holder m = tid"

definition MutexLock_AssertLocked :: "nat \<Rightarrow> mutex_lock \<Rightarrow> unit result" where
  "MutexLock_AssertLocked tid m = c_assert (MutexLock_IsLockedByThisThread tid m) (Inr ())"

text \<open>\<open>None\<close>: the thread blocks, because another one has the mutex.\<close>

definition MutexLock_Lock :: "nat \<Rightarrow> mutex_lock \<Rightarrow> mutex_lock option" where
  "MutexLock_Lock tid m = (if mx_owner m \<noteq> 0 then None else Some (MutexLock_AssignHolder tid (m\<lparr>mx_owner := tid\<rparr>)))"

definition MutexLock_Unlock :: "mutex_lock \<Rightarrow> mutex_lock" where
  "MutexLock_Unlock m = (MutexLock_UnassignHolder m)\<lparr>mx_owner := 0\<rparr>"

text \<open>\<open>Condition::Wait\<close>: \<open>UnassignGuard\<close> clears the holder, \<open>pthread_cond_wait\<close> gives the mutex up and, later,
  takes it again, and the guard's destructor sets the holder.\<close>

definition UnassignGuard_new :: "mutex_lock \<Rightarrow> mutex_lock" where
  "UnassignGuard_new owner = MutexLock_UnassignHolder owner"

definition UnassignGuard_destroy :: "nat \<Rightarrow> mutex_lock \<Rightarrow> mutex_lock" where
  "UnassignGuard_destroy tid owner = MutexLock_AssignHolder tid owner"

definition Condition_Wait_begin :: "mutex_lock \<Rightarrow> mutex_lock" where
  "Condition_Wait_begin m = (UnassignGuard_new m)\<lparr>mx_owner := 0\<rparr>"

definition Condition_Wait_end :: "nat \<Rightarrow> mutex_lock \<Rightarrow> mutex_lock option" where
  "Condition_Wait_end tid m = (if mx_owner m \<noteq> 0 then None else Some (UnassignGuard_destroy tid (m\<lparr>mx_owner := tid\<rparr>)))"

definition MutexLockGuard_new :: "nat \<Rightarrow> mutex_lock \<Rightarrow> mutex_lock option" where
  "MutexLockGuard_new tid m = MutexLock_Lock tid m"

definition MutexLockGuard_destroy :: "mutex_lock \<Rightarrow> mutex_lock" where
  "MutexLockGuard_destroy m = MutexLock_Unlock m"

datatype lock_op = Lock_op nat | Unlock_op nat | Wait_op nat | Return_op nat

text \<open>A legal use: only the owner unlocks or waits; a thread that would block does nothing.\<close>

fun lock_step :: "lock_op \<Rightarrow> mutex_lock \<Rightarrow> mutex_lock" where
  "lock_step (Lock_op t) m = (case MutexLockGuard_new t m of None \<Rightarrow> m | Some m' \<Rightarrow> m')"
| "lock_step (Unlock_op t) m = (if mx_owner m = t then MutexLockGuard_destroy m else m)"
| "lock_step (Wait_op t) m = (if mx_owner m = t then Condition_Wait_begin m else m)"
| "lock_step (Return_op t) m = (case Condition_Wait_end t m of None \<Rightarrow> m | Some m' \<Rightarrow> m')"

lemma holder_is_owner: "mx_holder (fold lock_step ops MutexLock_new) = mx_owner (fold lock_step ops MutexLock_new)"
proof -
  have "mx_holder m = mx_owner m \<Longrightarrow> mx_holder (lock_step op m) = mx_owner (lock_step op m)" for op m
    by (cases op) (auto simp: MutexLockGuard_new_def MutexLockGuard_destroy_def MutexLock_Lock_def MutexLock_Unlock_def Condition_Wait_begin_def Condition_Wait_end_def
        UnassignGuard_new_def UnassignGuard_destroy_def
        MutexLock_AssignHolder_def MutexLock_UnassignHolder_def)
  then have "mx_holder m = mx_owner m \<Longrightarrow> mx_holder (fold lock_step ops m) = mx_owner (fold lock_step ops m)" for m
    by (induction ops arbitrary: m) auto
  then show ?thesis by (simp add: MutexLock_new_def)
qed

definition knano_seconds_per_second :: int where
  "knano_seconds_per_second = 1000000000"

text \<open>The absolute time of \<open>WaitForSeconds\<close>; \<open>seconds * 10^9\<close> cut to an integer is \<open>nanoseconds\<close>.\<close>

definition Condition_abstime :: "int \<Rightarrow> int \<times> int \<Rightarrow> int \<times> int" where
  "Condition_abstime nanoseconds now =
     (case now of (tv_sec, tv_nsec) \<Rightarrow>
       (tv_sec + cdiv (tv_nsec + nanoseconds) knano_seconds_per_second,
        cmod (tv_nsec + nanoseconds) knano_seconds_per_second))"

lemma abstime_exact:
  assumes "Condition_abstime n (s, ns) = (s', ns')" and "0 \<le> n" and "0 \<le> ns"
  shows "s' * knano_seconds_per_second + ns' = s * knano_seconds_per_second + ns + n" and "0 \<le> ns'"
    and "ns' < knano_seconds_per_second"
  using assms cdiv_cmod [of "ns + n" knano_seconds_per_second] cmod_bounds [of knano_seconds_per_second "ns + n"]
    cmod_nonneg [of "ns + n" knano_seconds_per_second]
  by (auto simp: Condition_abstime_def algebra_simps knano_seconds_per_second_def)

section \<open>The contract of a blocking queue\<close>

datatype 'b next_step = Blocks | Finishes 'b

text \<open>
  The system: the protected data, the threads in \<open>Put\<close> (with what they put) and in \<open>Take\<close> that run and
  that wait, and the history of the items accepted and handed out.
\<close>

record ('q, 'a) monitor =
  mo_data :: 'q
  mo_putters :: "(nat \<times> 'a) multiset"
  mo_takers :: "nat multiset"
  mo_wait_full :: "(nat \<times> 'a) multiset"
  mo_wait_empty :: "nat multiset"
  mo_accepted :: "'a list"
  mo_handed :: "'a list"

definition monitor_start :: "'q \<Rightarrow> ('q, 'a) monitor" where
  "monitor_start q = \<lparr>mo_data = q, mo_putters = {#}, mo_takers = {#}, mo_wait_full = {#}, mo_wait_empty = {#},
     mo_accepted = [], mo_handed = []\<rparr>"

text \<open>
  \<open>Notify\<close> on \<open>not_empty_\<close> and on \<open>not_full_\<close>: one of the waiting threads, or none when none waits.
\<close>

inductive notify_empty :: "('q, 'a) monitor \<Rightarrow> ('q, 'a) monitor \<Rightarrow> bool" where
  wake: "t \<in># mo_wait_empty s \<Longrightarrow>
    notify_empty s (s\<lparr>mo_wait_empty := mo_wait_empty s - {#t#}, mo_takers := add_mset t (mo_takers s)\<rparr>)"
| nobody: "mo_wait_empty s = {#} \<Longrightarrow> notify_empty s s"

inductive notify_full :: "('q, 'a) monitor \<Rightarrow> ('q, 'a) monitor \<Rightarrow> bool" where
  wake: "p \<in># mo_wait_full s \<Longrightarrow>
    notify_full s (s\<lparr>mo_wait_full := mo_wait_full s - {#p#}, mo_putters := add_mset p (mo_putters s)\<rparr>)"
| nobody: "mo_wait_full s = {#} \<Longrightarrow> notify_full s s"

definition notify_all :: "('q, 'a) monitor \<Rightarrow> ('q, 'a) monitor" where
  "notify_all s = s\<lparr>mo_putters := mo_putters s + mo_wait_full s, mo_wait_full := {#},
     mo_takers := mo_takers s + mo_wait_empty s, mo_wait_empty := {#}\<rparr>"

text \<open>
  The steps. \<open>put x q\<close> and \<open>take q\<close> are the critical sections: \<open>put\<close> finishes with the new data and whether
  the item went in, \<open>take\<close> with the item, if it got one. \<open>notifies q\<close> is whether \<open>take\<close> notifies \<open>not_full_\<close>.
\<close>

inductive monitor_step ::
  "('a \<Rightarrow> 'q \<Rightarrow> (bool \<times> 'q) next_step) \<Rightarrow> ('q \<Rightarrow> ('a option \<times> 'q) next_step) \<Rightarrow> ('q \<Rightarrow> 'q) \<Rightarrow> ('q \<Rightarrow> bool) \<Rightarrow>
   ('q, 'a) monitor \<Rightarrow> ('q, 'a) monitor \<Rightarrow> bool"
  for put take stop notifies where
  call_put: "monitor_step put take stop notifies s (s\<lparr>mo_putters := add_mset (t, x) (mo_putters s)\<rparr>)"
| call_take: "monitor_step put take stop notifies s (s\<lparr>mo_takers := add_mset t (mo_takers s)\<rparr>)"
| put_blocks: "(t, x) \<in># mo_putters s \<Longrightarrow> put x (mo_data s) = Blocks \<Longrightarrow>
    monitor_step put take stop notifies s
      (s\<lparr>mo_putters := mo_putters s - {#(t, x)#}, mo_wait_full := add_mset (t, x) (mo_wait_full s)\<rparr>)"
| put_done: "(t, x) \<in># mo_putters s \<Longrightarrow> put x (mo_data s) = Finishes (True, q') \<Longrightarrow>
    notify_empty (s\<lparr>mo_putters := mo_putters s - {#(t, x)#}, mo_data := q', mo_accepted := mo_accepted s @ [x]\<rparr>) s' \<Longrightarrow>
    monitor_step put take stop notifies s s'"
| put_dropped: "(t, x) \<in># mo_putters s \<Longrightarrow> put x (mo_data s) = Finishes (False, q') \<Longrightarrow>
    monitor_step put take stop notifies s (s\<lparr>mo_putters := mo_putters s - {#(t, x)#}, mo_data := q'\<rparr>)"
| take_blocks: "t \<in># mo_takers s \<Longrightarrow> take (mo_data s) = Blocks \<Longrightarrow>
    monitor_step put take stop notifies s (s\<lparr>mo_takers := mo_takers s - {#t#}, mo_wait_empty := add_mset t (mo_wait_empty s)\<rparr>)"
| take_done: "t \<in># mo_takers s \<Longrightarrow> take (mo_data s) = Finishes (Some x, q') \<Longrightarrow>
    (if notifies (mo_data s) then notify_full (s\<lparr>mo_takers := mo_takers s - {#t#}, mo_data := q', mo_handed := mo_handed s @ [x]\<rparr>) s'
     else s' = s\<lparr>mo_takers := mo_takers s - {#t#}, mo_data := q', mo_handed := mo_handed s @ [x]\<rparr>) \<Longrightarrow>
    monitor_step put take stop notifies s s'"
| take_none: "t \<in># mo_takers s \<Longrightarrow> take (mo_data s) = Finishes (None, q') \<Longrightarrow>
    monitor_step put take stop notifies s (s\<lparr>mo_takers := mo_takers s - {#t#}, mo_data := q'\<rparr>)"
| stops: "monitor_step put take stop notifies s (notify_all (s\<lparr>mo_data := stop (mo_data s)\<rparr>))"
| spurious_put: "p \<in># mo_wait_full s \<Longrightarrow> monitor_step put take stop notifies s
    (s\<lparr>mo_wait_full := mo_wait_full s - {#p#}, mo_putters := add_mset p (mo_putters s)\<rparr>)"
| spurious_take: "t \<in># mo_wait_empty s \<Longrightarrow> monitor_step put take stop notifies s
    (s\<lparr>mo_wait_empty := mo_wait_empty s - {#t#}, mo_takers := add_mset t (mo_takers s)\<rparr>)"

inductive monitor_reach ::
  "('a \<Rightarrow> 'q \<Rightarrow> (bool \<times> 'q) next_step) \<Rightarrow> ('q \<Rightarrow> ('a option \<times> 'q) next_step) \<Rightarrow> ('q \<Rightarrow> 'q) \<Rightarrow> ('q \<Rightarrow> bool) \<Rightarrow> 'q \<Rightarrow>
   ('q, 'a) monitor \<Rightarrow> bool"
  for put take stop notifies q0 where
  begins: "monitor_reach put take stop notifies q0 (monitor_start q0)"
| continues: "monitor_reach put take stop notifies q0 s \<Longrightarrow> monitor_step put take stop notifies s s' \<Longrightarrow>
    monitor_reach put take stop notifies q0 s'"

text \<open>What the critical sections keep of the data holds in every state.\<close>

lemma monitor_data:
  assumes "monitor_reach p t halt notifies q0 s" and "P q0"
    and put: "\<And>x q b q'. P q \<Longrightarrow> p x q = Finishes (b, q') \<Longrightarrow> P q'"
    and take: "\<And>q r q'. P q \<Longrightarrow> t q = Finishes (r, q') \<Longrightarrow> P q'"
    and stop: "\<And>q. P q \<Longrightarrow> P (halt q)"
  shows "P (mo_data s)"
  using assms(1)
proof (induction rule: monitor_reach.induct)
  case begins
  then show ?case using \<open>P q0\<close> by (simp add: monitor_start_def)
next
  case (continues s s')
  from continues.hyps(2) continues.IH show ?case
  proof (cases rule: monitor_step.cases)
    case (put_done t x q')
    then show ?thesis using put [OF continues.IH put_done(2)] by (auto elim: notify_empty.cases)
  next
    case (take_done t x q')
    then show ?thesis using take [OF continues.IH take_done(2)] by (auto elim: notify_full.cases split: if_splits)
  qed (auto simp: notify_all_def dest: put take stop)
qed

locale blocking_monitor =
  fixes put :: "'a \<Rightarrow> 'q \<Rightarrow> (bool \<times> 'q) next_step"
    and take :: "'q \<Rightarrow> ('a option \<times> 'q) next_step"
    and stop :: "'q \<Rightarrow> 'q"
    and notifies :: "'q \<Rightarrow> bool"
    and items :: "'q \<Rightarrow> 'a list"
    and free :: "'q \<Rightarrow> nat"
    and is_open :: "'q \<Rightarrow> bool"
    and start :: 'q
  assumes put_blocks: "put x q = Blocks \<Longrightarrow> is_open q \<and> free q = 0 \<and> notifies q"
    and put_accepts: "put x q = Finishes (True, q') \<Longrightarrow>
      is_open q \<and> is_open q' \<and> items q' = items q @ [x] \<and> free q' \<le> free q - 1 \<and> (notifies q' \<longleftrightarrow> notifies q)"
    and put_drops: "put x q = Finishes (False, q') \<Longrightarrow> q' = q \<and> \<not> is_open q"
    and take_blocks: "take q = Blocks \<Longrightarrow> is_open q \<and> items q = []"
    and take_hands: "take q = Finishes (Some x, q') \<Longrightarrow>
      items q = x # items q' \<and> free q' \<le> free q + 1 \<and> (notifies q' \<longleftrightarrow> notifies q) \<and> (is_open q' \<longleftrightarrow> is_open q)"
    and take_gives_up: "take q = Finishes (None, q') \<Longrightarrow> q' = q \<and> \<not> is_open q"
    and stop_items: "items (stop q) = items q"
    and start_empty: "items start = []"
begin

definition sound :: "('q, 'a) monitor \<Rightarrow> bool" where
  "sound s \<longleftrightarrow> mo_accepted s = mo_handed s @ items (mo_data s) \<and>
     (mo_wait_empty s \<noteq> {#} \<longrightarrow> is_open (mo_data s) \<and> length (items (mo_data s)) \<le> size (mo_takers s)) \<and>
     (mo_wait_full s \<noteq> {#} \<longrightarrow> is_open (mo_data s) \<and> notifies (mo_data s) \<and> free (mo_data s) \<le> size (mo_putters s))"

lemma step_sound:
  assumes "monitor_step put take stop notifies s s'" and "sound s"
  shows "sound s'"
  using assms
proof (cases rule: monitor_step.cases)
  case (put_blocks t x)
  then show ?thesis using assms(2) blocking_monitor_axioms
    by (auto simp: sound_def size_Diff_singleton dest: blocking_monitor.put_blocks)
next
  case (put_done t x q')
  note P = put_accepts [OF put_done(2)]
  have "size (mo_putters s - {#(t, x)#}) = size (mo_putters s) - 1" using put_done(1) by (simp add: size_Diff_singleton)
  with put_done(3) P assms(2) show ?thesis
    by (cases rule: notify_empty.cases) (auto simp: sound_def size_Diff_singleton)
next
  case (take_done t x q')
  note P = take_hands [OF take_done(2)]
  have sz: "size (mo_takers s - {#t#}) = size (mo_takers s) - 1" using take_done(1) by (simp add: size_Diff_singleton)
  show ?thesis
  proof (cases "notifies (mo_data s)")
    case True
    then have "notify_full (s\<lparr>mo_takers := mo_takers s - {#t#}, mo_data := q', mo_handed := mo_handed s @ [x]\<rparr>) s'"
      using take_done(3) by simp
    then show ?thesis using P sz assms(2) True by (cases rule: notify_full.cases) (auto simp: sound_def)
  next
    case False
    then show ?thesis using take_done(3) P sz assms(2) by (auto simp: sound_def)
  qed
next
  case (take_blocks t)
  then show ?thesis using assms(2) blocking_monitor_axioms
    by (auto simp: sound_def dest: blocking_monitor.take_blocks)
next
  case (put_dropped t x q')
  note P = put_drops [OF put_dropped(3)]
  show ?thesis using P put_dropped(1) assms(2) by (auto simp: sound_def)
next
  case (take_none t q')
  note P = take_gives_up [OF take_none(3)]
  show ?thesis using P take_none(1) assms(2) by (auto simp: sound_def)
qed (auto simp: sound_def notify_all_def stop_items)

lemma reach_sound: "monitor_reach put take stop notifies start s \<Longrightarrow> sound s"
proof (induction rule: monitor_reach.induct)
  case begins
  then show ?case by (simp add: sound_def monitor_start_def start_empty)
next
  case (continues s s')
  then show ?case by (blast intro: step_sound)
qed

text \<open>
  First in, first out; and no thread waits while there is something for it that no running thread is about
  to take.
\<close>

lemma monitor_correct:
  assumes "monitor_reach put take stop notifies start s"
  shows "mo_accepted s = mo_handed s @ items (mo_data s)"
    and "mo_wait_empty s \<noteq> {#} \<Longrightarrow> items (mo_data s) \<noteq> [] \<Longrightarrow> mo_takers s \<noteq> {#}"
    and "mo_wait_full s \<noteq> {#} \<Longrightarrow> 0 < free (mo_data s) \<Longrightarrow> mo_putters s \<noteq> {#}"
    and "\<not> is_open (mo_data s) \<Longrightarrow> mo_wait_empty s = {#} \<and> mo_wait_full s = {#}"
  using reach_sound [OF assms] by (auto simp: sound_def)

end

end
