(* ===== verification/Threads.thy ===== *)
theory Threads
  imports Monitor TimerQueue
begin

text \<open>
  \<open>CountDownLatch\<close> (\<open>dwater/base/count_down_latch.h\<close>, \<open>.cc\<close>), the data of the current thread
  (\<open>current_thread.h\<close>, \<open>thread.cc\<close>), \<open>Thread\<close> (\<open>thread.h\<close>, \<open>thread.cc\<close>) and \<open>EventLoopThread\<close>
  (\<open>dwater/net/event_loop_thread.h\<close>, \<open>.cc\<close>). Critical sections are atomic steps, as in \<open>Monitor\<close>; the system
  calls (\<open>gettid\<close>, \<open>getpid\<close>, \<open>pthread_create\<close>) are arguments.
\<close>

section \<open>Waiting with a limit\<close>

text \<open>The absolute time \<open>Condition::WaitForSeconds\<close> hands to \<open>pthread_cond_timedwait\<close>.\<close>

definition Condition_WaitForSeconds :: "rat \<Rightarrow> int \<times> int \<Rightarrow> int \<times> int" where
  "Condition_WaitForSeconds seconds now =
     Condition_abstime (double_to_int (double_round (seconds * of_int knano_seconds_per_second))) now"

section \<open>CountDownLatch\<close>

text \<open>
  The latch with the threads in \<open>Wait\<close> that are about to test the count, that wait on the condition and that
  have returned, and the number of \<open>CountDown\<close> calls made.
\<close>

record latch =
  la_count :: int
  la_testing :: "nat multiset"
  la_waiting :: "nat multiset"
  la_returned :: "nat multiset"
  la_downs :: nat

definition CountDownLatch_new :: "int \<Rightarrow> latch" where
  "CountDownLatch_new n = \<lparr>la_count = n, la_testing = {#}, la_waiting = {#}, la_returned = {#}, la_downs = 0\<rparr>"

definition latch_notify_all :: "latch \<Rightarrow> latch" where
  "latch_notify_all l = l\<lparr>la_testing := la_testing l + la_waiting l, la_waiting := {#}\<rparr>"

text \<open>One test of the loop in \<open>Wait\<close> by thread \<open>t\<close>.\<close>

definition CountDownLatch_Wait :: "nat \<Rightarrow> latch \<Rightarrow> latch" where
  "CountDownLatch_Wait t l =
     (if 0 < la_count l
      then l\<lparr>la_testing := la_testing l - {#t#}, la_waiting := add_mset t (la_waiting l)\<rparr>
      else l\<lparr>la_testing := la_testing l - {#t#}, la_returned := add_mset t (la_returned l)\<rparr>)"

definition CountDownLatch_CountDown :: "latch \<Rightarrow> latch" where
  "CountDownLatch_CountDown l =
     (let l = l\<lparr>la_count := la_count l - 1, la_downs := la_downs l + 1\<rparr>
      in if la_count l = 0 then latch_notify_all l else l)"

definition CountDownLatch_GetCount :: "latch \<Rightarrow> int" where
  "CountDownLatch_GetCount l = la_count l"

inductive latch_reach :: "int \<Rightarrow> latch \<Rightarrow> bool" for n where
  latch_start: "latch_reach n (CountDownLatch_new n)"
| latch_call: "latch_reach n l \<Longrightarrow> latch_reach n (l\<lparr>la_testing := add_mset t (la_testing l)\<rparr>)"
| latch_test: "latch_reach n l \<Longrightarrow> t \<in># la_testing l \<Longrightarrow> latch_reach n (CountDownLatch_Wait t l)"
| latch_down: "latch_reach n l \<Longrightarrow> latch_reach n (CountDownLatch_CountDown l)"
| latch_spurious: "latch_reach n l \<Longrightarrow> t \<in># la_waiting l \<Longrightarrow>
    latch_reach n (l\<lparr>la_waiting := la_waiting l - {#t#}, la_testing := add_mset t (la_testing l)\<rparr>)"

text \<open>However calls interleave, \<open>CountDownLatch\<close> holds a thread back exactly as long as it should: no \<open>Wait\<close>
  returns before the count has been taken down as often as the constructor said, and once it has nobody waits on
  the condition, so every \<open>Wait\<close> returns at its next test.\<close>

theorem latch_correct:
  assumes "latch_reach n l"
  shows "CountDownLatch_GetCount l = n - int (la_downs l) \<and>
    (la_returned l = {#} \<or> n \<le> int (la_downs l)) \<and>
    (la_waiting l = {#} \<or> int (la_downs l) < n)"
  using assms
  by (induction rule: latch_reach.induct)
    (auto simp: CountDownLatch_new_def CountDownLatch_Wait_def CountDownLatch_CountDown_def latch_notify_all_def
      CountDownLatch_GetCount_def Let_def)

text \<open>Two threads wait, one more \<open>CountDown\<close> releases both.\<close>

theorem latch_correct_witness:
  "\<exists>l :: latch. la_returned l = {#1#} \<and> la_waiting l = {#} \<and> 1 \<le> int (la_downs l)"
proof -
  let ?l = "\<lparr>la_count = 0, la_testing = {#}, la_waiting = {#}, la_returned = {#1#}, la_downs = 1\<rparr>"
  have "latch_reach 1 (CountDownLatch_Wait 1 (CountDownLatch_CountDown (CountDownLatch_Wait 1
      ((CountDownLatch_new 1)\<lparr>la_testing := add_mset 1 (la_testing (CountDownLatch_new 1))\<rparr>))))"
    by (rule latch_test, rule latch_down, rule latch_test, rule latch_call, rule latch_start)
      (simp_all add: CountDownLatch_new_def CountDownLatch_Wait_def CountDownLatch_CountDown_def latch_notify_all_def)
  then have "latch_reach 1 ?l"
    by (simp add: CountDownLatch_new_def CountDownLatch_Wait_def CountDownLatch_CountDown_def latch_notify_all_def)
  from latch_correct [OF this] show ?thesis by (intro exI [of _ ?l]) simp
qed

section \<open>The current thread\<close>

record current_thread =
  t_cached_tid :: int
  t_tid_string :: string
  t_tid_string_length :: nat
  t_thread_name :: string

definition current_thread_init :: current_thread where
  "current_thread_init = \<lparr>t_cached_tid = 0, t_tid_string = '''', t_tid_string_length = 6, t_thread_name = ''unknow''\<rparr>"

text \<open>\<open>gettid\<close> is the number the kernel gives the thread. \<open>snprintf\<close> returns the length of the whole text.\<close>

definition current_thread_CacheTid :: "int \<Rightarrow> current_thread \<Rightarrow> current_thread" where
  "current_thread_CacheTid gettid t =
     (if t_cached_tid t = 0
      then t\<lparr>t_cached_tid := gettid, t_tid_string := snprintf_buf 32 (int_decw 5 gettid),
             t_tid_string_length := length (int_decw 5 gettid)\<rparr>
      else t)"

definition current_thread_Tid :: "int \<Rightarrow> current_thread \<Rightarrow> int \<times> current_thread" where
  "current_thread_Tid gettid t =
     (let t = (if t_cached_tid t = 0 then current_thread_CacheTid gettid t else t) in (t_cached_tid t, t))"

definition current_thread_IsMainThread :: "int \<Rightarrow> int \<Rightarrow> current_thread \<Rightarrow> bool \<times> current_thread" where
  "current_thread_IsMainThread gettid getpid t =
     (case current_thread_Tid gettid t of (tid, t) \<Rightarrow> (tid = getpid, t))"

definition AfterFork :: "int \<Rightarrow> current_thread \<Rightarrow> current_thread" where
  "AfterFork gettid t = snd (current_thread_Tid gettid (t\<lparr>t_cached_tid := 0, t_thread_name := ''main''\<rparr>))"

definition ThreadnameInitializer :: "int \<Rightarrow> current_thread \<Rightarrow> current_thread" where
  "ThreadnameInitializer gettid t = snd (current_thread_Tid gettid (t\<lparr>t_thread_name := ''main''\<rparr>))"

text \<open>The \<open>timespec\<close> \<open>SleepUsec\<close> hands to \<open>nanosleep\<close>.\<close>

definition current_thread_SleepUsec :: "int \<Rightarrow> int \<times> int" where
  "current_thread_SleepUsec usec =
     (cdiv usec kmicro_seconds_per_second, Prelude.cmod usec kmicro_seconds_per_second * 1000)"

lemma Tid_after_fork:
  assumes "gettid \<noteq> 0"
  shows "fst (current_thread_Tid g (AfterFork gettid t)) = gettid"
    and "fst (current_thread_Tid g (snd (current_thread_Tid gettid t))) = fst (current_thread_Tid gettid t)"
  using assms by (auto simp: AfterFork_def current_thread_Tid_def current_thread_CacheTid_def Let_def)

section \<open>Thread\<close>

record thread =
  th_started :: bool
  th_joined :: bool
  th_detached :: bool
  th_tid :: int
  th_name :: string
  th_latch :: latch

definition Thread_SetDefaultName :: "32 word \<Rightarrow> thread \<Rightarrow> 32 word \<times> thread" where
  "Thread_SetDefaultName num_created t =
     (case AtomicInteger_IncrementAndGet num_created of (num, num_created) \<Rightarrow>
        (num_created,
         if th_name t = '''' then t\<lparr>th_name := snprintf_buf 32 (''Thread'' @ int_dec (sint num))\<rparr> else t))"

definition Thread_new :: "string \<Rightarrow> 32 word \<Rightarrow> 32 word \<times> thread" where
  "Thread_new name num_created =
     Thread_SetDefaultName num_created
       \<lparr>th_started = False, th_joined = False, th_detached = False, th_tid = 0, th_name = name,
        th_latch = CountDownLatch_new 1\<rparr>"

definition Thread_destroy :: "thread \<Rightarrow> thread" where
  "Thread_destroy t = (if th_started t \<and> \<not> th_joined t then t\<lparr>th_detached := True\<rparr> else t)"

text \<open>
  \<open>Start\<close> up to the return of \<open>pthread_create\<close>, which is \<open>created\<close>; a failure logs a fatal message and aborts.
\<close>

definition Thread_Start_create :: "bool \<Rightarrow> thread \<Rightarrow> thread result" where
  "Thread_Start_create created t =
     c_assert (\<not> th_started t)
       (if created then Inr (t\<lparr>th_started := True\<rparr>) else Inl Log_fatal)"

text \<open>What the new thread does first: \<open>*tid_ = Tid()\<close>, then the latch.\<close>

definition RunInThread_tid :: "int \<Rightarrow> thread \<Rightarrow> thread" where
  "RunInThread_tid gettid t = t\<lparr>th_tid := fst (current_thread_Tid gettid current_thread_init)\<rparr>"

definition RunInThread_latch :: "thread \<Rightarrow> thread" where
  "RunInThread_latch t = t\<lparr>th_latch := CountDownLatch_CountDown (th_latch t)\<rparr>"

text \<open>
  The name of the new thread while its function runs and after it, and whether the process goes on:
  an exception of a known type aborts, any other is thrown again.
\<close>

datatype func_end = Func_returns | Func_throws_known | Func_throws_unknown

definition ThreadData_RunInThread :: "string \<Rightarrow> func_end \<Rightarrow> string list \<times> bool" where
  "ThreadData_RunInThread name e =
     ([if name = '''' then ''dwaterThread'' else name,
       case e of Func_returns \<Rightarrow> ''finished'' | _ \<Rightarrow> ''crashed''], e = Func_returns)"

text \<open>\<open>Start\<close> after the latch let it through.\<close>

definition Thread_Start_return :: "thread \<Rightarrow> thread result" where
  "Thread_Start_return t = c_assert (0 < th_tid t) (Inr t)"

definition Thread_Join :: "thread \<Rightarrow> thread result" where
  "Thread_Join t = c_assert (th_started t) (c_assert (\<not> th_joined t) (Inr (t\<lparr>th_joined := True\<rparr>)))"

text \<open>
  The caller of \<open>Start\<close> (thread 0 for the latch) and the thread it makes, from the moment \<open>pthread_create\<close> has
  returned.
\<close>

datatype child_pc = Child_begins | Child_has_tid | Child_released

inductive start_reach :: "int \<Rightarrow> thread \<Rightarrow> child_pc \<Rightarrow> thread \<Rightarrow> bool" for gettid t0 where
  created: "Thread_Start_create True t0 = Inr t \<Longrightarrow>
    start_reach gettid t0 Child_begins (t\<lparr>th_latch := (th_latch t)\<lparr>la_testing := add_mset 0 (la_testing (th_latch t))\<rparr>\<rparr>)"
| writes_tid: "start_reach gettid t0 Child_begins t \<Longrightarrow> start_reach gettid t0 Child_has_tid (RunInThread_tid gettid t)"
| counts_down: "start_reach gettid t0 Child_has_tid t \<Longrightarrow> start_reach gettid t0 Child_released (RunInThread_latch t)"
| caller_tests: "start_reach gettid t0 pc t \<Longrightarrow> 0 \<in># la_testing (th_latch t) \<Longrightarrow>
    start_reach gettid t0 pc (t\<lparr>th_latch := CountDownLatch_Wait 0 (th_latch t)\<rparr>)"
| caller_spurious: "start_reach gettid t0 pc t \<Longrightarrow> 0 \<in># la_waiting (th_latch t) \<Longrightarrow>
    start_reach gettid t0 pc (t\<lparr>th_latch := (th_latch t)\<lparr>la_waiting := la_waiting (th_latch t) - {#0#},
      la_testing := add_mset 0 (la_testing (th_latch t))\<rparr>\<rparr>)"

lemma start_latch:
  assumes "start_reach gettid t0 pc t" and "t0 = snd (Thread_new name n)" and "gettid \<noteq> 0"
  shows "la_count (th_latch t) = (if pc = Child_released then 0 else 1) \<and>
    (pc = Child_begins \<or> th_tid t = gettid) \<and> (pc = Child_released \<or> la_returned (th_latch t) = {#}) \<and>
    (pc = Child_released \<longrightarrow> la_waiting (th_latch t) = {#}) \<and>
    la_testing (th_latch t) + la_waiting (th_latch t) + la_returned (th_latch t) = {#0#} \<and> th_started t"
  using assms(1)
proof (induction rule: start_reach.induct)
  case (created t)
  then show ?case
    using assms(2) by (auto simp: Thread_Start_create_def Thread_new_def Thread_SetDefaultName_def res_simps
        CountDownLatch_new_def split: prod.splits if_splits)
next
  case (writes_tid t)
  then show ?case using assms(3)
    by (auto simp: RunInThread_tid_def current_thread_Tid_def current_thread_CacheTid_def current_thread_init_def Let_def)
next
  case (counts_down t)
  then show ?case by (auto simp: RunInThread_latch_def CountDownLatch_CountDown_def latch_notify_all_def Let_def)
next
  case (caller_tests pc t)
  then show ?case by (auto simp: CountDownLatch_Wait_def)
next
  case (caller_spurious pc t)
  then show ?case by auto
qed

text \<open>\<open>Thread::Start\<close> publishes the thread id whatever the interleaving with the new thread and whatever
  spurious wake-ups: when the wait on the latch has returned, \<open>tid_\<close> is the id the new thread read and the assert
  after it holds, so that \<open>Join\<close> succeeds once; and after the new thread has taken the latch down the caller does not
  wait.\<close>

theorem thread_start_correct:
  assumes "start_reach gettid (snd (Thread_new name n)) pc t" and "0 < gettid"
  shows "(la_returned (th_latch t) = {#} \<or>
      Thread_Start_return t = Inr t \<and> th_tid t = gettid \<and> ok (Thread_Join t) = (\<not> th_joined t)) \<and>
    (pc = Child_begins \<or> pc = Child_has_tid \<or> la_waiting (th_latch t) = {#})"
  using start_latch [OF assms(1) refl] assms(2)
  by (cases pc) (auto simp: Thread_Start_return_def Thread_Join_def c_assert_def)

theorem thread_start_correct_witness:
  "\<exists>t :: thread. la_returned (th_latch t) = {#0#} \<and> Thread_Start_return t = Inr t \<and> th_tid t = 42 \<and> ok (Thread_Join t)"
proof -
  let ?init = "snd (Thread_new ''worker'' 0)"
  let ?l = "\<lparr>la_count = 1, la_testing = {#0#}, la_waiting = {#}, la_returned = {#}, la_downs = 0\<rparr>"
  let ?t = "\<lparr>th_started = True, th_joined = False, th_detached = False, th_tid = 42, th_name = ''worker'',
    th_latch = \<lparr>la_count = 0, la_testing = {#}, la_waiting = {#}, la_returned = {#0#}, la_downs = 1\<rparr>\<rparr>"
  note fun_defs = Thread_new_def Thread_SetDefaultName_def CountDownLatch_new_def RunInThread_tid_def RunInThread_latch_def
    CountDownLatch_CountDown_def CountDownLatch_Wait_def latch_notify_all_def current_thread_Tid_def
    current_thread_CacheTid_def current_thread_init_def Thread_Start_create_def AtomicInteger_IncrementAndGet_def
    AtomicInteger_AddAndGet_def AtomicInteger_GetAndAdd_def
  have "start_reach 42 ?init Child_begins
      \<lparr>th_started = True, th_joined = False, th_detached = False, th_tid = 0, th_name = ''worker'', th_latch = ?l\<rparr>"
    using start_reach.created [of ?init "?init\<lparr>th_started := True\<rparr>" 42] by (simp add: fun_defs)
  from start_reach.counts_down [OF start_reach.writes_tid [OF this]] have "start_reach 42 ?init Child_released ?t"
    using start_reach.caller_tests [of 42 ?init Child_released] by (fastforce simp: fun_defs)
  from thread_start_correct [OF this] show ?thesis by (intro exI [of _ ?t]) simp
qed

section \<open>EventLoopThread\<close>

text \<open>
  \<open>lt_loop\<close> is the member \<open>loop_\<close>: the address of the loop on the new thread's stack, or \<open>NULL\<close>. The phases say where
  the caller of \<open>StartLoop\<close> and the new thread are.
\<close>

datatype caller_pc = Caller_outside | Caller_tests | Caller_waits | Caller_has nat
datatype func_pc = Func_not_started | Func_sets_up | Func_in_loop | Func_after_loop | Func_finished

record loop_thread =
  lt_loop :: "nat option"
  lt_exiting :: bool
  lt_caller :: caller_pc
  lt_func :: func_pc

definition EventLoopThread_new :: loop_thread where
  "EventLoopThread_new = \<lparr>lt_loop = None, lt_exiting = False, lt_caller = Caller_outside, lt_func = Func_not_started\<rparr>"

text \<open>\<open>StartLoop\<close> up to the return of \<open>thread_.Start()\<close>.\<close>

definition EventLoopThread_StartLoop_start :: "loop_thread \<Rightarrow> loop_thread result" where
  "EventLoopThread_StartLoop_start s =
     c_assert (lt_func s = Func_not_started) (Inr (s\<lparr>lt_caller := Caller_tests, lt_func := Func_sets_up\<rparr>))"

text \<open>One test of the loop of \<open>StartLoop\<close>.\<close>

definition EventLoopThread_StartLoop :: "loop_thread \<Rightarrow> loop_thread" where
  "EventLoopThread_StartLoop s =
     (case lt_loop s of None \<Rightarrow> s\<lparr>lt_caller := Caller_waits\<rparr> | Some loop \<Rightarrow> s\<lparr>lt_caller := Caller_has loop\<rparr>)"

text \<open>The two critical sections of \<open>ThreadFunc\<close>, before and after \<open>loop.Loop()\<close>; the first notifies.\<close>

definition EventLoopThread_ThreadFunc_publish :: "nat \<Rightarrow> loop_thread \<Rightarrow> loop_thread" where
  "EventLoopThread_ThreadFunc_publish loop s =
     s\<lparr>lt_loop := Some loop, lt_func := Func_in_loop,
       lt_caller := (if lt_caller s = Caller_waits then Caller_tests else lt_caller s)\<rparr>"

definition EventLoopThread_ThreadFunc_clear :: "loop_thread \<Rightarrow> loop_thread" where
  "EventLoopThread_ThreadFunc_clear s = s\<lparr>lt_loop := None, lt_func := Func_finished\<rparr>"

text \<open>The destructor: whether it calls \<open>Quit\<close> and joins.\<close>

definition EventLoopThread_destroy :: "loop_thread \<Rightarrow> bool \<times> loop_thread" where
  "EventLoopThread_destroy s = (lt_loop s \<noteq> None, s\<lparr>lt_exiting := True\<rparr>)"

inductive loop_thread_reach :: "nat \<Rightarrow> loop_thread \<Rightarrow> bool" for loop where
  lt_new: "loop_thread_reach loop EventLoopThread_new"
| lt_starts: "loop_thread_reach loop s \<Longrightarrow> lt_caller s = Caller_outside \<Longrightarrow>
    EventLoopThread_StartLoop_start s = Inr s' \<Longrightarrow> loop_thread_reach loop s'"
| lt_tests: "loop_thread_reach loop s \<Longrightarrow> lt_caller s = Caller_tests \<Longrightarrow> loop_thread_reach loop (EventLoopThread_StartLoop s)"
| lt_spurious: "loop_thread_reach loop s \<Longrightarrow> lt_caller s = Caller_waits \<Longrightarrow> loop_thread_reach loop (s\<lparr>lt_caller := Caller_tests\<rparr>)"
| lt_publishes: "loop_thread_reach loop s \<Longrightarrow> lt_func s = Func_sets_up \<Longrightarrow>
    loop_thread_reach loop (EventLoopThread_ThreadFunc_publish loop s)"
| lt_loop_ends: "loop_thread_reach loop s \<Longrightarrow> lt_func s = Func_in_loop \<Longrightarrow> loop_thread_reach loop (s\<lparr>lt_func := Func_after_loop\<rparr>)"
| lt_clears: "loop_thread_reach loop s \<Longrightarrow> lt_func s = Func_after_loop \<Longrightarrow>
    loop_thread_reach loop (EventLoopThread_ThreadFunc_clear s)"

text \<open>\<open>EventLoopThread::StartLoop\<close> returns only the loop of the new thread, and as long as that loop runs its
  caller does not wait: at its next test it has the loop, and the destructor then quits it and joins.\<close>

theorem start_loop_correct:
  assumes "loop_thread_reach loop s"
  shows "(case lt_caller s of Caller_has l \<Rightarrow> l = loop | Caller_outside \<Rightarrow> ok (EventLoopThread_StartLoop_start s)
     | Caller_waits \<Rightarrow> lt_func s = Func_sets_up \<or> lt_func s = Func_finished
     | Caller_tests \<Rightarrow> (if lt_func s = Func_in_loop then lt_caller (EventLoopThread_StartLoop s) = Caller_has loop else True)) \<and>
    fst (EventLoopThread_destroy s) = (lt_func s = Func_in_loop \<or> lt_func s = Func_after_loop)"
proof -
  have "(lt_loop s = (if lt_func s = Func_in_loop \<or> lt_func s = Func_after_loop then Some loop else None)) \<and>
    (lt_caller s = Caller_waits \<longrightarrow> lt_loop s = None) \<and> (\<forall>l. lt_caller s = Caller_has l \<longrightarrow> l = loop) \<and>
    (lt_caller s = Caller_outside \<longleftrightarrow> lt_func s = Func_not_started)"
    using assms
    by (induction rule: loop_thread_reach.induct)
      (auto simp: EventLoopThread_StartLoop_def EventLoopThread_ThreadFunc_publish_def
        EventLoopThread_new_def EventLoopThread_StartLoop_start_def res_simps EventLoopThread_ThreadFunc_clear_def split: if_splits option.splits)
  then show ?thesis
    by (cases "lt_func s") (auto simp: EventLoopThread_StartLoop_def EventLoopThread_destroy_def EventLoopThread_StartLoop_start_def
      split: caller_pc.splits)
qed

theorem start_loop_correct_witness:
  "\<exists>s. loop_thread_reach 7 s \<and> lt_caller s = Caller_tests \<and> lt_caller (EventLoopThread_StartLoop s) = Caller_has 7"
proof -
  let ?s = "\<lparr>lt_loop = Some 7, lt_exiting = False, lt_caller = Caller_tests, lt_func = Func_in_loop\<rparr>"
  have "loop_thread_reach 7 \<lparr>lt_loop = None, lt_exiting = False, lt_caller = Caller_tests, lt_func = Func_sets_up\<rparr>"
    by (rule lt_starts [OF lt_new]) (simp_all add: EventLoopThread_new_def EventLoopThread_StartLoop_start_def)
  from lt_publishes [OF this] have "loop_thread_reach 7 ?s" by (simp add: EventLoopThread_ThreadFunc_publish_def)
  with start_loop_correct [OF this] show ?thesis by (intro exI [of _ ?s]) simp
qed

end
