(* ===== verification/Logging.thy ===== *)
theory Logging
  imports LogFile Threads
begin

text \<open>
  \<open>dwater/base/logging.h\<close> and \<open>logging.cc\<close>: the logger behind the \<open>LOG_\<close> macros. A statement builds a line in the buffer of
  a temporary \<open>Logger\<close> (time, thread id, level, the text of an error number, the message, source file and line), and the
  destructor gives it to \<open>g_output\<close>. \<open>log_state\<close> has the globals, what was put out, and the variables of the one thread
  looked at. The constructor of \<open>Impl\<close> does not initialise \<open>level_\<close>: the value its memory happens to hold is part of the
  statement. \<open>strerror_r\<close> is an argument.
\<close>

section \<open>Levels and source files\<close>

datatype log_level = TRACE | DEBUG | INFO | WARN | ERROR | FATAL

fun level_number :: "log_level \<Rightarrow> nat" where
  "level_number TRACE = 0" | "level_number DEBUG = 1" | "level_number INFO = 2"
| "level_number WARN = 3" | "level_number ERROR = 4" | "level_number FATAL = 5"

fun LogLevelName :: "log_level \<Rightarrow> string" where
  "LogLevelName TRACE = ''TRACE ''" | "LogLevelName DEBUG = ''DEBUG ''" | "LogLevelName INFO = ''INFO  ''"
| "LogLevelName WARN = ''WARN  ''" | "LogLevelName ERROR = ''ERROR ''" | "LogLevelName FATAL = ''FATAL ''"

text \<open>\<open>getenv\<close>: which variables are set.\<close>

definition InitLogLevel :: "(string \<Rightarrow> bool) \<Rightarrow> log_level" where
  "InitLogLevel getenv =
     (if getenv ''DWATER_LOG_TRACE'' then TRACE else if getenv ''DWATER_LOG_DEBUG'' then DEBUG else INFO)"

text \<open>\<open>sf_size\<close> is \<open>None\<close> when the constructor leaves it uninitialised.\<close>

record source_file =
  sf_data :: string
  sf_size :: "int option"

definition strchr :: "char \<Rightarrow> string \<Rightarrow> nat option" where
  "strchr c s = (let n = length (takeWhile (\<lambda>x. x \<noteq> c) s) in if n < length s then Some n else None)"

definition SourceFile_array :: "string \<Rightarrow> source_file" where
  "SourceFile_array arr =
     (case strchr (CHR ''/'') arr of
        Some slash \<Rightarrow> \<lparr>sf_data = drop (slash + 1) arr, sf_size = Some (int (length arr) - int (slash + 1))\<rparr>
      | None \<Rightarrow> \<lparr>sf_data = arr, sf_size = Some (int (length arr))\<rparr>)"

definition SourceFile_name :: "string \<Rightarrow> source_file" where
  "SourceFile_name filename =
     (case strchr (CHR ''/'') filename of
        Some slash \<Rightarrow> \<lparr>sf_data = drop (slash + 1) filename, sf_size = None\<rparr>
      | None \<Rightarrow> \<lparr>sf_data = filename, sf_size = Some (int (length filename))\<rparr>)"

section \<open>The logger\<close>

record log_state =
  g_log_level :: log_level
  g_log_timezone :: time_zone
  g_output :: "string list"
  g_flushes :: nat
  g_aborted :: bool
  t_time :: string
  t_last_second :: int
  t_thread :: current_thread

record impl =
  im_time :: timestamp
  im_stream :: fixed_buffer
  im_level :: log_level
  im_line :: int
  im_basename :: source_file

text \<open>\<open>T\<close> checks that a text has the length it is said to have.\<close>

definition stream_T :: "string \<Rightarrow> nat \<Rightarrow> fixed_buffer \<Rightarrow> fixed_buffer result" where
  "stream_T str len b = c_assert (length str = len) (LogStream_Append str b)"

definition stream_SourceFile :: "source_file \<Rightarrow> fixed_buffer \<Rightarrow> fixed_buffer result" where
  "stream_SourceFile v b =
     (case sf_size v of None \<Rightarrow> Inl Bad_access
      | Some n \<Rightarrow> if n < 0 \<or> int (length (sf_data v)) < n then Inl Bad_access
                  else LogStream_Append (take (nat n) (sf_data v)) b)"

definition time_fields :: "tm \<Rightarrow> string" where
  "time_fields tm =
     int_decw 4 (tm_year tm + 1900) @ int_dec0 2 (tm_mon tm + 1) @ int_dec0 2 (tm_mday tm) @ '' '' @
     int_dec0 2 (tm_hour tm) @ '':'' @ int_dec0 2 (tm_min tm) @ '':'' @ int_dec0 2 (tm_sec tm)"

text \<open>The text of the second is kept for the lines that follow in the same second.\<close>

definition cache_second :: "int \<Rightarrow> log_state \<Rightarrow> log_state result" where
  "cache_second seconds st =
     (if seconds \<noteq> t_last_second st
      then bindr (if TimeZone_valid (g_log_timezone st) then TimeZone_ToLocalTime seconds (g_log_timezone st)
                  else Inr (gmtime_r seconds)) (\<lambda>tm_time.
             c_assert (length (time_fields tm_time) = 17)
               (Inr (st\<lparr>t_last_second := seconds, t_time := snprintf_buf 64 (time_fields tm_time)\<rparr>)))
      else Inr st)"

definition Impl_FormatTime :: "log_state \<Rightarrow> impl \<Rightarrow> (log_state \<times> impl) result" where
  "Impl_FormatTime st im =
     (let us = MicroSecondsSinceEpoch (im_time im);
          seconds = cdiv us kmicro_seconds_per_second; micro_seconds = Prelude.cmod us kmicro_seconds_per_second
      in bindr (cache_second seconds st) (\<lambda>st.
         bindr (Format_new (''.'' @ int_dec0 6 micro_seconds @ ''Z '')) (\<lambda>us.
         let n = (if TimeZone_valid (g_log_timezone st) then 8 else 9)
         in c_assert (length us = n)
              (bindr (bindr (stream_T (t_time st) 17 (im_stream im)) (stream_T us n)) (\<lambda>b.
                 Inr (st, im\<lparr>im_stream := b\<rparr>))))))"

text \<open>
  What a statement brings with it: macro, source position, message, the clock, \<open>errno\<close>, the thread id of the kernel and
  the memory the \<open>Logger\<close> is built in.
\<close>

datatype log_macro = LOG_TRACE | LOG_DEBUG | LOG_INFO | LOG_WARN | LOG_ERROR | LOG_FATAL | LOG_SYSERR | LOG_SYSFATAL

record log_statement =
  ls_macro :: log_macro
  ls_file :: string
  ls_func :: string
  ls_line :: int
  ls_message :: "string list"
  ls_now :: timestamp
  ls_errno :: int
  ls_gettid :: int
  ls_mem_level :: log_level
  ls_mem_buffer :: "char list"

definition stream_errno :: "(int \<Rightarrow> string) \<Rightarrow> int \<Rightarrow> fixed_buffer \<Rightarrow> fixed_buffer result" where
  "stream_errno strerror_tl saved_errno b =
     (if saved_errno \<noteq> 0
      then bindr (bindr (bindr (LogStream_cstr (Some (strerror_tl saved_errno)) b) (LogStream_cstr (Some '' (errno = '')))
             (LogStream_FormatInteger saved_errno)) (LogStream_cstr (Some '') ''))
      else Inr b)"

definition Impl_new ::
  "(int \<Rightarrow> string) \<Rightarrow> log_statement \<Rightarrow> log_level \<Rightarrow> int \<Rightarrow> source_file \<Rightarrow> int \<Rightarrow> log_state \<Rightarrow> (log_state \<times> impl) result" where
  "Impl_new strerror_tl ls level saved_errno file line st =
     bindr (Impl_FormatTime st
        \<lparr>im_time = ls_now ls, im_stream = FixedBuffer_new (ls_mem_buffer ls), im_level = ls_mem_level ls, im_line = line,
         im_basename = file\<rparr>) (\<lambda>(st, im).
     let st = st\<lparr>t_thread := snd (current_thread_Tid (ls_gettid ls) (t_thread st))\<rparr>
     in bindr (bindr (stream_T (t_tid_string (t_thread st)) (t_tid_string_length (t_thread st)) (im_stream im))
               (stream_T (LogLevelName level) 6)) (\<lambda>b.
        bindr (stream_errno strerror_tl saved_errno b) (\<lambda>b. Inr (st, im\<lparr>im_stream := b\<rparr>))))"

definition Impl_Finish :: "impl \<Rightarrow> impl result" where
  "Impl_Finish im =
     bindr (bindr (bindr (bindr (bindr (LogStream_cstr (Some '' - '') (im_stream im)) (stream_SourceFile (im_basename im)))
        (LogStream_char (CHR '':''))) (LogStream_FormatInteger (im_line im))) (LogStream_char (CHR 0x0A)))
       (\<lambda>b. Inr (im\<lparr>im_stream := b\<rparr>))"

text \<open>The four constructors.\<close>

definition Logger_info :: "(int \<Rightarrow> string) \<Rightarrow> log_statement \<Rightarrow> log_state \<Rightarrow> (log_state \<times> impl) result" where
  "Logger_info strerror_tl ls = Impl_new strerror_tl ls INFO 0 (SourceFile_array (ls_file ls)) (ls_line ls)"

definition Logger_func :: "(int \<Rightarrow> string) \<Rightarrow> log_statement \<Rightarrow> log_level \<Rightarrow> log_state \<Rightarrow> (log_state \<times> impl) result" where
  "Logger_func strerror_tl ls level st =
     bindr (Impl_new strerror_tl ls level 0 (SourceFile_array (ls_file ls)) (ls_line ls) st) (\<lambda>(st, im).
     bindr (bindr (LogStream_cstr (Some (ls_func ls)) (im_stream im)) (LogStream_char (CHR '' ''))) (\<lambda>b.
       Inr (st, im\<lparr>im_stream := b\<rparr>)))"

definition Logger_level :: "(int \<Rightarrow> string) \<Rightarrow> log_statement \<Rightarrow> log_level \<Rightarrow> log_state \<Rightarrow> (log_state \<times> impl) result" where
  "Logger_level strerror_tl ls level = Impl_new strerror_tl ls level 0 (SourceFile_array (ls_file ls)) (ls_line ls)"

definition Logger_errno :: "(int \<Rightarrow> string) \<Rightarrow> log_statement \<Rightarrow> bool \<Rightarrow> log_state \<Rightarrow> (log_state \<times> impl) result" where
  "Logger_errno strerror_tl ls to_abort =
     Impl_new strerror_tl ls (if to_abort then FATAL else ERROR) (ls_errno ls) (SourceFile_array (ls_file ls)) (ls_line ls)"

definition Logger_destroy :: "log_state \<Rightarrow> impl \<Rightarrow> log_state result" where
  "Logger_destroy st im =
     bindr (Impl_Finish im) (\<lambda>im.
     bindr (FixedBuffer_ToString (im_stream im)) (\<lambda>text.
       let st = st\<lparr>g_output := g_output st @ [text]\<rparr>
       in Inr (if im_level im = FATAL then st\<lparr>g_flushes := g_flushes st + 1, g_aborted := True\<rparr> else st)))"

definition Logger_SetLogLevel :: "log_level \<Rightarrow> log_state \<Rightarrow> log_state" where
  "Logger_SetLogLevel level st = st\<lparr>g_log_level := level\<rparr>"

definition Logger_SetTimeZone :: "time_zone \<Rightarrow> log_state \<Rightarrow> log_state" where
  "Logger_SetTimeZone tz st = st\<lparr>g_log_timezone := tz\<rparr>"

section \<open>The macros\<close>

fun macro_enabled :: "log_level \<Rightarrow> log_macro \<Rightarrow> bool" where
  "macro_enabled g LOG_TRACE = (level_number g \<le> level_number TRACE)"
| "macro_enabled g LOG_DEBUG = (level_number g \<le> level_number DEBUG)"
| "macro_enabled g LOG_INFO = (level_number g \<le> level_number INFO)"
| "macro_enabled g _ = True"

fun macro_logger :: "log_macro \<Rightarrow> (int \<Rightarrow> string) \<Rightarrow> log_statement \<Rightarrow> log_state \<Rightarrow> (log_state \<times> impl) result" where
  "macro_logger LOG_TRACE strerror_tl ls = Logger_func strerror_tl ls TRACE"
| "macro_logger LOG_DEBUG strerror_tl ls = Logger_func strerror_tl ls DEBUG"
| "macro_logger LOG_INFO strerror_tl ls = Logger_info strerror_tl ls"
| "macro_logger LOG_WARN strerror_tl ls = Logger_level strerror_tl ls WARN"
| "macro_logger LOG_ERROR strerror_tl ls = Logger_level strerror_tl ls ERROR"
| "macro_logger LOG_FATAL strerror_tl ls = Logger_level strerror_tl ls FATAL"
| "macro_logger LOG_SYSERR strerror_tl ls = Logger_errno strerror_tl ls False"
| "macro_logger LOG_SYSFATAL strerror_tl ls = Logger_errno strerror_tl ls True"

text \<open>A whole statement: the temporary is made, the message inserted, the temporary destroyed.\<close>

definition log_statement_run :: "(int \<Rightarrow> string) \<Rightarrow> log_statement \<Rightarrow> log_state \<Rightarrow> log_state result" where
  "log_statement_run strerror_tl ls st =
     (if macro_enabled (g_log_level st) (ls_macro ls)
      then bindr (macro_logger (ls_macro ls) strerror_tl ls st) (\<lambda>(st, im).
             bindr (stream_all (ls_message ls) (im_stream im)) (\<lambda>b. Logger_destroy st (im\<lparr>im_stream := b\<rparr>)))
      else Inr st)"

text \<open>Statements one after the other, until one aborts the process.\<close>

fun log_statements_run :: "(int \<Rightarrow> string) \<Rightarrow> log_statement list \<Rightarrow> log_state \<Rightarrow> log_state result" where
  "log_statements_run strerror_tl [] st = Inr st"
| "log_statements_run strerror_tl (ls # stmts) st =
     (if g_aborted st then Inr st else bindr (log_statement_run strerror_tl ls st) (log_statements_run strerror_tl stmts))"

text \<open>\<open>CheckNotNull\<close>, on a pointer that is \<open>None\<close> when null.\<close>

definition CheckNotNull ::
  "(int \<Rightarrow> string) \<Rightarrow> log_statement \<Rightarrow> string \<Rightarrow> 'a option \<Rightarrow> log_state \<Rightarrow> ('a option \<times> log_state) result" where
  "CheckNotNull strerror_tl ls names ptr st =
     (if ptr = None
      then bindr (Logger_level strerror_tl ls FATAL st) (\<lambda>(st, im).
             bindr (LogStream_cstr (Some names) (im_stream im)) (\<lambda>b.
             bindr (Logger_destroy st (im\<lparr>im_stream := b\<rparr>)) (\<lambda>st. Inr (ptr, st))))
      else Inr (ptr, st))"

section \<open>Timestamps as text\<close>

definition Timestamp_ToFormattedString :: "bool \<Rightarrow> timestamp \<Rightarrow> string" where
  "Timestamp_ToFormattedString show_microseconds t =
     (let us = MicroSecondsSinceEpoch t; tm_time = gmtime_r (cdiv us kmicro_seconds_per_second)
      in if show_microseconds
         then snprintf_buf 64 (time_fields tm_time @ ''.'' @ int_dec0 6 (Prelude.cmod us kmicro_seconds_per_second))
         else snprintf_buf 64 (time_fields tm_time))"

section \<open>Lemmas\<close>

text \<open>An operation that appends a text to a line with room for it and for one more character.\<close>

definition appends :: "string \<Rightarrow> (fixed_buffer \<Rightarrow> fixed_buffer result) \<Rightarrow> bool" where
  "appends xs f \<longleftrightarrow> (\<forall>b. length (fb_data b) = k_small_buffer \<and> fb_curr b + length xs < k_small_buffer \<longrightarrow>
     (\<exists>b'. f b = Inr b' \<and> length (fb_data b') = k_small_buffer \<and> fb_curr b' = fb_curr b + length xs \<and> held b' = held b @ xs))"

named_theorems appends_intros

lemma appends_bind [appends_intros]: "appends xs f \<Longrightarrow> appends ys g \<Longrightarrow> appends (xs @ ys) (\<lambda>b. bindr (f b) g)"
  unfolding appends_def by (fastforce simp: add.assoc)

lemma appends_Append [appends_intros]: "appends xs (FixedBuffer_Append xs)"
  unfolding appends_def
proof (intro allI impI)
  fix b :: fixed_buffer assume "length (fb_data b) = k_small_buffer \<and> fb_curr b + length xs < k_small_buffer"
  with Append_fits [of xs b] show "\<exists>b'. FixedBuffer_Append xs b = Inr b' \<and> length (fb_data b') = k_small_buffer \<and>
      fb_curr b' = fb_curr b + length xs \<and> held b' = held b @ xs"
    by auto
qed

lemma appends_stream [appends_intros]:
  "appends xs (LogStream_Append xs)" "appends xs (LogStream_cstr (Some xs))" "appends [c] (LogStream_char c)"
  using appends_Append by (simp_all add: LogStream_Append_def [abs_def] LogStream_cstr_def [abs_def] LogStream_char_def [abs_def])

lemma appends_T [appends_intros]: "length xs = n \<Longrightarrow> appends xs (stream_T xs n)"
  using appends_stream(1) by (simp add: stream_T_def [abs_def])

lemma appends_return [appends_intros]: "appends [] Inr"
  by (simp add: appends_def)

lemma appends_int [appends_intros]:
  assumes "- (2 ^ 63) \<le> v" "v < 2 ^ 64"
  shows "appends (int_dec v) (LogStream_FormatInteger v)"
  unfolding appends_def
proof safe
  fix b :: fixed_buffer assume b: "length (fb_data b) = k_small_buffer" "fb_curr b + length (int_dec v) < k_small_buffer"
  then obtain b1 where b1: "store_at (fb_curr b) (int_dec v @ [CHR 0x00]) b = Inr b1" by (simp add: store_at_def)
  from store_held [OF this] b b1
  show "\<exists>b'. LogStream_FormatInteger v b = Inr b' \<and> length (fb_data b') = k_small_buffer \<and>
      fb_curr b' = fb_curr b + length (int_dec v) \<and> held b' = held b @ int_dec v"
    by (simp add: Convert_decimal LogStream_FormatInteger_def FixedBuffer_Avail_def k_max_numeric_size_def k_small_buffer_def
        FixedBuffer_Add_def)
qed

lemma appends_all [appends_intros]: "appends (concat ss) (stream_all ss)"
proof (induction ss)
  case Nil
  show ?case by (simp add: appends_def)
next
  case (Cons s ss)
  have "appends s (LogStream_string s)" using appends_Append by (simp add: LogStream_string_def [abs_def])
  from appends_bind [OF this Cons] show ?case by simp
qed

lemma strchr_Some:
  "strchr c s = Some i \<Longrightarrow> i < length s"
  by (auto simp: strchr_def Let_def split: if_splits)

lemma appends_SourceFile [appends_intros]: "appends (sf_data (SourceFile_array f)) (stream_SourceFile (SourceFile_array f))"
  using appends_stream(1) strchr_Some [of "CHR ''/''" f]
  by (auto simp: SourceFile_array_def stream_SourceFile_def [abs_def] split: option.splits)

subsection \<open>The width of the time\<close>

lemma int_dec0_width:
  assumes "0 \<le> i" "i < 10 ^ w" "0 < w"
  shows "length (int_dec0 w i) = w"
proof -
  have "length (nat_dec (nat i)) \<le> w" using assms by (intro nat_dec_length) (auto simp: nat_less_iff)
  with assms show ?thesis by (simp add: int_dec0_def pad_left_def)
qed

lemma int_decw_width:
  assumes "0 \<le> i" "i < 10 ^ w" "0 < w"
  shows "length (int_decw w i) = w"
proof -
  have "length (nat_dec (nat i)) \<le> w" using assms by (intro nat_dec_length) (auto simp: nat_less_iff)
  with assms show ?thesis by (simp add: int_decw_def int_dec_def pad_left_def)
qed

text \<open>From 1970 until the end of 9998.\<close>

definition loggable :: "int \<Rightarrow> bool" where
  "loggable s \<longleftrightarrow> 0 < s \<and> s < 253370764800"

lemma year_bounds:
  assumes "0 \<le> s" "s < 253370764800"
  shows "0 \<le> tm_year (gmtime_r s) + 1900" "tm_year (gmtime_r s) + 1900 \<le> 9999"
proof -
  define x where "x = GetYearMonthDay (s div kseconds_per_day + kjulian_day_of_19700101)"
  note F = ToUtcTime_fields [of s "TimeZone_ToUtcTime s True" True x, OF _ _ refl x_def]
  have v: "valid_ymd x" and j: "julian x = s div kseconds_per_day + kjulian_day_of_19700101" using F(7,8) assms by auto
  define y e where "y = march_year (ymd_year x) (ymd_month x)" and "e = march_day (ymd_month x) (ymd_day x)"
  have eq: "julian x + 32044 = e + y * 365 + y div 4 - y div 100 + y div 400"
    unfolding y_def e_def by (rule julian_valid [OF v])
  have "day_of_year y e" unfolding y_def e_def using month_recovered(2) [OF valid_march(1-4) [OF v]] .
  then have e: "0 \<le> e" "e \<le> 365" by (auto simp: day_of_year_def)
  have "0 \<le> s div kseconds_per_day" "s div kseconds_per_day \<le> 2932532"
    using assms zdiv_mono1 [of s 253370764799 86400] by (simp_all add: kseconds_per_day_def)
  then have "2440588 + 32044 \<le> e + y * 365 + y div 4 - y div 100 + y div 400"
    "e + y * 365 + y div 4 - y div 100 + y div 400 \<le> 2440588 + 32044 + 2932532"
    using eq j julian_1970 by auto
  moreover have "4 * (y div 4) \<le> y" "y < 4 * (y div 4) + 4" "100 * (y div 100) \<le> y" "y < 100 * (y div 100) + 100"
    "400 * (y div 400) \<le> y" "y < 400 * (y div 400) + 400"
    by presburger+
  ultimately have "4800 \<le> y" "y \<le> 14798" using e by linarith+
  moreover have "ymd_year x = y - 4800 \<or> ymd_year x = y - 4799" by (auto simp: y_def march_year_def)
  moreover have "tm_year (gmtime_r s) + 1900 = ymd_year x" using F(1) assms by (simp add: gmtime_r_def)
  ultimately show "0 \<le> tm_year (gmtime_r s) + 1900" "tm_year (gmtime_r s) + 1900 \<le> 9999" by auto
qed

lemma time_fields_width:
  assumes "0 \<le> s" "s < 253370764800"
  shows "length (time_fields (gmtime_r s)) = 17"
proof -
  define x where "x = GetYearMonthDay (s div kseconds_per_day + kjulian_day_of_19700101)"
  note F = ToUtcTime_fields [of s "TimeZone_ToUtcTime s True" True x, OF _ _ refl x_def]
  let ?t = "gmtime_r s"
  have r: "0 \<le> s mod kseconds_per_day" "s mod kseconds_per_day < 86400" by (simp_all add: kseconds_per_day_def)
  have v: "valid_ymd x" using F(7) assms by auto
  have "month_length (ymd_year x) (ymd_month x) \<le> 31" by (simp add: month_length_def)
  then have "1 \<le> ymd_month x" "ymd_month x \<le> 12" "1 \<le> ymd_day x" "ymd_day x \<le> 31" using valid_march [OF v] by auto
  then have "0 \<le> tm_mon ?t + 1" "tm_mon ?t + 1 < 10 ^ 2" "0 \<le> tm_mday ?t" "tm_mday ?t < 10 ^ 2"
    using F(2,3) assms by (auto simp: gmtime_r_def)
  moreover have "tm_hour ?t = s mod kseconds_per_day div 60 div 60" "tm_min ?t = s mod kseconds_per_day div 60 mod 60"
    "tm_sec ?t = s mod kseconds_per_day mod 60"
    using F(4-6) assms by (simp_all add: gmtime_r_def)
  then have "0 \<le> tm_hour ?t \<and> tm_hour ?t < 24" "0 \<le> tm_min ?t \<and> tm_min ?t < 60" "0 \<le> tm_sec ?t \<and> tm_sec ?t < 60"
    using hms_back(2,3) [OF r] by (metis, metis pos_mod_bound pos_mod_sign zero_less_numeral, metis pos_mod_bound pos_mod_sign zero_less_numeral)
  then have "0 \<le> tm_hour ?t" "tm_hour ?t < 10 ^ 2" "0 \<le> tm_min ?t" "tm_min ?t < 10 ^ 2" "0 \<le> tm_sec ?t" "tm_sec ?t < 10 ^ 2"
    by auto
  ultimately have "length (int_dec0 2 (tm_mon ?t + 1)) = 2" "length (int_dec0 2 (tm_mday ?t)) = 2" "length (int_dec0 2 (tm_hour ?t)) = 2"
    "length (int_dec0 2 (tm_min ?t)) = 2" "length (int_dec0 2 (tm_sec ?t)) = 2"
    by (simp_all only: int_dec0_width zero_less_numeral)
  moreover have "length (int_decw 4 (tm_year ?t + 1900)) = 4"
    using year_bounds [OF assms] by (intro int_decw_width) auto
  ultimately show ?thesis by (simp add: time_fields_def del: One_nat_def)
qed
subsection \<open>The text of a line\<close>

definition statement_seconds :: "log_statement \<Rightarrow> int" where
  "statement_seconds ls = cdiv (MicroSecondsSinceEpoch (ls_now ls)) kmicro_seconds_per_second"

fun macro_level :: "log_macro \<Rightarrow> log_level" where
  "macro_level LOG_TRACE = TRACE" | "macro_level LOG_DEBUG = DEBUG" | "macro_level LOG_INFO = INFO"
| "macro_level LOG_WARN = WARN" | "macro_level LOG_ERROR = ERROR" | "macro_level LOG_FATAL = FATAL"
| "macro_level LOG_SYSERR = ERROR" | "macro_level LOG_SYSFATAL = FATAL"

definition stamp_text :: "log_statement \<Rightarrow> string" where
  "stamp_text ls = time_fields (gmtime_r (statement_seconds ls)) @
     ''.'' @ int_dec0 6 (Prelude.cmod (MicroSecondsSinceEpoch (ls_now ls)) kmicro_seconds_per_second) @ ''Z ''"

definition errno_text :: "(int \<Rightarrow> string) \<Rightarrow> int \<Rightarrow> string" where
  "errno_text strerror_tl n = (if n = 0 then '''' else strerror_tl n @ '' (errno = '' @ int_dec n @ '') '')"

definition head_text :: "(int \<Rightarrow> string) \<Rightarrow> log_statement \<Rightarrow> log_level \<Rightarrow> int \<Rightarrow> string" where
  "head_text strerror_tl ls level saved_errno =
     stamp_text ls @ int_decw 5 (ls_gettid ls) @ LogLevelName level @ errno_text strerror_tl saved_errno"

definition tail_text :: "log_statement \<Rightarrow> string" where
  "tail_text ls = '' - '' @ sf_data (SourceFile_array (ls_file ls)) @ '':'' @ int_dec (ls_line ls) @ [CHR 0x0A]"

definition line_text :: "(int \<Rightarrow> string) \<Rightarrow> log_statement \<Rightarrow> string" where
  "line_text strerror_tl ls =
     head_text strerror_tl ls (macro_level (ls_macro ls))
       (if ls_macro ls \<in> {LOG_SYSERR, LOG_SYSFATAL} then ls_errno ls else 0) @
     (if ls_macro ls \<in> {LOG_TRACE, LOG_DEBUG} then ls_func ls @ '' '' else '''') @ concat (ls_message ls) @ tail_text ls"

text \<open>Statements of one thread, made after 1970 and before 9999, whose line fits the buffer.\<close>

definition statement_ok :: "(int \<Rightarrow> string) \<Rightarrow> int \<Rightarrow> log_statement \<Rightarrow> bool" where
  "statement_ok strerror_tl tid ls \<longleftrightarrow>
     loggable (statement_seconds ls) \<and> ls_gettid ls = tid \<and> \<bar>ls_line ls\<bar> < 2 ^ 31 \<and> \<bar>ls_errno ls\<bar> < 2 ^ 31 \<and>
     length (ls_mem_buffer ls) = k_small_buffer \<and> ls_mem_level ls \<noteq> FATAL \<and> length (line_text strerror_tl ls) < k_small_buffer"

text \<open>What is kept from line to line: the text of the last second and of the thread id.\<close>

definition log_state_ok :: "int \<Rightarrow> log_state \<Rightarrow> bool" where
  "log_state_ok tid st \<longleftrightarrow>
     \<not> TimeZone_valid (g_log_timezone st) \<and> \<not> g_aborted st \<and>
     (t_last_second st = 0 \<or> loggable (t_last_second st) \<and> t_time st = time_fields (gmtime_r (t_last_second st))) \<and>
     (t_cached_tid (t_thread st) = 0 \<or>
      t_cached_tid (t_thread st) = tid \<and> t_tid_string (t_thread st) = int_decw 5 tid \<and>
      t_tid_string_length (t_thread st) = length (int_decw 5 tid))"

text \<open>A buffer that holds a text, and no more.\<close>

definition line_is :: "fixed_buffer \<Rightarrow> string \<Rightarrow> bool" where
  "line_is b text \<longleftrightarrow> length (fb_data b) = k_small_buffer \<and> fb_curr b = length text \<and> held b = text"

lemma appends_line:
  assumes "appends xs f" and "line_is b text" and "length text + length xs < k_small_buffer"
  shows "\<exists>b'. f b = Inr b' \<and> line_is b' (text @ xs)"
  using assms by (auto simp: appends_def line_is_def)

lemma cache_second_ok:
  assumes "log_state_ok tid st" and "loggable s"
  shows "cache_second s st = Inr (st\<lparr>t_last_second := s, t_time := time_fields (gmtime_r s)\<rparr>)"
proof (cases "s = t_last_second st")
  case True
  then have "t_time st = time_fields (gmtime_r s)" using assms by (auto simp: log_state_ok_def loggable_def)
  with True show ?thesis by (cases st) (simp add: cache_second_def)
next
  case False
  have "length (time_fields (gmtime_r s)) = 17" using assms(2) by (intro time_fields_width) (auto simp: loggable_def)
  with False assms(1) show ?thesis by (simp add: cache_second_def log_state_ok_def snprintf_buf_def)
qed

lemma micro_width: "length (int_dec0 6 (Prelude.cmod us kmicro_seconds_per_second)) = 6" if "0 \<le> us"
proof (rule int_dec0_width)
  have "0 \<le> Prelude.cmod us kmicro_seconds_per_second \<and> Prelude.cmod us kmicro_seconds_per_second < 1000000"
    using that by (simp add: Prelude.cmod_def cdiv_def kmicro_seconds_per_second_def minus_div_mult_eq_mod)
  then show "0 \<le> Prelude.cmod us kmicro_seconds_per_second" "Prelude.cmod us kmicro_seconds_per_second < 10 ^ 6" by simp_all
qed simp

lemma FormatTime_ok:
  assumes st: "log_state_ok tid st" and ls: "loggable (statement_seconds ls)" and im: "im_time im = ls_now ls"
    and b: "line_is (im_stream im) ''''"
  shows "\<exists>b. Impl_FormatTime st im =
      Inr (st\<lparr>t_last_second := statement_seconds ls, t_time := time_fields (gmtime_r (statement_seconds ls))\<rparr>, im\<lparr>im_stream := b\<rparr>) \<and>
    line_is b (stamp_text ls)"
proof -
  let ?us = "MicroSecondsSinceEpoch (ls_now ls)"
  let ?u = "''.'' @ int_dec0 6 (Prelude.cmod ?us kmicro_seconds_per_second) @ ''Z ''"
  let ?t = "time_fields (gmtime_r (statement_seconds ls))"
  have pos: "0 \<le> ?us" using ls by (auto simp: loggable_def statement_seconds_def cdiv_def kmicro_seconds_per_second_def split: if_splits)
  have t: "length ?t = 17" using ls by (intro time_fields_width) (auto simp: loggable_def)
  have u: "length ?u = 9" using micro_width [OF pos] by simp
  have "appends (?t @ ?u) (\<lambda>b. bindr (stream_T ?t 17 b) (stream_T ?u 9))" by (intro appends_intros t u)
  from appends_line [OF this b] t u obtain b' where
    b': "bindr (stream_T ?t 17 (im_stream im)) (stream_T ?u 9) = Inr b'" "line_is b' (?t @ ?u)"
    by (auto simp: k_small_buffer_def)
  with cache_second_ok [OF st ls] st u show ?thesis
    by (simp add: Impl_FormatTime_def im Let_def statement_seconds_def Format_new_def log_state_ok_def stamp_text_def
        exI [of _ b'])
qed
lemma Tid_text:
  assumes "log_state_ok tid st" and "tid \<noteq> 0" and "length (int_decw 5 tid) < 32"
  defines "th \<equiv> snd (current_thread_Tid tid (t_thread st))"
  shows "t_cached_tid th = tid" "t_tid_string th = int_decw 5 tid" "t_tid_string_length th = length (int_decw 5 tid)"
  using assms
  by (auto simp: log_state_ok_def current_thread_Tid_def current_thread_CacheTid_def Let_def snprintf_buf_def)

lemma appends_errno:
  assumes "\<bar>n\<bar> < 2 ^ 31"
  shows "appends (errno_text strerror_tl n) (stream_errno strerror_tl n)"
proof (cases "n = 0")
  case False
  have "appends (((strerror_tl n @ '' (errno = '') @ int_dec n) @ '') '')
    (\<lambda>b. bindr (bindr (bindr (LogStream_cstr (Some (strerror_tl n)) b) (LogStream_cstr (Some '' (errno = '')))
             (LogStream_FormatInteger n)) (LogStream_cstr (Some '') '')))"
    by (intro appends_intros) (use assms in auto)
  with False show ?thesis by (simp add: errno_text_def stream_errno_def [abs_def])
qed (simp add: errno_text_def stream_errno_def [abs_def] appends_return)

text \<open>The state after a line: the second and the thread id are known.\<close>

definition after_line :: "log_statement \<Rightarrow> log_state \<Rightarrow> log_state" where
  "after_line ls st =
     st\<lparr>t_last_second := statement_seconds ls, t_time := time_fields (gmtime_r (statement_seconds ls)),
        t_thread := snd (current_thread_Tid (ls_gettid ls) (t_thread st))\<rparr>"

lemma Impl_new_ok:
  assumes st: "log_state_ok tid st" and ls: "loggable (statement_seconds ls)" "ls_gettid ls = tid" "tid \<noteq> 0"
    "length (int_decw 5 tid) < 32" "length (ls_mem_buffer ls) = k_small_buffer" and n: "\<bar>n\<bar> < 2 ^ 31"
    and len: "length (head_text strerror_tl ls level n) < k_small_buffer"
  shows "\<exists>b. Impl_new strerror_tl ls level n file line st =
      Inr (after_line ls st, \<lparr>im_time = ls_now ls, im_stream = b, im_level = ls_mem_level ls, im_line = line, im_basename = file\<rparr>) \<and>
    line_is b (head_text strerror_tl ls level n)"
proof -
  let ?im = "\<lparr>im_time = ls_now ls, im_stream = FixedBuffer_new (ls_mem_buffer ls), im_level = ls_mem_level ls, im_line = line,
    im_basename = file\<rparr>"
  have "line_is (im_stream ?im) ''''" using ls by (simp add: line_is_def FixedBuffer_new_def held_def)
  from FormatTime_ok [OF st ls(1) _ this] obtain b1 where
    b1: "Impl_FormatTime st ?im =
      Inr (st\<lparr>t_last_second := statement_seconds ls, t_time := time_fields (gmtime_r (statement_seconds ls))\<rparr>, ?im\<lparr>im_stream := b1\<rparr>)"
      "line_is b1 (stamp_text ls)"
    by auto
  note T = Tid_text [OF st ls(3,4)]
  have "appends (int_decw 5 tid @ LogLevelName level)
    (\<lambda>b. bindr (stream_T (int_decw 5 tid) (length (int_decw 5 tid)) b) (stream_T (LogLevelName level) 6))"
    by (intro appends_intros refl) (cases level; simp)
  from appends_bind [OF this appends_errno [OF n, of strerror_tl]]
  have "appends ((int_decw 5 tid @ LogLevelName level) @ errno_text strerror_tl n) (\<lambda>b.
    bindr (bindr (stream_T (int_decw 5 tid) (length (int_decw 5 tid)) b) (stream_T (LogLevelName level) 6)) (stream_errno strerror_tl n))" .
  from appends_line [OF this b1(2)] len ls(2) obtain b where
    b: "bindr (bindr (stream_T (int_decw 5 tid) (length (int_decw 5 tid)) b1) (stream_T (LogLevelName level) 6)) (stream_errno strerror_tl n) = Inr b" "line_is b (head_text strerror_tl ls level n)"
    by (auto simp: head_text_def)
  then obtain b2 where b2: "bindr (stream_T (int_decw 5 tid) (length (int_decw 5 tid)) b1) (stream_T (LogLevelName level) 6) = Inr b2"
    by (auto simp: bindr_def split: sum.splits)
  show ?thesis
    using b b2 b1(1) T ls(2) by (auto simp: Impl_new_def Let_def after_line_def)
qed

lemma Finish_ok:
  assumes "line_is (im_stream im) text" "im_basename im = SourceFile_array (ls_file ls)" "im_line im = ls_line ls"
    "\<bar>ls_line ls\<bar> < 2 ^ 31" "length text + length (tail_text ls) < k_small_buffer"
  shows "\<exists>b. Impl_Finish im = Inr (im\<lparr>im_stream := b\<rparr>) \<and> line_is b (text @ tail_text ls)"
proof -
  let ?f = "\<lambda>b. bindr (bindr (bindr (bindr (LogStream_cstr (Some '' - '') b) (stream_SourceFile (SourceFile_array (ls_file ls))))
        (LogStream_char (CHR '':''))) (LogStream_FormatInteger (ls_line ls))) (LogStream_char (CHR 0x0A))"
  have "appends ((((('' - '' @ sf_data (SourceFile_array (ls_file ls))) @ [CHR '':'']) @ int_dec (ls_line ls)) @ [CHR 0x0A])) ?f"
    by (intro appends_intros) (use assms(4) in auto)
  from appends_line [OF this assms(1)] assms(5) obtain b where "?f (im_stream im) = Inr b" "line_is b (text @ tail_text ls)"
    by (auto simp: tail_text_def)
  then show ?thesis by (auto simp: Impl_Finish_def assms(2,3))
qed

lemma destroy_ok:
  assumes "line_is (im_stream im) text" "im_basename im = SourceFile_array (ls_file ls)" "im_line im = ls_line ls"
    "\<bar>ls_line ls\<bar> < 2 ^ 31" "length text + length (tail_text ls) < k_small_buffer" "im_level im \<noteq> FATAL"
  shows "Logger_destroy st im = Inr (st\<lparr>g_output := g_output st @ [text @ tail_text ls]\<rparr>)"
proof -
  from Finish_ok [OF assms(1-5)] obtain b where b: "Impl_Finish im = Inr (im\<lparr>im_stream := b\<rparr>)" "line_is b (text @ tail_text ls)"
    by auto
  then have "FixedBuffer_ToString b = Inr (text @ tail_text ls)"
    using assms(5) by (auto simp: line_is_def FixedBuffer_ToString_def FixedBuffer_Length_def held_def)
  with b assms(6) show ?thesis by (simp add: Logger_destroy_def)
qed

lemma after_line_ok:
  assumes "log_state_ok tid st" "loggable (statement_seconds ls)" "ls_gettid ls = tid" "tid \<noteq> 0" "length (int_decw 5 tid) < 32"
  shows "log_state_ok tid (after_line ls st\<lparr>g_output := out\<rparr>)"
  using assms Tid_text [OF assms(1,4,5)] by (auto simp: log_state_ok_def after_line_def)
lemma tid_width: "0 < tid \<Longrightarrow> tid < 2 ^ 31 \<Longrightarrow> length (int_decw 5 tid) < 32"
  using nat_dec_length [of 10 "nat tid"] by (simp add: int_decw_def int_dec_def pad_left_def nat_less_iff)

text \<open>All constructors make a logger whose line is the head and, with a function name, that name.\<close>

lemma macro_logger_ok:
  assumes st: "log_state_ok tid st" and ls: "statement_ok strerror_tl tid ls" and tid: "0 < tid" "tid < 2 ^ 31"
  shows "\<exists>im. macro_logger (ls_macro ls) strerror_tl ls st = Inr (after_line ls st, im) \<and>
    im_basename im = SourceFile_array (ls_file ls) \<and> im_line im = ls_line ls \<and> im_level im = ls_mem_level ls \<and>
    line_is (im_stream im) (head_text strerror_tl ls (macro_level (ls_macro ls))
       (if ls_macro ls \<in> {LOG_SYSERR, LOG_SYSFATAL} then ls_errno ls else 0) @
       (if ls_macro ls \<in> {LOG_TRACE, LOG_DEBUG} then ls_func ls @ '' '' else ''''))"
proof -
  let ?n = "if ls_macro ls \<in> {LOG_SYSERR, LOG_SYSFATAL} then ls_errno ls else 0"
  let ?h = "head_text strerror_tl ls (macro_level (ls_macro ls)) ?n"
  have len: "length ?h + (if ls_macro ls \<in> {LOG_TRACE, LOG_DEBUG} then length (ls_func ls @ '' '') else 0) < k_small_buffer"
    using ls by (auto simp: statement_ok_def line_text_def split: if_splits)
  have "\<bar>?n\<bar> < 2 ^ 31" using ls by (simp add: statement_ok_def)
  then have "\<exists>b. Impl_new strerror_tl ls (macro_level (ls_macro ls)) ?n (SourceFile_array (ls_file ls)) (ls_line ls) st =
      Inr (after_line ls st, \<lparr>im_time = ls_now ls, im_stream = b, im_level = ls_mem_level ls, im_line = ls_line ls,
        im_basename = SourceFile_array (ls_file ls)\<rparr>) \<and> line_is b ?h"
    using ls tid tid_width [OF tid] len by (intro Impl_new_ok [OF st]) (auto simp: statement_ok_def)
  then obtain b where b: "Impl_new strerror_tl ls (macro_level (ls_macro ls)) ?n (SourceFile_array (ls_file ls)) (ls_line ls) st =
      Inr (after_line ls st, \<lparr>im_time = ls_now ls, im_stream = b, im_level = ls_mem_level ls, im_line = ls_line ls,
        im_basename = SourceFile_array (ls_file ls)\<rparr>)" "line_is b ?h"
    by auto
  have "appends (ls_func ls @ '' '') (\<lambda>b. bindr (LogStream_cstr (Some (ls_func ls)) b) (LogStream_char (CHR '' '')))"
    by (intro appends_intros)
  from appends_line [OF this b(2)] len have f: "ls_macro ls \<in> {LOG_TRACE, LOG_DEBUG} \<Longrightarrow> \<exists>b'.
      bindr (LogStream_cstr (Some (ls_func ls)) b) (LogStream_char (CHR '' '')) = Inr b' \<and> line_is b' (?h @ ls_func ls @ '' '')"
    by auto
  show ?thesis
    using b f by (cases "ls_macro ls") (auto simp: Logger_func_def Logger_info_def Logger_level_def Logger_errno_def)
qed

lemma statement_run_ok:
  assumes st: "log_state_ok tid st" and ls: "statement_ok strerror_tl tid ls" and tid: "0 < tid" "tid < 2 ^ 31"
  shows "log_statement_run strerror_tl ls st =
    Inr (if macro_enabled (g_log_level st) (ls_macro ls)
         then (after_line ls st)\<lparr>g_output := g_output st @ [line_text strerror_tl ls]\<rparr> else st)"
proof -
  let ?h = "head_text strerror_tl ls (macro_level (ls_macro ls))
       (if ls_macro ls \<in> {LOG_SYSERR, LOG_SYSFATAL} then ls_errno ls else 0) @
       (if ls_macro ls \<in> {LOG_TRACE, LOG_DEBUG} then ls_func ls @ '' '' else '''')"
  obtain im where im: "macro_logger (ls_macro ls) strerror_tl ls st = Inr (after_line ls st, im)"
    "im_basename im = SourceFile_array (ls_file ls)" "im_line im = ls_line ls" "im_level im = ls_mem_level ls"
    "line_is (im_stream im) ?h"
    using macro_logger_ok [OF assms] by auto
  have lt: "line_text strerror_tl ls = (?h @ concat (ls_message ls)) @ tail_text ls" by (simp add: line_text_def)
  have len: "length ((?h @ concat (ls_message ls)) @ tail_text ls) < k_small_buffer"
    using ls unfolding statement_ok_def lt [symmetric] by blast
  then obtain b where b: "stream_all (ls_message ls) (im_stream im) = Inr b" "line_is b (?h @ concat (ls_message ls))"
    using appends_line [OF appends_all [of "ls_message ls"] im(5)] by auto
  have "Logger_destroy (after_line ls st) (im\<lparr>im_stream := b\<rparr>) =
      Inr (after_line ls st\<lparr>g_output := g_output (after_line ls st) @ [(?h @ concat (ls_message ls)) @ tail_text ls]\<rparr>)"
    using b im ls len by (intro destroy_ok) (auto simp: statement_ok_def)
  then show ?thesis
    using im(1) b(1) unfolding lt by (simp add: log_statement_run_def after_line_def)
qed

lemma g_after [simp]: "g_log_level (after_line ls st) = g_log_level st"
  by (simp add: after_line_def)

text \<open>One statement of a thread: at most one line, and the state is ready for the next.\<close>

lemma statement_step:
  assumes st: "log_state_ok tid st" and ls: "statement_ok strerror_tl tid ls" and tid: "0 < tid" "tid < 2 ^ 31"
  shows "\<exists>st'. log_statement_run strerror_tl ls st = Inr st' \<and> log_state_ok tid st' \<and> g_log_level st' = g_log_level st \<and>
    g_output st' = g_output st @ (if macro_enabled (g_log_level st) (ls_macro ls) then [line_text strerror_tl ls] else [])"
  using statement_run_ok [OF assms] after_line_ok [of tid st ls] tid_width [OF tid] assms by (auto simp: statement_ok_def)

lemma log_state_running: "log_state_ok tid st \<Longrightarrow> \<not> g_aborted st"
  by (simp add: log_state_ok_def)

lemma statements_run_ok:
  assumes "log_state_ok tid st" and "list_all (statement_ok strerror_tl tid) stmts" and tid: "0 < tid" "tid < 2 ^ 31"
  shows "\<exists>st'. log_statements_run strerror_tl stmts st = Inr st' \<and> log_state_ok tid st' \<and>
    g_output st' = g_output st @
      map (line_text strerror_tl) (filter (\<lambda>ls. macro_enabled (g_log_level st) (ls_macro ls)) stmts)"
  using assms(1,2)
proof (induction stmts arbitrary: st)
  case (Cons ls stmts)
  obtain st1 where "log_statement_run strerror_tl ls st = Inr st1" "log_state_ok tid st1" "g_log_level st1 = g_log_level st"
    "g_output st1 = g_output st @ (if macro_enabled (g_log_level st) (ls_macro ls) then [line_text strerror_tl ls] else [])"
    using statement_step [of tid st strerror_tl ls] Cons.prems tid by auto
  then show ?case using Cons.IH [of st1] Cons.prems log_state_running by auto
qed auto

subsection \<open>Logging with a time zone\<close>

lemma int_dec0_min: "w \<le> length (int_dec0 w i)"
  by (auto simp: int_dec0_def pad_left_def)

lemma cache_second_zone: "cache_second s st = Inr st' \<Longrightarrow> g_log_timezone st' = g_log_timezone st"
  by (auto simp: cache_second_def res_simps split: if_splits)

lemma zone_FormatTime_fails: "TimeZone_valid (g_log_timezone st) \<Longrightarrow> \<not> ok (Impl_FormatTime st im)"
  using int_dec0_min [of 6 "Prelude.cmod (MicroSecondsSinceEpoch (im_time im)) kmicro_seconds_per_second"] cache_second_zone [of _ st]
  by (cases "cache_second (cdiv (MicroSecondsSinceEpoch (im_time im)) kmicro_seconds_per_second) st")
    (auto simp: Impl_FormatTime_def Let_def Format_new_def res_simps)

lemma zone_macro_fails: "TimeZone_valid (g_log_timezone st) \<Longrightarrow> \<not> ok (macro_logger m strerror_tl ls st)"
  using zone_FormatTime_fails [of st]
  by (cases m) (auto simp: Logger_func_def Logger_info_def Logger_level_def Logger_errno_def Impl_new_def res_simps)

text \<open>C36. The lines that are logged: with no time zone set, any sequence of log statements of a thread, in any mixture of
  levels and seconds, puts out one line for each statement whose level is enabled, in order, made of the time to the
  microsecond, the thread id, the level, the text and number of the error (for the macros that have one), the name of the
  function (for traces and debugging), the message, and the source file and line; the text of the second, which is kept
  from one line to the next, is never stale. A statement of level \<open>FATAL\<close> ends the process only if the memory of \<open>level_\<close>,
  which nothing initialises, happens to hold \<open>FATAL\<close>; here it does not. With a time zone set no statement ever puts out a
  line: the assert on the width of the microseconds fails.\<close>

theorem logger_lines:
  assumes "log_state_ok tid st" and "list_all (statement_ok strerror_tl tid) stmts" and "0 < tid" "tid < 2 ^ 31"
  shows "(\<exists>st'. log_statements_run strerror_tl stmts st = Inr st' \<and> log_state_ok tid st' \<and>
      g_output st' = g_output st @
        map (line_text strerror_tl) (filter (\<lambda>ls. macro_enabled (g_log_level st) (ls_macro ls)) stmts)) \<and>
    (\<forall>tz ls. macro_enabled (g_log_level st) (ls_macro ls) \<longrightarrow> TimeZone_valid tz \<longrightarrow>
      \<not> ok (log_statement_run strerror_tl ls (Logger_SetTimeZone tz st)))"
proof (intro conjI allI impI)
  show "\<exists>st'. log_statements_run strerror_tl stmts st = Inr st' \<and> log_state_ok tid st' \<and>
      g_output st' = g_output st @ map (line_text strerror_tl) (filter (\<lambda>ls. macro_enabled (g_log_level st) (ls_macro ls)) stmts)"
    by (rule statements_run_ok [OF assms])
next
  fix tz and ls :: log_statement
  assume "macro_enabled (g_log_level st) (ls_macro ls)" "TimeZone_valid tz"
  then show "\<not> ok (log_statement_run strerror_tl ls (Logger_SetTimeZone tz st))"
    using zone_macro_fails [of "Logger_SetTimeZone tz st" "ls_macro ls" strerror_tl ls]
    by (auto simp: log_statement_run_def Logger_SetTimeZone_def res_simps)
qed

definition sample_statement :: log_statement where
  "sample_statement = \<lparr>ls_macro = LOG_SYSERR, ls_file = ''dwater/net/a.cc'', ls_func = ''f'', ls_line = 7, ls_message = [''hi ''],
     ls_now = Timestamp 86400000042, ls_errno = 11, ls_gettid = 42, ls_mem_level = TRACE,
     ls_mem_buffer = replicate k_small_buffer (CHR 0x00)\<rparr>"

lemma sample_line:
  "line_text (\<lambda>_. ''again'') sample_statement =
     ''19700102 00:00:00.000042Z    42ERROR again (errno = 11) hi  - net/a.cc:7'' @ [CHR 0x0A]"
proof -
  have "time_fields (gmtime_r 86400) = ''19700102 00:00:00''" by code_simp
  moreover have "statement_seconds sample_statement = 86400" by (simp add: statement_seconds_def sample_statement_def cdiv_def kmicro_seconds_per_second_def)
  moreover have "int_dec0 6 (Prelude.cmod 86400000042 kmicro_seconds_per_second) = ''000042''" by code_simp
  moreover have "int_decw 5 42 = ''   42''" "int_dec 11 = ''11''" "int_dec 7 = ''7''" by code_simp+
  moreover have "sf_data (SourceFile_array ''dwater/net/a.cc'') = ''net/a.cc''" by code_simp
  ultimately show ?thesis
    by (simp add: line_text_def head_text_def stamp_text_def errno_text_def tail_text_def)
      (simp add: sample_statement_def)
qed

definition sample_log_state :: log_state where
  "sample_log_state = \<lparr>g_log_level = INFO, g_log_timezone = None, g_output = [], g_flushes = 0, g_aborted = False, t_time = '''',
     t_last_second = 0, t_thread = current_thread_init\<rparr>"

lemma sample_log_state_ok: "log_state_ok 42 sample_log_state" "g_output sample_log_state = []"
  by (simp_all add: sample_log_state_def log_state_ok_def TimeZone_valid_def current_thread_init_def)

lemma sample_statement_ok: "statement_ok (\<lambda>_. ''again'') 42 sample_statement"
  unfolding statement_ok_def sample_line
  by (simp add: sample_statement_def k_small_buffer_def loggable_def statement_seconds_def cdiv_def kmicro_seconds_per_second_def)

lemma sample_enabled: "macro_enabled (g_log_level sample_log_state) (ls_macro sample_statement)"
  by (simp add: sample_statement_def)

theorem logger_lines_witness:
  "\<exists>st'. log_statements_run (\<lambda>_. ''again'') [sample_statement] sample_log_state = Inr st' \<and>
    g_output st' = [''19700102 00:00:00.000042Z    42ERROR again (errno = 11) hi  - net/a.cc:7'' @ [CHR 0x0A]]"
  using logger_lines [of 42 sample_log_state "\<lambda>_. ''again''" "[sample_statement]"] sample_log_state_ok sample_statement_ok sample_line
    sample_enabled by auto

end
