(* ===== verification/SiFormat.thy ===== *)
theory SiFormat
  imports LogStream Timestamp
begin

text \<open>
  \<open>FormatSI\<close> and \<open>FormatIEC\<close> of \<open>dwater/base/log_stream.cc\<close>: a number of bytes or messages as a short text with a unit. The
  doubles are those of the theory \<open>Timestamp\<close>: rationals with the rounding of binary64. The lemmas show that rounding is
  monotone, so that what is printed at the ends of a range of numbers bounds what is printed inside it.
\<close>

section \<open>Printing doubles\<close>

text \<open>\<open>%.kf\<close> of a double that is not negative: the C library rounds the exact value, ties to even.\<close>

definition fixed_text :: "nat \<Rightarrow> rat \<Rightarrow> string" where
  "fixed_text k x =
     (let n = nat (round_half_even (x * 10 ^ k))
      in nat_dec (n div 10 ^ k) @ (if k = 0 then '''' else ''.'' @ pad_left (CHR ''0'') k (nat_dec (n mod 10 ^ k))))"

section \<open>The two formats\<close>

text \<open>
  The three ranges of one unit: \<open>b\<close> scales the bounds of the source (9995, 99950 and 999500 for thousands), \<open>unit\<close> is the
  divisor and \<open>rest\<close> the branches that follow.
\<close>

definition si_step :: "int \<Rightarrow> int \<Rightarrow> rat \<Rightarrow> string \<Rightarrow> string \<Rightarrow> string" where
  "si_step s b unit name rest =
     (let n = double_round (of_int s)
      in if s < 9995 * b then fixed_text 2 (double_round (n / unit)) @ name
         else if s < 99950 * b then fixed_text 1 (double_round (n / unit)) @ name
         else if s < 999500 * b then fixed_text 0 (double_round (n / unit)) @ name
         else rest)"

definition FormatSI :: "int \<Rightarrow> string" where
  "FormatSI s =
     snprintf_buf 64
      (if s < 1000 then int_dec s
       else si_step s 1 (10 ^ 3) ''k'' (si_step s (10 ^ 3) (10 ^ 6) ''M'' (si_step s (10 ^ 6) (10 ^ 9) ''G''
            (si_step s (10 ^ 9) (10 ^ 12) ''T'' (si_step s (10 ^ 12) (10 ^ 15) ''P''
              (fixed_text 2 (double_round (double_round (of_int s) / 10 ^ 18)) @ ''E''))))))"

definition iec_step :: "rat \<Rightarrow> rat \<Rightarrow> string \<Rightarrow> string \<Rightarrow> string" where
  "iec_step n unit name rest =
     (if n < double_round (unit * double_round (9995 / 1000)) then fixed_text 2 (double_round (n / unit)) @ name
      else if n < double_round (unit * double_round (9995 / 100)) then fixed_text 1 (double_round (n / unit)) @ name
      else if n < double_round (unit * double_round (10235 / 10)) then fixed_text 0 (double_round (n / unit)) @ name
      else rest)"

definition FormatIEC :: "int \<Rightarrow> string" where
  "FormatIEC s =
     (let n = double_round (of_int s); Ki = 2 ^ 10; Mi = double_round (Ki * 1024); Gi = double_round (Mi * 1024);
          Ti = double_round (Gi * 1024); Pi = double_round (Ti * 1024); Ei = double_round (Pi * 1024)
      in snprintf_buf 64
          (if n < Ki then int_dec s
           else iec_step n Ki ''Ki'' (iec_step n Mi ''Mi'' (iec_step n Gi ''Gi'' (iec_step n Ti ''Ti'' (iec_step n Pi ''Pi''
             (if n < double_round (Ei * double_round (9995 / 1000)) then fixed_text 2 (double_round (n / Ei)) @ ''Ei''
              else fixed_text 1 (double_round (n / Ei)) @ ''Ei'')))))))"

section \<open>Rounding is monotone\<close>

lemma round_half_even_floor: "round_half_even x = \<lfloor>x\<rfloor> \<or> round_half_even x = \<lfloor>x\<rfloor> + 1"
  by (auto simp: round_half_even_def Let_def)

lemma round_half_even_of_int [simp]: "round_half_even (of_int k) = k"
  by (simp add: round_half_even_def)

lemma round_half_even_mono:
  assumes "x \<le> y"
  shows "round_half_even x \<le> round_half_even y"
proof (cases "\<lfloor>x\<rfloor> = \<lfloor>y\<rfloor>")
  case True
  then have "x - of_int \<lfloor>x\<rfloor> \<le> y - of_int \<lfloor>y\<rfloor>" using assms by simp
  then show ?thesis using True by (auto simp: round_half_even_def Let_def)
next
  case False
  then have "\<lfloor>x\<rfloor> + 1 \<le> \<lfloor>y\<rfloor>" using floor_mono [OF assms] by simp
  then show ?thesis using round_half_even_floor [of x] round_half_even_floor [of y] by auto
qed

lemma round_half_even_unique:
  assumes "of_int m \<le> x" "x < of_int m + 1 / 2"
  shows "round_half_even x = m"
proof -
  have "\<lfloor>x\<rfloor> = m" using assms by (simp add: floor_eq_iff)
  then show ?thesis using assms by (simp add: round_half_even_def Let_def)
qed

lemma round_half_even_unique':
  assumes "of_int m - 1 / 2 < x" "x \<le> of_int m"
  shows "round_half_even x = m"
proof (cases "x = of_int m")
  case False
  then have "\<lfloor>x\<rfloor> = m - 1" using assms by (simp add: floor_eq_iff)
  then show ?thesis using assms by (simp add: round_half_even_def Let_def)
qed simp

lemma round_half_even_le: "x < of_int m + 1 / 2 \<Longrightarrow> round_half_even x \<le> m"
  using round_half_even_unique [of m x] round_half_even_mono [of x "of_int m"] by fastforce

lemma bitlen_bounds: "0 < n \<Longrightarrow> 2 ^ (bitlen n - 1) \<le> n \<and> n < 2 ^ bitlen n \<and> 0 < bitlen n"
proof (induction n rule: bitlen.induct)
  case (1 n)
  have b: "bitlen n = Suc (bitlen (n div 2))" using "1.prems" by (subst bitlen.simps) simp
  show ?case
  proof (cases "n div 2 = 0")
    case True
    then have "n = 1" "bitlen (n div 2) = 0" using "1.prems" by (auto simp: bitlen.simps [of 0])
    then show ?thesis using b by simp
  next
    case False
    with 1 have ih: "2 ^ (bitlen (n div 2) - 1) \<le> n div 2 \<and> n div 2 < 2 ^ bitlen (n div 2) \<and> 0 < bitlen (n div 2)" by simp
    obtain k where k: "bitlen (n div 2) = Suc k" using ih by (cases "bitlen (n div 2)") auto
    define K :: nat where "K = 2 ^ k"
    have "K \<le> n div 2" "n div 2 < 2 * K" using ih by (auto simp: k K_def)
    then have "2 * K \<le> n \<and> n < 4 * K" by linarith
    then have "2 * 2 ^ k \<le> n \<and> n < 4 * 2 ^ k" by (simp add: K_def)
    then show ?thesis by (simp add: b k)
  qed
qed

lemma powi_le_iff: "(2 :: rat) powi a \<le> 2 powi b \<longleftrightarrow> a \<le> b"
  using power_int_strict_increasing [of b a "2 :: rat"] power_int_increasing [of a b "2 :: rat"] by fastforce

lemma powi_less_iff: "(2 :: rat) powi a < 2 powi b \<longleftrightarrow> a < b"
  using powi_le_iff [of b a] by linarith

lemma powi_split: "(2 :: rat) powi (a + b) = 2 powi a * 2 powi b" "(2 :: rat) powi (a - b) = 2 powi a / 2 powi b"
  by (simp_all add: power_int_add power_int_diff)

lemma powi_pos [simp]: "0 < (2 :: rat) powi a"
  by simp

lemma bitlen_powi:
  assumes "0 < n"
  shows "2 powi (int (bitlen (nat n)) - 1) \<le> (of_int n :: rat)" "(of_int n :: rat) < 2 powi (int (bitlen (nat n)))"
proof -
  have b: "2 ^ (bitlen (nat n) - 1) \<le> nat n" "nat n < 2 ^ bitlen (nat n)" "0 < bitlen (nat n)"
    using bitlen_bounds [of "nat n"] assms by auto
  have n: "(of_int n :: rat) = of_nat (nat n)" using assms by simp
  have "(of_nat (2 ^ (bitlen (nat n) - 1)) :: rat) \<le> of_nat (nat n)" using b(1) by (simp only: of_nat_le_iff)
  then have "(2 :: rat) ^ (bitlen (nat n) - 1) \<le> of_int n" unfolding n by simp
  moreover have "int (bitlen (nat n)) - 1 = int (bitlen (nat n) - 1)" using b(3) by simp
  ultimately show "2 powi (int (bitlen (nat n)) - 1) \<le> (of_int n :: rat)" by (simp only: power_int_of_nat)
  have "(of_nat (nat n) :: rat) < of_nat (2 ^ bitlen (nat n))" using b(2) by (simp only: of_nat_less_iff)
  then show "(of_int n :: rat) < 2 powi (int (bitlen (nat n)))" unfolding n by simp
qed

lemma double_exponent_bounds:
  assumes "0 < x"
  shows "2 powi (double_exponent x) \<le> x" and "x < 2 powi (double_exponent x + 1)"
proof -
  obtain p q where pq: "quotient_of x = (p, q)" by (cases "quotient_of x")
  have x: "x = of_int p / of_int q" and q: "0 < q" using quotient_of_div [OF pq] quotient_of_denom_pos [OF pq] by auto
  then have p: "0 < p" using assms by (simp add: zero_less_divide_iff)
  define a b where "a = int (bitlen (nat p))" and "b = int (bitlen (nat q))"
  have A: "2 powi (a - 1) \<le> (of_int p :: rat)" "(of_int p :: rat) < 2 powi a"
    and B: "2 powi (b - 1) \<le> (of_int q :: rat)" "(of_int q :: rat) < 2 powi b"
    using bitlen_powi [OF p] bitlen_powi [OF q] by (simp_all add: a_def b_def)
  have "2 powi (a - 1) / 2 powi b \<le> x" unfolding x using A(1) B(2) p q by (intro frac_le) auto
  then have lo: "2 powi (a - b - 1) \<le> x" by (simp add: powi_split field_simps)
  have "x < 2 powi a / 2 powi (b - 1)" unfolding x using A B p q by (intro frac_less) auto
  then have hi: "x < 2 powi (a - b + 1)" by (simp add: powi_split field_simps)
  have e: "double_exponent x = (if 2 powi (a - b) \<le> x then a - b else a - b - 1)"
    by (simp add: double_exponent_def pq a_def b_def Let_def)
  show "2 powi (double_exponent x) \<le> x" "x < 2 powi (double_exponent x + 1)"
    using lo hi by (auto simp: e)
qed

lemma double_exponent_unique:
  assumes "2 powi e \<le> x" "x < 2 powi (e + 1)"
  shows "double_exponent x = e"
proof -
  have "0 < x" using assms(1) powi_pos [of e] by linarith
  note B = double_exponent_bounds [OF this]
  have "2 powi e < (2 :: rat) powi (double_exponent x + 1)" "(2 :: rat) powi (double_exponent x) < 2 powi (e + 1)"
    using assms B by linarith+
  then show ?thesis by (simp add: powi_less_iff)
qed

text \<open>The unit in the last place of a positive number.\<close>

definition ulp :: "rat \<Rightarrow> int" where
  "ulp x = max (double_exponent x - 52) (- 1074)"

lemma double_round_pos: "0 < x \<Longrightarrow> double_round x = of_int (round_half_even (x / 2 powi (ulp x))) * 2 powi (ulp x)"
  by (simp add: double_round_def Let_def ulp_def)

lemma double_exponent_mono: "0 < x \<Longrightarrow> x \<le> y \<Longrightarrow> double_exponent x \<le> double_exponent y"
  using double_exponent_bounds [of x] double_exponent_bounds [of y] powi_less_iff [of "double_exponent x" "double_exponent y + 1"]
  by linarith

lemma powi_int_of: "0 \<le> k \<Longrightarrow> (2 :: rat) powi k = of_int (2 ^ nat k)"
  by (simp add: power_int_def)

lemma double_round_mono:
  assumes "0 \<le> x" "x \<le> y"
  shows "double_round x \<le> double_round y"
proof (cases "x = 0")
  case True
  then show ?thesis using double_round_nonneg assms by (simp add: double_round_def)
next
  case False
  then have x: "0 < x" and y: "0 < y" using assms by auto
  show ?thesis
  proof (cases "ulp x = ulp y")
    case True
    have "x / 2 powi (ulp y) \<le> y / 2 powi (ulp y)" using assms(2) by (simp add: divide_right_mono)
    then show ?thesis
      using round_half_even_mono True by (simp add: double_round_pos [OF x] double_round_pos [OF y] mult_right_mono)
  next
    case False
    define e where "e = double_exponent y"
    have ee: "double_exponent x < e" "- 1022 < e" "ulp y = e - 52" "ulp x \<le> e - 52"
      using False double_exponent_mono [OF x assms(2)] by (auto simp: ulp_def e_def max_def split: if_splits)
    have up: "double_round z \<le> 2 powi e" if "0 < z" "z \<le> 2 powi e" "ulp z \<le> e" for z
    proof -
      have "round_half_even (z / 2 powi (ulp z)) \<le> round_half_even (2 powi e / 2 powi (ulp z))"
        using that by (intro round_half_even_mono divide_right_mono) auto
      also have "2 powi e / 2 powi (ulp z) = (of_int (2 ^ nat (e - ulp z)) :: rat)"
        using that(3) powi_int_of [of "e - ulp z"] by (simp add: powi_split)
      finally have "(of_int (round_half_even (z / 2 powi (ulp z))) :: rat) \<le> of_int (2 ^ nat (e - ulp z))"
        by (simp only: round_half_even_of_int of_int_le_iff)
      also have "(of_int (2 ^ nat (e - ulp z)) :: rat) = 2 powi e / 2 powi (ulp z)"
        using that(3) powi_int_of [of "e - ulp z"] by (simp add: powi_split)
      finally show ?thesis unfolding double_round_pos [OF that(1)] by (simp add: pos_le_divide_eq)
    qed
    have "x \<le> 2 powi e"
      using double_exponent_bounds(2) [OF x] ee(1) powi_le_iff [of "double_exponent x + 1" e] by linarith
    then have "double_round x \<le> 2 powi e" using up [OF x] ee(4) by simp
    also have "2 powi e \<le> double_round y"
    proof -
      have "of_int (2 ^ 52) \<le> y / 2 powi (ulp y)"
        using double_exponent_bounds(1) [OF y] by (simp add: ee(3) powi_split e_def [symmetric] field_simps)
      from round_half_even_mono [OF this] have "(of_int (2 ^ 52) :: rat) \<le> of_int (round_half_even (y / 2 powi (ulp y)))"
        by (simp only: round_half_even_of_int of_int_le_iff)
      then have "of_int (2 ^ 52) * 2 powi (ulp y) \<le> double_round y" unfolding double_round_pos [OF y] by (intro mult_right_mono) auto
      then show ?thesis by (simp add: ee(3) powi_split)
    qed
    finally show ?thesis .
  qed
qed

text \<open>Bounding a rounded number by a normalised one, with its fifty-three bits written out.\<close>

lemma normal_exponent:
  assumes "2 ^ 52 \<le> m" "m < 2 ^ 53" "of_int m * 2 powi j \<le> x" "x < of_int (m + 1) * 2 powi j"
  shows "double_exponent x = j + 52"
proof (rule double_exponent_unique)
  have "(of_int (2 ^ 52) :: rat) * 2 powi j \<le> of_int m * 2 powi j" using assms(1) by (intro mult_right_mono) (simp_all only: of_int_le_iff, simp)
  also have "(of_int (2 ^ 52) :: rat) * 2 powi j = 2 powi (j + 52)" by (simp add: powi_split)
  finally show "2 powi (j + 52) \<le> x" using assms(3) by (rule order_trans)
  have "m + 1 \<le> 2 ^ 53" using assms(2) by simp
  then have "(of_int (m + 1) :: rat) * 2 powi j \<le> of_int (2 ^ 53) * 2 powi j" by (intro mult_right_mono) (simp_all only: of_int_le_iff, simp)
  also have "(of_int (2 ^ 53) :: rat) * 2 powi j = 2 powi (j + 52 + 1)" by (simp add: powi_split)
  finally show "x < 2 powi (j + 52 + 1)" using assms(4) by (rule less_le_trans [rotated])
qed

lemma double_round_id:
  assumes "2 ^ 52 \<le> m" "m < 2 ^ 53" "- 1074 \<le> j"
  shows "double_round (of_int m * 2 powi j) = of_int m * 2 powi j"
proof -
  have "double_exponent (of_int m * 2 powi j) = j + 52"
    by (rule normal_exponent [OF assms(1,2)]) (auto simp: algebra_simps)
  then have "ulp (of_int m * 2 powi j) = j" using assms(3) by (simp add: ulp_def)
  moreover have "0 < (of_int m * 2 powi j :: rat)" using assms(1) by (simp add: zero_less_mult_iff)
  ultimately show ?thesis by (simp add: double_round_pos)
qed

lemma double_round_le:
  assumes m: "2 ^ 52 \<le> m" "m < 2 ^ 53" "- 1074 \<le> j" and x: "0 \<le> x" "x < (of_int m + 1 / 2) * 2 powi j"
  shows "double_round x \<le> of_int m * 2 powi j"
proof (cases "x \<le> of_int m * 2 powi j")
  case True
  then show ?thesis using double_round_mono [OF x(1) True] by (simp add: double_round_id [OF m])
next
  case False
  have "(of_int m + 1 / 2) * 2 powi j < (of_int (m + 1) * 2 powi j :: rat)" by (simp add: mult_strict_right_mono)
  with x(2) have "x < of_int (m + 1) * 2 powi j" by (rule less_trans)
  then have "double_exponent x = j + 52" using False by (intro normal_exponent [OF m(1,2)]) auto
  then have u: "ulp x = j" using m(3) by (simp add: ulp_def)
  have "0 < (of_int m * 2 powi j :: rat)" using m(1) by (simp add: zero_less_mult_iff)
  then have x0: "0 < x" using False by linarith
  have "of_int m < x / 2 powi j" "x / 2 powi j < of_int m + 1 / 2" using False x by (auto simp: field_simps)
  then have "round_half_even (x / 2 powi j) = m" by (intro round_half_even_unique) auto
  then show ?thesis by (simp add: double_round_pos [OF x0] u)
qed

lemma double_round_eq:
  assumes m: "2 ^ 52 < m" "m < 2 ^ 53" "- 1074 \<le> j"
    and x: "(of_int m - 1 / 2) * 2 powi j < x" "x < (of_int m + 1 / 2) * 2 powi j"
  shows "double_round x = of_int m * 2 powi j"
proof -
  have "1 \<le> m" using m(1) by simp
  then have "(1 :: rat) \<le> of_int m" by simp
  then have "0 < (of_int m - 1 / 2 :: rat)" by linarith
  then have x0: "0 < x" using x(1) by (meson less_trans mult_pos_pos powi_pos)
  have "of_int m * 2 powi j \<le> double_round x"
  proof (cases "of_int m * 2 powi j \<le> x")
    case True
    have "0 \<le> (of_int m * 2 powi j :: rat)" using m(1) by simp
    from double_round_mono [OF this True] show ?thesis using double_round_id [of m j] m by simp
  next
    case False
    have "(of_int (m - 1) :: rat) * 2 powi j < (of_int m - 1 / 2) * 2 powi j" by (simp add: mult_strict_right_mono)
    then have "of_int (m - 1) * 2 powi j < x" using x(1) by (rule less_trans)
    then have "double_exponent x = j + 52" using False m by (intro normal_exponent [of "m - 1"]) auto
    then have u: "ulp x = j" using m(3) by (simp add: ulp_def)
    have "of_int m - 1 / 2 < x / 2 powi j" "x / 2 powi j \<le> of_int m" using False x by (auto simp: field_simps)
    then have "round_half_even (x / 2 powi j) = m" by (rule round_half_even_unique')
    then show ?thesis by (simp add: double_round_pos [OF x0] u)
  qed
  moreover have "double_round x \<le> of_int m * 2 powi j" using m x x0 by (intro double_round_le) auto
  ultimately show ?thesis by simp
qed

lemma double_below:
  assumes m: "2 ^ 52 < m" "m < 2 ^ 53" "- 1074 \<le> j" and y: "double_round y = y" "0 < y" "y < of_int m * 2 powi j"
  shows "y \<le> of_int (m - 1) * 2 powi j"
proof (rule ccontr)
  assume n: "\<not> y \<le> of_int (m - 1) * 2 powi j"
  then have "double_exponent y = j + 52" using y(3) m by (intro normal_exponent [of "m - 1"]) auto
  then have "ulp y = j" using m(3) by (simp add: ulp_def)
  then have "y = of_int (round_half_even (y / 2 powi j)) * 2 powi j" using double_round_pos [OF y(2)] y(1) by simp
  then obtain r :: int where r: "y = of_int r * 2 powi j" by blast
  have "m - 1 < r" "r < m" using n y(3) by (simp_all add: r not_le)
  then show False by simp
qed

lemma double_round_scale:
  assumes "0 < x" "- 1022 \<le> double_exponent x" "- 1022 \<le> double_exponent x + i"
  shows "double_round (x * 2 powi i) = double_round x * 2 powi i"
proof -
  have "double_exponent (x * 2 powi i) = double_exponent x + i"
  proof (rule double_exponent_unique)
    show "2 powi (double_exponent x + i) \<le> x * 2 powi i"
      using double_exponent_bounds(1) [OF assms(1)] by (simp add: powi_split mult_right_mono)
    have "x * 2 powi i < 2 powi (double_exponent x + 1) * 2 powi i"
      using double_exponent_bounds(2) [OF assms(1)] by (simp add: mult_strict_right_mono)
    then show "x * 2 powi i < 2 powi (double_exponent x + i + 1)" by (simp add: powi_split)
  qed
  then have u: "ulp (x * 2 powi i) = ulp x + i" using assms by (simp add: ulp_def)
  have "x * 2 powi i / 2 powi (ulp x + i) = x / 2 powi (ulp x)" by (simp add: powi_split)
  then show ?thesis using assms(1) by (simp add: double_round_pos u powi_split)
qed

lemma double_round_idem:
  assumes "0 < x" "- 1022 \<le> double_exponent x"
  shows "double_round (double_round x) = double_round x"
proof -
  let ?j = "ulp x" and ?r = "round_half_even (x / 2 powi (ulp x))"
  have j: "?j = double_exponent x - 52" using assms(2) by (simp add: ulp_def)
  have "of_int (2 ^ 52) \<le> x / 2 powi ?j" "x / 2 powi ?j \<le> of_int (2 ^ 53)"
    using double_exponent_bounds [OF assms(1)] by (simp_all add: j powi_split field_simps)
  then have r: "2 ^ 52 \<le> ?r" "?r \<le> 2 ^ 53"
    using round_half_even_mono [of "of_int (2 ^ 52)" "x / 2 powi ?j"] round_half_even_mono [of "x / 2 powi ?j" "of_int (2 ^ 53)"]
    by (simp_all only: round_half_even_of_int)
  show ?thesis
  proof (cases "?r = 2 ^ 53")
    case True
    then have "double_round x = of_int (2 ^ 52) * 2 powi (?j + 1)" by (simp add: double_round_pos [OF assms(1)] powi_split)
    then show ?thesis using double_round_id [of "2 ^ 52" "?j + 1"] by (simp add: ulp_def)
  next
    case False
    then show ?thesis using double_round_id [of ?r ?j] r by (simp add: double_round_pos [OF assms(1)] ulp_def)
  qed
qed

section \<open>Widths\<close>

lemma fixed_text_length:
  assumes "round_half_even (x * 10 ^ k) < 10 ^ (w + k)" "0 < w"
  shows "length (fixed_text k x) \<le> w + (if k = 0 then 0 else k + 1)"
proof -
  define n where "n = nat (round_half_even (x * 10 ^ k))"
  have n: "n < 10 ^ (w + k)" using assms(1) by (simp add: n_def nat_less_iff)
  then have "n div 10 ^ k < 10 ^ w" by (simp add: power_add less_mult_imp_div_less)
  then have "length (nat_dec (n div 10 ^ k)) \<le> w" using assms(2) by (intro nat_dec_length)
  moreover have "length (nat_dec (n mod 10 ^ k)) \<le> k" if "k \<noteq> 0" using that by (intro nat_dec_length) auto
  moreover have "fixed_text k x = nat_dec (n div 10 ^ k) @ (if k = 0 then '''' else ''.'' @ pad_left (CHR ''0'') k (nat_dec (n mod 10 ^ k)))"
    by (simp add: fixed_text_def n_def Let_def)
  ultimately show ?thesis by (auto simp: pad_left_def)
qed

text \<open>
  A row says that numbers up to \<open>S\<close>, divided by \<open>unit\<close> in doubles, round to less than \<open>10 ^ (w + k)\<close> when printed with \<open>k\<close>
  digits; the two normalised doubles in it bound the number and the quotient.
\<close>

definition row_ok :: "int \<Rightarrow> rat \<Rightarrow> nat \<Rightarrow> nat \<Rightarrow> int \<times> int \<Rightarrow> int \<times> int \<Rightarrow> bool" where
  "row_ok S unit w k a b \<longleftrightarrow>
     (case (a, b) of ((m1, j1), (m2, j2)) \<Rightarrow>
        2 ^ 52 \<le> m1 \<and> m1 < 2 ^ 53 \<and> - 1074 \<le> j1 \<and> 2 ^ 52 \<le> m2 \<and> m2 < 2 ^ 53 \<and> - 1074 \<le> j2 \<and> 0 < unit \<and>
        of_int S < (of_int m1 + 1 / 2) * (2 :: rat) powi j1 \<and>
        (of_int m1 * 2 powi j1) / unit < (of_int m2 + 1 / 2) * 2 powi j2 \<and>
        (of_int m2 * 2 powi j2) * 10 ^ k < (of_int (10 ^ (w + k) - 1) + 1 / 2 :: rat))"

lemma row_width:
  assumes "row_ok S unit w k a b" "0 \<le> s" "s \<le> S" "0 < w"
  shows "length (fixed_text k (double_round (double_round (of_int s) / unit))) \<le> w + (if k = 0 then 0 else k + 1)"
proof -
  obtain m1 j1 m2 j2 where ab: "a = (m1, j1)" "b = (m2, j2)" by (cases a; cases b)
  note R = assms(1) [unfolded row_ok_def ab, simplified]
  have "(of_int s :: rat) \<le> of_int S" using assms(3) by simp
  then have "(of_int s :: rat) < (of_int m1 + 1 / 2) * 2 powi j1" using R by linarith
  then have n: "double_round (of_int s) \<le> of_int m1 * 2 powi j1" using R assms(2) by (intro double_round_le) auto
  have n0: "0 \<le> double_round (of_int s)" using assms(2) by (intro double_round_nonneg) simp
  have "double_round (of_int s) / unit \<le> of_int m1 * 2 powi j1 / unit" using n R by (intro divide_right_mono) auto
  then have "double_round (of_int s) / unit < (of_int m2 + 1 / 2) * 2 powi j2" using R by linarith
  then have "double_round (double_round (of_int s) / unit) \<le> of_int m2 * 2 powi j2" using R n0 by (intro double_round_le) auto
  then have "double_round (double_round (of_int s) / unit) * 10 ^ k \<le> of_int m2 * 2 powi j2 * 10 ^ k" by (intro mult_right_mono) auto
  then have "double_round (double_round (of_int s) / unit) * 10 ^ k < 10 ^ (w + k) - 1 / 2" using R by linarith
  then have "double_round (double_round (of_int s) / unit) * 10 ^ k < of_int (10 ^ (w + k) - 1) + 1 / 2" by simp
  from round_half_even_le [OF this] show ?thesis by (intro fixed_text_length) (use assms(4) in auto)
qed

lemma si_rows:
  "row_ok 9994 (10 ^ 3) 1 2 (5494259603996672, - 39) (5626121834492592, - 49)"
  "row_ok 99949 (10 ^ 3) 2 1 (6868442980286464, - 36) (7033285611813339, - 46)"
  "row_ok 999499 (10 ^ 3) 3 0 (8585631034769408, - 33) (8791686179603874, - 43)"
  "row_ok 9994999 (10 ^ 6) 1 2 (5366024228569088, - 29) (5626684221496060, - 49)"
  "row_ok 99949999 (10 ^ 6) 2 1 (6707530889691136, - 26) (7033355910188773, - 46)"
  "row_ok 999499999 (10 ^ 6) 3 0 (8384413687611392, - 23) (8791694966900803, - 43)"
  "row_ok 9994999999 (10 ^ 9) 1 2 (5240258559475712, - 19) (5626684783883063, - 49)"
  "row_ok 99949999999 (10 ^ 9) 2 1 (6550323199934464, - 16) (7033355980487148, - 46)"
  "row_ok 999499999999 (10 ^ 9) 3 0 (8187903999991808, - 13) (8791694975688100, - 43)"
  "row_ok 9994999999999 (10 ^ 12) 1 2 (5117439999999488, - 9) (5626684784445450, - 49)"
  "row_ok 99949999999999 (10 ^ 12) 2 1 (6396799999999936, - 6) (7033355980557446, - 46)"
  "row_ok 999499999999999 (10 ^ 12) 3 0 (7995999999999992, - 3) (8791694975696887, - 43)"
  "row_ok 9994999999999999 (10 ^ 15) 1 2 (4997500000000000, 1) (5626684784446013, - 49)"
  "row_ok 99949999999999991 (10 ^ 15) 2 1 (6246874999999999, 4) (7033355980557516, - 46)"
  "row_ok 999499999999999999 (10 ^ 15) 4 0 (7808593750000000, 7) (8791694975696896, - 43)"
  "row_ok 9223372036854775807 (10 ^ 18) 1 2 (4503599627370496, 11) (5192296858534828, - 49)"
  by (simp_all add: row_ok_def)

lemma si_step_width:
  assumes "row_ok (9995 * b - 1) unit 1 2 a1 b1" "row_ok (99950 * b - 1) unit 2 1 a2 b2" "row_ok (999500 * b - 1) unit 3 0 a3 b3"
    and "0 \<le> s" "length name = 1" "length rest \<le> 5"
  shows "length (si_step s b unit name rest) \<le> 5"
  using row_width [OF assms(1,4)] row_width [OF assms(2,4)] row_width [OF assms(3,4)] assms(5,6)
  by (fastforce simp: si_step_def Let_def)

lemma nat_dec_short: "0 \<le> s \<Longrightarrow> s < 10 ^ k \<Longrightarrow> 0 < k \<Longrightarrow> length (int_dec s) \<le> k"
  using nat_dec_length [of k "nat s"] by (simp add: int_dec_def nat_less_iff)

lemma FormatSI_width:
  assumes "0 \<le> s" "s < 2 ^ 63" "s < 99949999999999992 \<or> 99950000000000000 \<le> s"
  shows "length (FormatSI s) \<le> 5"
proof -
  let ?E = "fixed_text 2 (double_round (double_round (of_int s) / 10 ^ 18)) @ ''E''"
  have "s \<le> 9223372036854775807" using assms(2) by simp
  from row_width [OF si_rows(16) assms(1) this] have E: "length ?E \<le> 5" by simp
  have P: "length (si_step s (10 ^ 12) (10 ^ 15) ''P'' ?E) \<le> 5"
  proof (cases "s < 99949999999999992")
    case True
    then have "s \<le> 99949999999999991" by simp
    from row_width [OF si_rows(14) assms(1) this] row_width [OF si_rows(13) assms(1)] True show ?thesis
      by (simp add: si_step_def Let_def)
  next
    case False
    with assms(3) row_width [OF si_rows(15) assms(1)] E show ?thesis by (simp add: si_step_def Let_def)
  qed
  note T = si_step_width [of "10 ^ 9", simplified, OF si_rows(10-12) [simplified] assms(1), of "''T''", OF _ P [simplified], simplified]
  note G = si_step_width [of "10 ^ 6", simplified, OF si_rows(7-9) [simplified] assms(1), of "''G''", OF _ T, simplified]
  note M = si_step_width [of "10 ^ 3", simplified, OF si_rows(4-6) [simplified] assms(1), of "''M''", OF _ G, simplified]
  note K = si_step_width [of 1, simplified, OF si_rows(1-3) [simplified] assms(1), of "''k''", OF _ M, simplified]
  from K nat_dec_short [OF assms(1), of 3] show ?thesis by (auto simp: FormatSI_def snprintf_buf_def min_def)
qed

subsection \<open>Binary units\<close>

lemma double_exponent_ge: "2 powi e \<le> x \<Longrightarrow> e \<le> double_exponent x"
  using double_exponent_bounds(2) [of x] powi_less_iff [of e "double_exponent x + 1"] powi_pos [of e] by linarith

text \<open>A double divided by a power of two is the quotient, and a product with one is the product.\<close>

lemma binary_quotient:
  assumes "double_round n = n" "1 \<le> n" "0 \<le> i" "i \<le> 60"
  shows "double_round (n / 2 powi i) = n / 2 powi i"
proof -
  have "0 \<le> double_exponent n" using double_exponent_ge [of 0 n] assms(2) by simp
  then have "double_round (n * 2 powi (- i)) = double_round n * 2 powi (- i)" using assms by (intro double_round_scale) auto
  then show ?thesis using assms(1) by (simp add: power_int_minus divide_inverse)
qed

lemma binary_product:
  assumes "double_round c = c" "1 \<le> c" "0 \<le> i"
  shows "double_round (2 powi i * c) = 2 powi i * c"
proof -
  have "0 \<le> double_exponent c" using double_exponent_ge [of 0 c] assms(2) by simp
  then have "double_round (c * 2 powi i) = double_round c * 2 powi i" using assms by (intro double_round_scale) auto
  then show ?thesis using assms(1) by (simp add: mult.commute)
qed

text \<open>A double below the normalised bound \<open>c\<close>, scaled by the unit, prints with few digits.\<close>

lemma below_width:
  assumes n: "double_round n = n" "1 \<le> n" and i: "0 \<le> i" "i \<le> 60"
    and c: "double_round x = of_int m * 2 powi j" "2 ^ 52 < m" "m < 2 ^ 53" "- 1074 \<le> j" "1 \<le> (of_int m * 2 powi j :: rat)"
    and lim: "of_int (m - 1) * 2 powi j * 10 ^ k < (of_int (10 ^ (w + k) - 1) + 1 / 2 :: rat)" "0 < w"
    and less: "n < double_round (2 powi i * double_round x)"
  shows "length (fixed_text k (double_round (n / 2 powi i))) \<le> w + (if k = 0 then 0 else k + 1)"
proof -
  have "double_round (2 powi i * double_round x) = 2 powi i * (of_int m * 2 powi j)"
    unfolding c(1) using c i by (intro binary_product double_round_id) auto
  then have "n / 2 powi i < of_int m * 2 powi j" using less by (simp add: pos_divide_less_eq mult.commute)
  moreover have "0 < n / 2 powi i" using n(2) by simp
  ultimately have "n / 2 powi i \<le> of_int (m - 1) * 2 powi j"
    using binary_quotient [OF n i] c by (intro double_below) auto
  then have "n / 2 powi i * 10 ^ k \<le> of_int (m - 1) * 2 powi j * 10 ^ k" by (intro mult_right_mono) auto
  then have "n / 2 powi i * 10 ^ k < of_int (10 ^ (w + k) - 1) + 1 / 2" using lim(1) by (rule le_less_trans)
  from round_half_even_le [OF this] lim(2) show ?thesis
    unfolding binary_quotient [OF n i] by (intro fixed_text_length) auto
qed

lemma iec_bounds:
  "double_round (9995 / 1000) = of_int 5626684784446013 * 2 powi (- 49)"
  "double_round (9995 / 100) = of_int 7033355980557517 * 2 powi (- 46)"
  "double_round (10235 / 10) = of_int 9002801208229888 * 2 powi (- 43)"
  by (rule double_round_eq; simp)+

lemma iec_widths:
  assumes n: "double_round n = n" "1 \<le> n" and i: "0 \<le> i" "i \<le> 60"
  shows "n < double_round (2 powi i * double_round (9995 / 1000)) \<Longrightarrow> length (fixed_text 2 (double_round (n / 2 powi i))) \<le> 4"
    and "n < double_round (2 powi i * double_round (9995 / 100)) \<Longrightarrow> length (fixed_text 1 (double_round (n / 2 powi i))) \<le> 4"
    and "n < double_round (2 powi i * double_round (10235 / 10)) \<Longrightarrow> length (fixed_text 0 (double_round (n / 2 powi i))) \<le> 4"
  using below_width [OF n i iec_bounds(1), of 2 1] below_width [OF n i iec_bounds(2), of 1 2] below_width [OF n i iec_bounds(3), of 0 4]
  by simp_all

lemma iec_step_width:
  assumes "double_round n = n" "1 \<le> n" "0 \<le> i" "i \<le> 60" "length name = 2" "length rest \<le> 6"
  shows "length (iec_step n (2 powi i) name rest) \<le> 6"
  using iec_widths [OF assms(1-4)] assms(5,6) by (auto simp: iec_step_def)
lemma double_round_pow2:
  assumes "- 1022 \<le> i"
  shows "double_round (2 powi i) = 2 powi i"
  using double_round_id [of "2 ^ 52" "i - 52"] assms by (simp add: powi_split)

lemma FormatIEC_width:
  assumes "0 \<le> s" "s < 2 ^ 63"
  shows "length (FormatIEC s) \<le> 6"
proof (cases "s < 1024")
  case True
  have "double_round (of_int s) \<le> double_round 1023" using True assms(1) by (intro double_round_mono) auto
  also have "double_round 1023 \<le> 1023" using double_round_id [of 8998403161718784 "- 43"] by simp
  finally have "double_round (of_int s) < 2 ^ 10" by simp
  then have "FormatIEC s = snprintf_buf 64 (int_dec s)" by (simp add: FormatIEC_def Let_def)
  then show ?thesis using nat_dec_short [of s 4] True assms(1) by (simp add: snprintf_buf_def)
next
  case False
  define n where "n = double_round (of_int s)"
  have p: "double_round 1048576 = 1048576" "double_round 1073741824 = 1073741824" "double_round 1099511627776 = 1099511627776"
    "double_round 1125899906842624 = 1125899906842624" "double_round 1152921504606846976 = 1152921504606846976"
    using double_round_pow2 [of 20] double_round_pow2 [of 30] double_round_pow2 [of 40] double_round_pow2 [of 50]
      double_round_pow2 [of 60] by simp_all
  have "2 powi 0 \<le> (of_int s :: rat)" using False by simp
  then have e: "0 \<le> double_exponent (of_int s)" by (rule double_exponent_ge)
  have n: "double_round n = n" unfolding n_def using False e by (intro double_round_idem) auto
  have "double_round 1024 \<le> n" unfolding n_def using False by (intro double_round_mono) auto
  then have ge: "1024 \<le> n" using double_round_pow2 [of 10] by simp
  then have n1: "1 \<le> n" by simp
  have "n \<le> double_round (2 powi 63)" unfolding n_def using assms by (intro double_round_mono) auto
  then have "n \<le> 2 powi 63" using double_round_pow2 [of 63] by simp
  moreover have "double_round (2 powi 60 * double_round (9995 / 1000)) = 2 powi 60 * (of_int 5626684784446013 * 2 powi (- 49))"
    unfolding iec_bounds using double_round_id [of 5626684784446013 "- 49"] by (intro binary_product) auto
  ultimately have "n < double_round (2 powi 60 * double_round (9995 / 1000))" by simp
  note E = iec_widths(1) [OF n n1 _ _ this] this
  note P = iec_step_width [OF n n1, of 50 "''Pi''" "fixed_text 2 (double_round (n / 2 powi 60)) @ ''Ei''"]
  note T = iec_step_width [OF n n1, of 40 "''Ti''"]
  note G = iec_step_width [OF n n1, of 30 "''Gi''"]
  note M = iec_step_width [OF n n1, of 20 "''Mi''"]
  note K = iec_step_width [OF n n1, of 10 "''Ki''"]
  show ?thesis
    using ge E K [OF _ _ _ M, OF _ _ _ _ _ _ G, OF _ _ _ _ _ _ _ _ _ T, OF _ _ _ _ _ _ _ _ _ _ _ _ P]
    by (simp add: FormatIEC_def Let_def n_def [symmetric] p snprintf_buf_def min_def)
qed

lemma petabyte_edge:
  assumes "99949999999999992 \<le> s" "s < 99950000000000000"
  shows "double_round (of_int s) = 99950000000000000"
proof (cases "s = 99949999999999992")
  case True
  have "double_exponent 99949999999999992 = 4 + 52" by (rule normal_exponent [of 6246874999999999]) simp_all
  then have "ulp 99949999999999992 = 4" by (simp add: ulp_def)
  moreover have "\<lfloor>12493749999999999 / 2 :: rat\<rfloor> = 6246874999999999" by (simp add: floor_eq_iff)
  then have "round_half_even (99949999999999992 / 2 powi 4) = 6246875000000000" by (simp add: round_half_even_def)
  ultimately show ?thesis using True by (simp add: double_round_pos)
next
  case False
  then have "(99949999999999993 :: rat) \<le> of_int s" "(of_int s :: rat) < 99950000000000000" using assms by auto
  then show ?thesis using double_round_eq [of 6246875000000000 4 "of_int s"] by simp
qed

text \<open>C38. The short texts are short: for every number that is not negative, \<open>FormatIEC\<close> gives at most six characters, and
  \<open>FormatSI\<close> at most five, although the number is converted to a double, divided and rounded to decimal digits on the way.
  There is one exception, the eight numbers below \<open>9995 * 10 ^ 13\<close>: they become that number as doubles, and print as
  \<open>100.0P\<close> in the branch for numbers below it.\<close>

theorem si_iec_width:
  assumes "0 \<le> s" "s < 2 ^ 63"
  shows "length (FormatIEC s) \<le> 6 \<and>
    (if 99949999999999992 \<le> s \<and> s < 99950000000000000 then FormatSI s = ''100.0P'' else length (FormatSI s) \<le> 5)"
proof (cases "99949999999999992 \<le> s \<and> s < 99950000000000000")
  case False
  then show ?thesis using FormatIEC_width [OF assms] FormatSI_width [OF assms] by auto
next
  case True
  then have n: "double_round (of_int s) = 99950000000000000" using petabyte_edge by simp
  have "round_half_even (double_round (9995 / 100) * 10 ^ 1) = 1000"
    unfolding iec_bounds by (rule round_half_even_unique') simp_all
  then have "fixed_text 1 (double_round (9995 / 100)) = ''100.0''"
    by (simp add: fixed_text_def Let_def pad_left_def nat_dec.simps digit_char_eq_iff)
  then have "FormatSI s = ''100.0P''" using True n by (simp add: FormatSI_def si_step_def Let_def snprintf_buf_def)
  then show ?thesis using True FormatIEC_width [OF assms] by simp
qed

theorem si_iec_width_witness:
  "length (FormatIEC 1048575) \<le> 6 \<and> length (FormatSI 999499) \<le> 5 \<and> FormatSI 99949999999999999 = ''100.0P''"
  using si_iec_width [of 1048575] si_iec_width [of 999499] si_iec_width [of 99949999999999999] by simp

end
