(* ===== verification/ProcessInfo.thy ===== *)
theory ProcessInfo
  imports StringPiece Threads "HOL-Library.Multiset"
begin

text \<open>
  \<open>ReadSmallFile\<close> of \<open>dwater/base/file_util.h\<close> and \<open>file_util.cc\<close>, and \<open>process_info.h\<close>, \<open>process_info.cc\<close>, which reads what
  the kernel says about the process. What the system answers is an argument: the descriptor or error of \<open>open\<close>, the
  outcome of \<open>fstat\<close>, of each \<open>read\<close> as a function of the position and the number of bytes asked for, and the names in a
  directory.
\<close>

section \<open>Reading small files\<close>

record read_small_file =
  rf_fd :: int
  rf_err :: int
  rf_buf :: "char list"

definition kbuffer_size :: nat where "kbuffer_size = 64 * 1024"

definition EISDIR :: int where "EISDIR = 21"

text \<open>The outcome of \<open>open\<close>: a descriptor, or the error number.\<close>

definition ReadSmallFile_new :: "int + int \<Rightarrow> read_small_file" where
  "ReadSmallFile_new opened =
     (case opened of Inr fd \<Rightarrow> \<lparr>rf_fd = fd, rf_err = 0, rf_buf = [CHR 0x00]\<rparr>
      | Inl e \<Rightarrow> \<lparr>rf_fd = - 1, rf_err = e, rf_buf = [CHR 0x00]\<rparr>)"

text \<open>The descriptor the destructor closes.\<close>

definition ReadSmallFile_destroy :: "read_small_file \<Rightarrow> int option" where
  "ReadSmallFile_destroy f = (if rf_fd f \<ge> 0 then Some (rf_fd f) else None)"

record stat_buf =
  st_size :: int
  st_regular :: bool
  st_directory :: bool
  st_mtime :: int
  st_ctime :: int

datatype read_outcome = Read_bytes "char list" | Read_error int

text \<open>The loop; the content grows with every round, so that it ends. \<open>None\<close> stands for no error.\<close>

function read_loop :: "(nat \<Rightarrow> nat \<Rightarrow> read_outcome) \<Rightarrow> nat \<Rightarrow> string \<Rightarrow> string \<times> int option" where
  "read_loop rd max_size content =
     (if length content < max_size
      then (let to_read = min (max_size - length content) kbuffer_size
            in case rd (length content) to_read of
                 Read_error e \<Rightarrow> (content, Some e)
               | Read_bytes bs \<Rightarrow>
                   if take to_read bs = [] then (content, None) else read_loop rd max_size (content @ take to_read bs))
      else (content, None))"
  by auto
termination
  by (relation "measure (\<lambda>(rd, max_size, content). max_size - length content)")
    (auto simp: kbuffer_size_def min_def intro!: diff_less_mono2 split: if_splits)

declare read_loop.simps [simp del]

record read_result =
  rr_err :: int
  rr_content :: string
  rr_file_size :: "int option"
  rr_modify_time :: "int option"
  rr_create_time :: "int option"

text \<open>
  \<open>want_size\<close>, \<open>want_modify\<close> and \<open>want_create\<close> say which of the pointers are not null; a value that is not stored is \<open>None\<close>.
\<close>

definition ReadToString ::
  "(int + stat_buf) \<Rightarrow> (nat \<Rightarrow> nat \<Rightarrow> read_outcome) \<Rightarrow> int \<Rightarrow> string \<Rightarrow> bool \<Rightarrow> bool \<Rightarrow> bool \<Rightarrow> read_small_file \<Rightarrow> read_result" where
  "ReadToString fstat rd max_size content want_size want_modify want_create f =
     (let r = \<lparr>rr_err = rf_err f, rr_content = content, rr_file_size = None, rr_modify_time = None, rr_create_time = None\<rparr>
      in if rf_fd f > 0
         then (let r = r\<lparr>rr_content := ''''\<rparr>;
                   r = (if want_size
                        then (case fstat of
                                Inl e \<Rightarrow> r\<lparr>rr_err := e\<rparr>
                              | Inr st \<Rightarrow>
                                  (let r = (if \<not> st_regular st then r\<lparr>rr_file_size := Some (st_size st)\<rparr>
                                            else if st_directory st then r\<lparr>rr_err := EISDIR\<rparr> else r);
                                       r = (if want_modify then r\<lparr>rr_modify_time := Some (st_mtime st)\<rparr> else r)
                                   in if want_create then r\<lparr>rr_create_time := Some (st_ctime st)\<rparr> else r))
                        else r);
                   (c, e) = read_loop rd (to_size max_size) (rr_content r)
               in r\<lparr>rr_content := c, rr_err := (case e of None \<Rightarrow> rr_err r | Some e \<Rightarrow> e)\<rparr>)
         else r)"

text \<open>\<open>ReadToBuffer\<close>: the outcome of \<open>pread\<close>; the error, the size and the file are the result.\<close>

definition ReadToBuffer :: "read_outcome \<Rightarrow> read_small_file \<Rightarrow> int \<times> nat option \<times> read_small_file" where
  "ReadToBuffer pread f =
     (if rf_fd f \<ge> 0
      then (case pread of
              Read_bytes bs \<Rightarrow> (let bs = take (kbuffer_size - 1) bs in (rf_err f, Some (length bs), f\<lparr>rf_buf := bs @ [CHR 0x00]\<rparr>))
            | Read_error e \<Rightarrow> (e, None, f))
      else (rf_err f, None, f))"

definition ReadFile :: "int + int \<Rightarrow> (nat \<Rightarrow> nat \<Rightarrow> read_outcome) \<Rightarrow> int \<Rightarrow> string \<Rightarrow> read_result" where
  "ReadFile opened rd max_size content =
     ReadToString (Inl 0) rd max_size content False False False (ReadSmallFile_new opened)"

section \<open>Text of the kernel\<close>

definition c_isdigit :: "char \<Rightarrow> bool" where
  "c_isdigit c \<longleftrightarrow> 48 \<le> (of_char c :: nat) \<and> (of_char c :: nat) \<le> 57"

definition c_isspace :: "char \<Rightarrow> bool" where
  "c_isspace c \<longleftrightarrow> (of_char c :: nat) = 32 \<or> 9 \<le> (of_char c :: nat) \<and> (of_char c :: nat) \<le> 13"

text \<open>\<open>atoi\<close> of the C library.\<close>

definition atoi :: "string \<Rightarrow> int" where
  "atoi s =
     (let s = dropWhile c_isspace s; neg = (s \<noteq> [] \<and> hd s = CHR ''-'');
          s = (if s \<noteq> [] \<and> (hd s = CHR ''-'' \<or> hd s = CHR ''+'') then tl s else s);
          v = int (dec_value (takeWhile c_isdigit s))
      in if neg then - v else v)"

text \<open>\<open>Procname(stat)\<close>: what is between the first opening and the first closing parenthesis.\<close>

definition Procname_stat :: "string \<Rightarrow> string_piece" where
  "Procname_stat stat =
     (case (memchr_idx (CHR ''('') stat, memchr_idx (CHR '')'') stat) of
        (Some lp, Some rp) \<Rightarrow>
          if lp < rp then StringPiece_Set (drop (lp + 1) stat) (to_int32 (int (rp - lp - 1))) StringPiece_default
          else StringPiece_default
      | _ \<Rightarrow> StringPiece_default)"

definition ProcStatus :: "int + int \<Rightarrow> (nat \<Rightarrow> nat \<Rightarrow> read_outcome) \<Rightarrow> string" where
  "ProcStatus opened rd = rr_content (ReadFile opened rd 65536 '''')"

definition ProcStat :: "int + int \<Rightarrow> (nat \<Rightarrow> nat \<Rightarrow> read_outcome) \<Rightarrow> string" where
  "ProcStat opened rd = rr_content (ReadFile opened rd 65536 '''')"

text \<open>The file system is a function of the path here, since the path depends on the thread.\<close>

definition ThreadStat ::
  "(string \<Rightarrow> (int + int) \<times> (nat \<Rightarrow> nat \<Rightarrow> read_outcome)) \<Rightarrow> int \<Rightarrow> current_thread \<Rightarrow> string \<times> current_thread" where
  "ThreadStat fs gettid t =
     (case current_thread_Tid gettid t of (tid, t) \<Rightarrow>
        case fs (snprintf_buf 64 (''/proc/self/task/'' @ int_dec tid @ ''/stat'')) of
          (opened, rd) \<Rightarrow> (rr_content (ReadFile opened rd 65536 ''''), t))"

definition Procname :: "int + int \<Rightarrow> (nat \<Rightarrow> nat \<Rightarrow> read_outcome) \<Rightarrow> string result" where
  "Procname opened rd = StringPiece_AsString (Procname_stat (ProcStat opened rd))"

definition NumThreads :: "int + int \<Rightarrow> (nat \<Rightarrow> nat \<Rightarrow> read_outcome) \<Rightarrow> int" where
  "NumThreads opened rd =
     (let status = ProcStatus opened rd; pos = find_sub ''Threads:'' status
      in if pos < length status then atoi (drop (pos + 8) status) else 0)"

definition PidString :: "int \<Rightarrow> string" where
  "PidString pid = snprintf_buf 32 (int_dec pid)"

text \<open>The name \<open>getpwuid_r\<close> finds, if any.\<close>

definition Username :: "string option \<Rightarrow> string" where
  "Username pw_name = (case pw_name of Some name \<Rightarrow> name | None \<Rightarrow> ''unknownuser'')"

text \<open>The bytes \<open>gethostname\<close> leaves in the buffer of 256, or \<open>None\<close> when it fails.\<close>

definition Hostname :: "char list option \<Rightarrow> string" where
  "Hostname buf =
     (case buf of
        Some buf \<Rightarrow> (let buf = buf[255 := CHR 0x00] in take (strlen buf) buf)
      | None \<Rightarrow> ''unknownhost'')"

definition ExePath :: "char list option \<Rightarrow> string" where
  "ExePath link = (case link of Some path \<Rightarrow> take 1024 path | None \<Rightarrow> '''')"

section \<open>Directories\<close>

text \<open>
  \<open>scandir\<close> calls the filter for every name; both filters answer 0, so that no list comes back and only what they count
  remains. \<open>None\<close>: the directory cannot be read.
\<close>

definition FdDirFilter :: "string \<Rightarrow> nat \<Rightarrow> nat" where
  "FdDirFilter d_name n = (if d_name \<noteq> [] \<and> c_isdigit (hd d_name) then n + 1 else n)"

definition TaskDirFilter :: "string \<Rightarrow> int list \<Rightarrow> int list" where
  "TaskDirFilter d_name pids = (if d_name \<noteq> [] \<and> c_isdigit (hd d_name) then pids @ [atoi d_name] else pids)"

definition ScanDir :: "string list option \<Rightarrow> (string \<Rightarrow> 'a \<Rightarrow> 'a) \<Rightarrow> 'a \<Rightarrow> 'a" where
  "ScanDir names f x = (case names of None \<Rightarrow> x | Some names \<Rightarrow> fold f names x)"

definition OpenedFiles :: "string list option \<Rightarrow> nat" where
  "OpenedFiles names = ScanDir names FdDirFilter 0"

text \<open>\<open>rlim_cur\<close>, unless \<open>getrlimit\<close> fails.\<close>

definition MaxOpenFiles :: "int option \<Rightarrow> string list option \<Rightarrow> int" where
  "MaxOpenFiles rlim_cur names = (case rlim_cur of None \<Rightarrow> int (OpenedFiles names) | Some n \<Rightarrow> to_int32 n)"

definition process_Threads :: "string list option \<Rightarrow> int list" where
  "process_Threads names = sort (ScanDir names TaskDirFilter [])"

text \<open>The ticks of \<open>times\<close>; \<open>CPUTime\<close> starts at zero.\<close>

definition CpuTime :: "int \<Rightarrow> (int \<times> int) option \<Rightarrow> rat \<times> rat" where
  "CpuTime clock_ticks tms =
     (case tms of None \<Rightarrow> (0, 0)
      | Some (utime, stime) \<Rightarrow>
          (let hz = double_round (of_int clock_ticks)
           in (double_round (double_round (of_int utime) / hz), double_round (double_round (of_int stime) / hz))))"

section \<open>Lemmas\<close>

text \<open>A kernel that reads a file: some bytes at the position, as long as there are any, and never more than asked for.\<close>

definition reads_from :: "string \<Rightarrow> (nat \<Rightarrow> nat \<Rightarrow> read_outcome) \<Rightarrow> bool" where
  "reads_from file rd \<longleftrightarrow> (\<forall>off n. off \<le> length file \<longrightarrow> 0 < n \<longrightarrow>
     (\<exists>k. k \<le> n \<and> (k = 0 \<longrightarrow> off = length file) \<and> rd off n = Read_bytes (take k (drop off file))))"

lemma read_loop_file:
  assumes "reads_from file rd" and "i \<le> max_size" "i \<le> length file"
  shows "read_loop rd max_size (take i file) = (take max_size file, None)"
  using assms(2,3)
proof (induction "max_size - i" arbitrary: i rule: less_induct)
  case less
  show ?case
  proof (cases "i < max_size")
    case False
    then show ?thesis using less.prems by (simp add: read_loop.simps)
  next
    case True
    define n where "n = min (max_size - i) kbuffer_size"
    have n: "0 < n" "n \<le> max_size - i" using True by (auto simp: n_def kbuffer_size_def)
    obtain k where k: "k \<le> n" "k = 0 \<longrightarrow> i = length file" "rd i n = Read_bytes (take k (drop i file))"
      using assms(1) less.prems n(1) unfolding reads_from_def by blast
    have step: "read_loop rd max_size (take i file) =
        (if take k (drop i file) = [] then (take i file, None)
         else read_loop rd max_size (take i file @ take k (drop i file)))"
      using True less.prems k(1,3) by (subst read_loop.simps) (simp add: n_def [symmetric] Let_def min_absorb1 min_absorb2)
    show ?thesis
    proof (cases "take k (drop i file) = []")
      case end_of_file: True
      then have "i = length file" using k(2) less.prems by auto
      then show ?thesis using step end_of_file less.prems by simp
    next
      case False
      define d where "d = min k (length file - i)"
      have d: "0 < d" "i + d \<le> max_size" "i + d \<le> length file" "take i file @ take k (drop i file) = take (i + d) file"
        using False k(1) n less.prems by (auto simp: d_def take_add min_def)
      then have "read_loop rd max_size (take (i + d) file) = (take max_size file, None)"
        using True by (intro less.hyps) auto
      with step False d(4) show ?thesis by simp
    qed
  qed
qed

lemma ReadFile_whole:
  assumes "reads_from file rd" "0 < fd"
  shows "rr_content (ReadFile (Inr fd) rd 65536 content) = take 65536 file" "rr_err (ReadFile (Inr fd) rd 65536 content) = 0"
  using read_loop_file [OF assms(1), of 0 65536] assms(2)
  by (simp_all add: ReadFile_def ReadToString_def ReadSmallFile_new_def to_size_def Let_def)

lemma nat_dec_isdigit: "list_all c_isdigit (nat_dec n)"
  using digit_in_nat_dec [of _ n] by (force simp: list_all_iff c_isdigit_def digit_char_val)

lemma digit_not_space: "c_isdigit c \<Longrightarrow> \<not> c_isspace c \<and> c \<noteq> CHR ''-'' \<and> c \<noteq> CHR ''+''"
  by (auto simp: c_isdigit_def c_isspace_def)

lemma atoi_decimal:
  assumes "rest = [] \<or> \<not> c_isdigit (hd rest)" "list_all c_isspace ws"
  shows "atoi (ws @ nat_dec n @ rest) = int n"
proof -
  obtain c cs where c: "nat_dec n = c # cs" by (cases "nat_dec n") auto
  then have d: "c_isdigit c" "list_all c_isdigit cs" using nat_dec_isdigit [of n] by simp_all
  have "dropWhile c_isspace (ws @ nat_dec n @ rest) = nat_dec n @ rest"
    using assms(2) digit_not_space [OF d(1)] by (induction ws) (auto simp: c)
  moreover have "takeWhile c_isdigit (nat_dec n @ rest) = nat_dec n"
    using nat_dec_isdigit [of n] assms(1) by (induction "nat_dec n") (cases rest; auto simp: list_all_iff takeWhile_append)+
  ultimately show ?thesis
    using digit_not_space [OF d(1)] by (simp add: atoi_def Let_def dec_value_nat_dec) (simp add: c)
qed

text \<open>A line of the status file and the file with the process name, as \<open>proc(5)\<close> describes them.\<close>

lemma Procname_stat_text:
  assumes "CHR ''('' \<notin> set pre" "CHR '')'' \<notin> set pre" "CHR '')'' \<notin> set name" "length name < 2 ^ 31"
  shows "StringPiece_AsString (Procname_stat (pre @ ''('' @ name @ '')'' @ post)) = Inr name"
proof -
  have "memchr_idx (CHR ''('') (pre @ ''('' @ name @ '')'' @ post) = Some (length pre)"
    using assms(1) by (simp add: memchr_idx_def find_idx_append_notin) (simp add: find_idx_def)
  moreover have "memchr_idx (CHR '')'') (pre @ ''('' @ name @ '')'' @ post) = Some (length pre + 1 + length name)"
    using assms(2,3) find_idx_append_notin [of "CHR '')''" "pre @ ''('' @ name" "'')'' @ post"]
    by (simp add: memchr_idx_def) (simp add: find_idx_def)
  moreover have "to_int32 (int (length name)) = int (length name)" using assms(4) by (intro to_int32_in_range) auto
  moreover have "to_size (int (length name)) = length name" using assms(4) by (simp add: to_size_def nat_mod_as_int)
  ultimately show ?thesis
    by (simp add: Procname_stat_def StringPiece_Set_def StringPiece_AsString_def ptr_read_def StringPiece_default_def)
qed

lemma ScanDir_tasks:
  "ScanDir (Some names) TaskDirFilter pids = pids @ map atoi (filter (\<lambda>d. d \<noteq> [] \<and> c_isdigit (hd d)) names)"
  by (induction names arbitrary: pids) (auto simp: ScanDir_def TaskDirFilter_def)

lemma ScanDir_files: "ScanDir (Some names) FdDirFilter n = n + length (filter (\<lambda>d. d \<noteq> [] \<and> c_isdigit (hd d)) names)"
  by (induction names arbitrary: n) (auto simp: ScanDir_def FdDirFilter_def)

lemma tid_names:
  assumes "mset names = {#''.'', ''..''#} + image_mset nat_dec (mset tids)"
  shows "mset (filter (\<lambda>d. d \<noteq> [] \<and> c_isdigit (hd d)) names) = image_mset nat_dec (mset tids)"
proof -
  have "nat_dec t \<noteq> [] \<and> c_isdigit (hd (nat_dec t))" for t using nat_dec_isdigit [of t] by (cases "nat_dec t") auto
  then have "filter_mset (\<lambda>d. d \<noteq> [] \<and> c_isdigit (hd d)) (image_mset nat_dec (mset tids)) = image_mset nat_dec (mset tids)"
    by (simp add: filter_mset_image_mset)
  moreover have "\<not> c_isdigit (CHR ''.'')" by (simp add: c_isdigit_def)
  ultimately show ?thesis by (simp add: mset_filter assms)
qed

text \<open>What the process learns about itself is what the kernel wrote, however the reads cut it up: the process name is
  the text between the parentheses of \<open>/proc/self/stat\<close> (and the call fails on a file without them, because the default
  \<open>StringPiece\<close> it returns claims one byte at the null pointer), the number of threads is the one behind \<open>Threads:\<close> in
  \<open>/proc/self/status\<close>, and the thread ids and the count of files are those of the directories, the former in increasing
  order.\<close>

theorem process_info_reads:
  assumes stat: "reads_from (pre @ ''('' @ name @ '')'' @ post) rd" "CHR ''('' \<notin> set pre" "CHR '')'' \<notin> set pre" "CHR '')'' \<notin> set name"
    "length (pre @ ''('' @ name @ '')'' @ post) \<le> 65536"
    and no_name: "reads_from plain rd'" "CHR ''('' \<notin> set plain"
    and status: "reads_from (before @ ''Threads:'' @ ws @ nat_dec n @ CHR 0x0A # rest) rd''"
      "find_sub ''Threads:'' (before @ ''Threads:'' @ ws @ nat_dec n @ CHR 0x0A # rest) = length before" "list_all c_isspace ws"
      "length (before @ ''Threads:'' @ ws @ nat_dec n @ CHR 0x0A # rest) \<le> 65536"
    and dir: "mset names = {#''.'', ''..''#} + image_mset nat_dec (mset tids)" and fd: "0 < fd"
  shows "Procname (Inr fd) rd = Inr name \<and> Procname (Inr fd) rd' = Inl Bad_access \<and> NumThreads (Inr fd) rd'' = int n \<and>
    process_Threads (Some names) = sort (map int tids) \<and> OpenedFiles (Some names) = length tids"
proof (intro conjI)
  have "length name < 2 ^ 31" using stat(5) by simp
  then show "Procname (Inr fd) rd = Inr name"
    using ReadFile_whole(1) [OF stat(1) fd, of "''''"] Procname_stat_text [OF stat(2-4), of post] stat(5)
    by (simp add: Procname_def ProcStat_def)
  have "CHR ''('' \<notin> set (take 65536 plain)" using no_name(2) by (meson in_set_takeD)
  then show "Procname (Inr fd) rd' = Inl Bad_access"
    using ReadFile_whole(1) [OF no_name(1) fd, of "''''"]
    by (simp add: Procname_def ProcStat_def Procname_stat_def memchr_idx_def StringPiece_default_def StringPiece_AsString_def ptr_read_def)
  have "atoi (ws @ nat_dec n @ CHR 0x0A # rest) = int n" by (rule atoi_decimal) (use status(3) in \<open>auto simp: c_isdigit_def\<close>)
  then show "NumThreads (Inr fd) rd'' = int n"
    using ReadFile_whole(1) [OF status(1) fd, of "''''"] status(2,4) by (simp add: NumThreads_def ProcStatus_def Let_def)
  note T = tid_names [OF dir]
  have at: "atoi (nat_dec t) = int t" for t using atoi_decimal [of "[]" "[]" t] by simp
  have "mset (map atoi (filter (\<lambda>d. d \<noteq> [] \<and> c_isdigit (hd d)) names)) = mset (map int tids)"
    by (simp only: mset_map T) (simp add: multiset.map_comp comp_def at)
  then show "process_Threads (Some names) = sort (map int tids)"
    by (simp add: process_Threads_def ScanDir_tasks properties_for_sort)
  show "OpenedFiles (Some names) = length tids"
    using arg_cong [OF T, of "size"] by (simp only: size_mset size_image_mset OpenedFiles_def ScanDir_files add_0)
qed

theorem process_info_reads_witness:
  "Procname (Inr 3) (\<lambda>off n. Read_bytes (take (min n 5) (drop off ''7 (init) S''))) = Inr ''init'' \<and>
   NumThreads (Inr 3) (\<lambda>off n. Read_bytes (take (min n 5) (drop off (''Pid: 7 Threads: 12'' @ [CHR 0x0A])))) = 12 \<and>
   process_Threads (Some [''.'', ''..'', ''41'', ''7'']) = [7, 41]"
proof -
  have rd: "reads_from data (\<lambda>off n. Read_bytes (take (min n 5) (drop off data)))" for data
    unfolding reads_from_def
  proof (intro allI impI)
    fix off n :: nat assume "off \<le> length data" "0 < n"
    then show "\<exists>k\<le>n. (k = 0 \<longrightarrow> off = length data) \<and> Read_bytes (take (min n 5) (drop off data)) = Read_bytes (take k (drop off data))"
      by (intro exI [of _ "min n 5"]) auto
  qed
  have d: "nat_dec 12 = ''12''" "nat_dec 41 = ''41''" "nat_dec 7 = ''7''"
    by (simp_all add: nat_dec.simps digit_char_eq_iff)
  show ?thesis
    using process_info_reads [of "''7 ''" "''init''" "'' S''" _ "''''" "\<lambda>off n. Read_bytes []" "''Pid: 7 ''" "'' ''" 12 "[]" _
        "[''.'', ''..'', ''41'', ''7'']" "[41, 7]" 3, OF rd _ _ _ _ _ _ rd] rd [of "''''"]
    by (simp add: d c_isspace_def)
qed

end
