(* ===== verification/BufferCalls.thy ===== *)
theory BufferCalls
  imports Buffer
begin

text \<open>
  Every call a client of \<open>net/buffer.h\<close> can make, as one datatype, and what no sequence of calls can do: bring the indices
  out of order, or make the buffer touch memory that is not its own. Sizes are at most the largest size of a vector, the
  bytes \<open>readv\<close> delivers fit the space it was offered, and \<open>Shrink\<close>, which goes through the \<open>int\<close> length of a
  \<open>StringPiece\<close>, is called with less than \<open>2 ^ 31\<close> readable bytes.
\<close>

datatype buffer_call =
    Call_Append "char list" | Call_AppendInt64 "64 word" | Call_AppendInt32 "32 word" | Call_AppendInt16 "16 word"
  | Call_AppendInt8 "8 word" | Call_Prepend "char list" | Call_PrependInt64 "64 word" | Call_PrependInt32 "32 word"
  | Call_PrependInt16 "16 word" | Call_PrependInt8 "8 word" | Call_Retrieve nat | Call_RetrieveUntil nat | Call_RetrieveInt64
  | Call_RetrieveInt32 | Call_RetrieveInt16 | Call_RetrieveInt8 | Call_RetrieveAll | Call_RetrieveAsString nat
  | Call_RetrieveAllAsString | Call_ReadInt64 | Call_ReadInt32 | Call_ReadInt16 | Call_ReadInt8
  | Call_EnsureWritableBytes nat | Call_hasWritten nat | Call_unwrite nat | Call_Shrink nat | Call_ReadFd "int + char list"

definition drop_value :: "('a \<times> buffer) result \<Rightarrow> buffer result" where
  "drop_value r = bindr r (\<lambda>(_, b). Inr b)"

fun buffer_exec :: "buffer_call \<Rightarrow> buffer \<Rightarrow> buffer result" where
  "buffer_exec (Call_Append d) = Buffer_Append d (length d)"
| "buffer_exec (Call_AppendInt64 x) = Buffer_AppendInt64 x"
| "buffer_exec (Call_AppendInt32 x) = Buffer_AppendInt32 x"
| "buffer_exec (Call_AppendInt16 x) = Buffer_AppendInt16 x"
| "buffer_exec (Call_AppendInt8 x) = Buffer_AppendInt8 x"
| "buffer_exec (Call_Prepend d) = Buffer_Prepend d"
| "buffer_exec (Call_PrependInt64 x) = Buffer_PrependInt64 x"
| "buffer_exec (Call_PrependInt32 x) = Buffer_PrependInt32 x"
| "buffer_exec (Call_PrependInt16 x) = Buffer_PrependInt16 x"
| "buffer_exec (Call_PrependInt8 x) = Buffer_PrependInt8 x"
| "buffer_exec (Call_Retrieve n) = Buffer_Retrieve n"
| "buffer_exec (Call_RetrieveUntil e) = Buffer_RetrieveUntil e"
| "buffer_exec Call_RetrieveInt64 = Buffer_RetrieveInt64"
| "buffer_exec Call_RetrieveInt32 = Buffer_RetrieveInt32"
| "buffer_exec Call_RetrieveInt16 = Buffer_RetrieveInt16"
| "buffer_exec Call_RetrieveInt8 = Buffer_RetrieveInt8"
| "buffer_exec Call_RetrieveAll = (\<lambda>b. Inr (Buffer_RetrieveAll b))"
| "buffer_exec (Call_RetrieveAsString n) = (\<lambda>b. drop_value (Buffer_RetrieveAsString n b))"
| "buffer_exec Call_RetrieveAllAsString = (\<lambda>b. drop_value (Buffer_RetrieveAllAsString b))"
| "buffer_exec Call_ReadInt64 = (\<lambda>b. drop_value (Buffer_ReadInt64 b))"
| "buffer_exec Call_ReadInt32 = (\<lambda>b. drop_value (Buffer_ReadInt32 b))"
| "buffer_exec Call_ReadInt16 = (\<lambda>b. drop_value (Buffer_ReadInt16 b))"
| "buffer_exec Call_ReadInt8 = (\<lambda>b. drop_value (Buffer_ReadInt8 b))"
| "buffer_exec (Call_EnsureWritableBytes n) = Buffer_EnsureWritableBytes n"
| "buffer_exec (Call_hasWritten n) = Buffer_hasWritten n"
| "buffer_exec (Call_unwrite n) = Buffer_unwrite n"
| "buffer_exec (Call_Shrink n) = Buffer_Shrink n"
| "buffer_exec (Call_ReadFd r) = (\<lambda>b. bindr (Buffer_ReadFd r b) (\<lambda>(_, _, b). Inr b))"

fun call_sized :: "buffer_call \<Rightarrow> buffer \<Rightarrow> bool" where
  "call_sized (Call_Append d) b \<longleftrightarrow> length d \<le> max_vector"
| "call_sized (Call_EnsureWritableBytes n) b \<longleftrightarrow> n \<le> max_vector"
| "call_sized (Call_Shrink n) b \<longleftrightarrow> length (readable b) + n \<le> max_vector \<and> length (readable b) < 2 ^ 31"
| "call_sized (Call_ReadFd r) b \<longleftrightarrow> (case r of Inl _ \<Rightarrow> True | Inr d \<Rightarrow> length d \<le> readv_capacity b)"
| "call_sized _ b \<longleftrightarrow> True"

text \<open>A result that keeps the invariant, or fails in a way that leaves memory alone.\<close>

definition safe :: "buffer result \<Rightarrow> bool" where
  "safe r = (case r of Inl e \<Rightarrow> e = Assert_failed \<or> e = Length_error | Inr b \<Rightarrow> buf_inv b)"

named_theorems safe_intros

lemma safe_simps [simp]: "safe (Inr b) = buf_inv b" "safe (Inl e) = (e = Assert_failed \<or> e = Length_error)"
  by (simp_all add: safe_def)

lemma safe_assert [safe_intros]: "(P \<Longrightarrow> safe r) \<Longrightarrow> safe (c_assert P r)"
  by (simp add: c_assert_def)

lemma safe_bind [safe_intros]: "safe r \<Longrightarrow> (\<And>b. r = Inr b \<Longrightarrow> buf_inv b \<Longrightarrow> safe (f b)) \<Longrightarrow> safe (bindr r f)"
  by (cases r) auto

lemma MakeSpace_safe:
  assumes inv: "buf_inv b" and len: "len \<le> max_vector" "Buffer_WritableBytes b < len"
  shows "safe (Buffer_MakeSpace len b)"
proof -
  note D = buf_invD [OF inv]
  let ?r = "buf_reader_index b" and ?w = "buf_writer_index b" and ?v = "buf_buffer b"
  have sz: "szadd ?w len = ?w + len" using D len by (intro szadd_in_range) (simp add: max_vector_def size_limit_def)
  have short: "length ?v < ?w + len" using len(2) D by (simp add: buf_sizes inv)
  have grow: "safe (bindr (vresize ?v (?w + len)) (\<lambda>v. Inr (b\<lparr>buf_buffer := v\<rparr>)))"
    using D short by (auto simp: vresize_def buf_inv_def)
  have rd: "szadd kcheap_prepend (Buffer_ReadableBytes b) = kcheap_prepend + (?w - ?r)"
    using D by (simp add: buf_sizes inv szadd_def max_vector_def size_limit_def kcheap_prepend_def)
  have move: "buf_inv (b\<lparr>buf_buffer := overwrite ?v kcheap_prepend (slice ?v ?r ?w), buf_reader_index := kcheap_prepend,
      buf_writer_index := kcheap_prepend + (?w - ?r)\<rparr>)" if "kcheap_prepend < ?r"
    using D that by (auto simp: buf_inv_def)
  show ?thesis
    using grow move unfolding Buffer_MakeSpace_def sz Let_def rd by (auto simp: c_assert_def)
qed

lemma Ensure_safe [safe_intros]:
  assumes "buf_inv b" "len \<le> max_vector"
  shows "safe (Buffer_EnsureWritableBytes len b)"
  unfolding Buffer_EnsureWritableBytes_def using MakeSpace_safe [OF assms] assms(1) by (intro safe_bind safe_assert) auto

lemma hasWritten_safe [safe_intros]: "buf_inv b \<Longrightarrow> safe (Buffer_hasWritten len b)"
  unfolding Buffer_hasWritten_def
proof (rule safe_assert)
  assume inv: "buf_inv b" and le: "len \<le> Buffer_WritableBytes b"
  note D = buf_invD [OF inv]
  have "szadd (buf_writer_index b) len = buf_writer_index b + len"
    using le D by (intro szadd_in_range) (simp add: buf_sizes inv)
  then show "safe (Inr (b\<lparr>buf_writer_index := szadd (buf_writer_index b) len\<rparr>))"
    using le D by (simp add: buf_sizes inv) (simp add: buf_inv_def)
qed

lemma Append_safe [safe_intros]:
  assumes "buf_inv b" "len \<le> max_vector" "len \<le> length d"
  shows "safe (Buffer_Append d len b)"
  unfolding Buffer_Append_def
proof (rule safe_bind [OF Ensure_safe [OF assms(1,2)]])
  fix b' assume e: "Buffer_EnsureWritableBytes len b = Inr b'" and inv: "buf_inv b'"
  then have "len \<le> Buffer_WritableBytes b'" by (auto simp: Buffer_EnsureWritableBytes_def res_simps)
  then have "buf_inv (b'\<lparr>buf_buffer := overwrite (buf_buffer b') (Buffer_BeginWrite b') (take len d)\<rparr>)"
    using inv buf_invD [OF inv] assms(3) by (auto simp: buf_inv_def buf_sizes Buffer_BeginWrite_def)
  then show "safe (if length d < len then Inl Bad_access
      else Buffer_hasWritten len (b'\<lparr>buf_buffer := overwrite (buf_buffer b') (Buffer_BeginWrite b') (take len d)\<rparr>))"
    using assms(3) by (simp add: hasWritten_safe)
qed

lemma Retrieve_safe [safe_intros]: "buf_inv b \<Longrightarrow> safe (Buffer_Retrieve n b)"
  using Retrieve_ok [of b n] Retrieve_over [of b n] by (cases "n \<le> length (readable b)") auto

lemma Prepend_safe [safe_intros]:
  assumes "buf_inv b"
  shows "safe (Buffer_Prepend d b)"
proof (cases "length d \<le> buf_reader_index b")
  case True
  then show ?thesis using Prepend_ok [OF assms True] by auto
next
  case False
  then show ?thesis by (simp add: Buffer_Prepend_def Buffer_PrependableBytes_def)
qed

lemma unwrite_safe [safe_intros]:
  assumes "buf_inv b"
  shows "safe (Buffer_unwrite n b)"
proof (cases "n \<le> length (readable b)")
  case True
  then show ?thesis using unwrite_ok [OF assms True] by auto
next
  case False
  then show ?thesis by (simp add: Buffer_unwrite_def ReadableBytes_readable [OF assms])
qed

lemma le_bytes_safe [safe_intros]: "buf_inv b \<Longrightarrow> n \<le> max_vector \<Longrightarrow> safe (Buffer_Append (le_bytes n k) n b)"
  by (rule Append_safe) simp_all

lemma drop_value_bind: "drop_value (bindr r (\<lambda>b. Inr (x, b))) = r"
  by (cases r) (simp_all add: drop_value_def)

lemma drop_value_assert: "drop_value (c_assert P r) = c_assert P (drop_value r)"
  by (simp add: drop_value_def c_assert_def)

lemma Shrink_safe:
  assumes inv: "buf_inv b" and n: "length (readable b) + n \<le> max_vector" "length (readable b) < 2 ^ 31"
  shows "safe (Buffer_Shrink n b)"
proof -
  let ?l = "length (readable b)"
  have "kcheap_prepend + kinitial_size \<le> max_vector" by (simp add: kcheap_prepend_def kinitial_size_def max_vector_def)
  from Buffer_new_ok [OF this] obtain o0 where o0: "Buffer_new kinitial_size = Inr o0" "buf_inv o0" "buf_writer_index o0 = kcheap_prepend"
    "length (buf_buffer o0) = kcheap_prepend + kinitial_size" by auto
  have sz: "szadd (Buffer_ReadableBytes b) n = ?l + n"
    using n buf_invD [OF inv] unfolding ReadableBytes_readable [OF inv]
    by (intro szadd_in_range) (simp add: max_vector_def size_limit_def)
  have piece: "safe (Buffer_Append_piece (Buffer_toStringPiece b) o1)" if "buf_inv o1" for o1
  proof -
    have "?l \<le> length (drop (Buffer_Peek b) (buf_buffer b))"
      using length_readable [OF inv] buf_invD [OF inv] by (simp add: Buffer_Peek_def)
    moreover have "?l \<le> max_vector" using n(2) by (simp add: max_vector_def)
    ultimately show ?thesis
      using Append_safe [OF that, of ?l "drop (Buffer_Peek b) (buf_buffer b)"] n(2)
      by (simp add: Buffer_Append_piece_def Buffer_toStringPiece_def StringPiece_range_def ReadableBytes_readable [OF inv]
          to_int32_in_range to_size_in_range)
  qed
  have swap: "buf_inv (fst (Buffer_Swap b o2))" if "buf_inv o2" for o2
    using that by (simp add: Buffer_Swap_def buf_inv_def)
  show ?thesis
    unfolding Buffer_Shrink_def o0(1) sz bindr_Inr
    by (intro safe_bind Ensure_safe [OF o0(2) n(1)] piece) (simp_all add: swap)
qed

lemma ReadFd_safe:
  assumes inv: "buf_inv b" and cap: "case r of Inl _ \<Rightarrow> True | Inr d \<Rightarrow> length d \<le> readv_capacity b"
  shows "safe (bindr (Buffer_ReadFd r b) (\<lambda>(_, _, b). Inr b))"
proof (cases r)
  case (Inl e)
  then show ?thesis using inv by (simp add: Buffer_ReadFd_def)
next
  case (Inr d)
  let ?w = "Buffer_WritableBytes b"
  let ?v = "overwrite (buf_buffer b) (buf_writer_index b) (take ?w d)"
  note D = buf_invD [OF inv]
  have v: "length ?v = length (buf_buffer b)" using D by (simp add: buf_sizes inv)
  show ?thesis
  proof (cases "length d \<le> ?w")
    case True
    have "szadd (buf_writer_index b) (length d) = buf_writer_index b + length d"
      using True D by (intro szadd_in_range) (simp add: buf_sizes inv)
    then have "buf_inv (b\<lparr>buf_buffer := ?v, buf_writer_index := szadd (buf_writer_index b) (length d)\<rparr>)"
      using True D v inv by (simp add: buf_sizes buf_inv_def)
    with True Inr show ?thesis by (simp add: Buffer_ReadFd_def Let_def)
  next
    case False
    let ?c = "b\<lparr>buf_buffer := ?v, buf_writer_index := length ?v\<rparr>"
    have c: "buf_inv ?c" using D v inv by (simp add: buf_inv_def)
    have "length d - ?w \<le> extrabuf_size" using cap False Inr by (auto simp: readv_capacity_def Let_def split: if_splits)
    then have "length d - ?w \<le> max_vector" by (simp add: extrabuf_size_def max_vector_def)
    from Append_safe [OF c this, of "drop ?w d"] False Inr show ?thesis
      by (simp add: Buffer_ReadFd_def Let_def bindr_assoc)
  qed
qed

lemma read_int_safe:
  assumes "buf_inv b"
  shows "safe (drop_value (bindr (c_assert Q (Inr x)) (\<lambda>r. bindr (Buffer_Retrieve n b) (\<lambda>b'. Inr (r, b')))))"
  using Retrieve_safe [OF assms] by (cases Q) (simp add: drop_value_bind, simp add: drop_value_def)

lemma buffer_call_safe:
  assumes "buf_inv b" "call_sized call b"
  shows "safe (buffer_exec call b)"
proof -
  have small: "8 \<le> max_vector" "4 \<le> max_vector" "2 \<le> max_vector" "1 \<le> max_vector" by (simp_all add: max_vector_def)
  note R = Retrieve_safe [OF assms(1)] and P = Prepend_safe [OF assms(1)] and A = le_bytes_safe [OF assms(1)]
  show ?thesis
    using assms R P A [OF small(1)] A [OF small(2)] A [OF small(3)] A [OF small(4)]
    by (cases call)
      (auto simp: Append_safe Ensure_safe hasWritten_safe unwrite_safe Shrink_safe ReadFd_safe RetrieveAll_inv Let_def
        Buffer_AppendInt64_def Buffer_AppendInt32_def Buffer_AppendInt16_def Buffer_AppendInt8_def
        Buffer_PrependInt64_def Buffer_PrependInt32_def Buffer_PrependInt16_def Buffer_PrependInt8_def
        Buffer_RetrieveUntil_def Buffer_RetrieveInt64_def Buffer_RetrieveInt32_def Buffer_RetrieveInt16_def Buffer_RetrieveInt8_def
        Buffer_RetrieveAsString_def Buffer_RetrieveAllAsString_def Buffer_ReadInt64_def Buffer_ReadInt32_def Buffer_ReadInt16_def
        Buffer_ReadInt8_def Buffer_PeekInt64_def Buffer_PeekInt32_def Buffer_PeekInt16_def Buffer_PeekInt8_def
        drop_value_assert drop_value_bind read_int_safe intro!: safe_assert)
qed

text \<open>The buffers a program can have.\<close>

inductive buffer_reach :: "buffer \<Rightarrow> bool" where
  start: "n \<le> max_vector \<Longrightarrow> Buffer_new n = Inr b \<Longrightarrow> buffer_reach b"
| step: "buffer_reach b \<Longrightarrow> call_sized call b \<Longrightarrow> buffer_exec call b = Inr b' \<Longrightarrow> buffer_reach b'"

lemma buffer_reach_inv: "buffer_reach b \<Longrightarrow> buf_inv b"
proof (induction rule: buffer_reach.induct)
  case (start n b)
  have "szadd kcheap_prepend n = kcheap_prepend + n"
    using start(1) by (intro szadd_in_range) (simp add: max_vector_def size_limit_def kcheap_prepend_def)
  then have "kcheap_prepend + n \<le> max_vector"
    using start(2) by (auto simp: Buffer_new_def vresize_def res_simps Let_def split: if_splits)
  from Buffer_new_ok [OF this] start(2) show ?case by auto
next
  case (step b call b')
  then show ?case using buffer_call_safe [of b call] by simp
qed

text \<open>C12. The buffer is type safe: whatever calls a program makes on a buffer it created, with any arguments of a sensible
  size, reader index, writer index and vector stay in order, so that the readable, writable and prependable bytes add up
  to the vector and no subtraction of sizes wraps around; and no next call touches memory outside the vector or outside
  its arguments: it succeeds, or an assert fails, or the vector refuses to grow.\<close>

theorem buffer_type_safe:
  assumes "buffer_reach b" and "call_sized call b"
  shows "buf_inv b \<and>
    Buffer_PrependableBytes b + Buffer_ReadableBytes b + Buffer_WritableBytes b = length (buf_buffer b) \<and>
    (case buffer_exec call b of Inl e \<Rightarrow> e = Assert_failed \<or> e = Length_error | Inr b' \<Rightarrow> buf_inv b')"
proof -
  have inv: "buf_inv b" by (rule buffer_reach_inv [OF assms(1)])
  then show ?thesis
    using buffer_call_safe [OF inv assms(2)] buf_invD [OF inv] by (simp add: buf_sizes Buffer_PrependableBytes_def safe_def)
qed

theorem buffer_type_safe_witness:
  "\<exists>b b'. Buffer_new 16 = Inr b \<and> buffer_exec (Call_Append ''hello'') b = Inr b' \<and> buf_inv b' \<and>
     Buffer_PrependableBytes b' + Buffer_ReadableBytes b' + Buffer_WritableBytes b' = length (buf_buffer b') \<and>
     buffer_exec (Call_Retrieve 6) b' = Inl Assert_failed"
proof -
  obtain b where b: "Buffer_new 16 = Inr b" by (auto simp: Buffer_new_def vresize_def szadd_def szsub_def size_limit_def max_vector_def
    kcheap_prepend_def Buffer_ReadableBytes_def Buffer_WritableBytes_def Buffer_PrependableBytes_def Let_def)
  have r: "buffer_reach b" using b by (intro buffer_reach.start [of 16]) (simp add: max_vector_def)
  have s: "call_sized (Call_Append ''hello'') b" by (simp add: max_vector_def)
  have "buffer_exec (Call_Append ''hello'') b = Inr
    (b\<lparr>buf_buffer := overwrite (buf_buffer b) 8 ''hello'', buf_writer_index := 13\<rparr>)"
    using b by (auto simp: Buffer_new_def vresize_def szadd_def szsub_def size_limit_def max_vector_def Buffer_Append_def
      kcheap_prepend_def Buffer_ReadableBytes_def Buffer_WritableBytes_def Buffer_PrependableBytes_def Let_def
      Buffer_EnsureWritableBytes_def Buffer_hasWritten_def Buffer_BeginWrite_def overwrite_def)
  then obtain b' where b': "buffer_exec (Call_Append ''hello'') b = Inr b'" "buf_writer_index b' = 13" "buf_reader_index b' = buf_reader_index b"
    by auto
  have r': "buffer_reach b'" by (rule buffer_reach.step [OF r s b'(1)])
  have "buf_reader_index b = 8" using b by (auto simp: Buffer_new_def res_simps Let_def kcheap_prepend_def)
  then have "buffer_exec (Call_Retrieve 6) b' = Inl Assert_failed"
    using b' by (simp add: Buffer_Retrieve_def Buffer_ReadableBytes_def szsub_def size_limit_def)
  then show ?thesis using buffer_type_safe [OF r', of "Call_Retrieve 6"] b b'(1) by auto
qed

end
