(* ===== verification/DefaultPoller.thy ===== *)
theory DefaultPoller
  imports Poller
begin

text \<open>
  \<open>dwater/net/poller/default_poller.cc\<close> and the virtual calls of \<open>net/poller.h\<close>: an event loop holds a pointer to the base
  class, and the environment variable \<open>DWATER_USE_POLL\<close> decides which poller is behind it. Dispatching on the poller keeps
  the contract \<open>poller\<close>, because both do.
\<close>

datatype any_poller = Is_poll poll_poller | Is_epoll epoll_poller

text \<open>\<open>epollfd\<close>: the outcome of \<open>epoll_create1\<close>.\<close>

definition NewDefaultPoller :: "(string \<Rightarrow> bool) \<Rightarrow> int \<Rightarrow> any_poller result" where
  "NewDefaultPoller getenv epollfd =
     (if getenv ''DWATER_USE_POLL'' then Inr (Is_poll PollPoller_new)
      else bindr (EpollPoller_new epollfd) (\<lambda>p. Inr (Is_epoll p)))"

text \<open>The virtual calls.\<close>

fun Poller_UpdateChannel :: "chan_ptr \<Rightarrow> chan_store \<Rightarrow> any_poller \<Rightarrow> (chan_store \<times> any_poller) result" where
  "Poller_UpdateChannel c st (Is_poll p) = bindr (PollPoller_UpdateChannel True c st p) (\<lambda>(st, p). Inr (st, Is_poll p))"
| "Poller_UpdateChannel c st (Is_epoll p) = bindr (EpollPoller_UpdateChannel True 0 c st p) (\<lambda>(st, p). Inr (st, Is_epoll p))"

fun Poller_RemoveChannel :: "chan_ptr \<Rightarrow> chan_store \<Rightarrow> any_poller \<Rightarrow> (chan_store \<times> any_poller) result" where
  "Poller_RemoveChannel c st (Is_poll p) = bindr (PollPoller_RemoveChannel True c st p) (\<lambda>(st, p). Inr (st, Is_poll p))"
| "Poller_RemoveChannel c st (Is_epoll p) = bindr (EpollPoller_RemoveChannel True 0 c st p) (\<lambda>(st, p). Inr (st, Is_epoll p))"

fun Poller_channels :: "any_poller \<Rightarrow> (int \<times> chan_ptr) list" where
  "Poller_channels (Is_poll p) = pp_channels p"
| "Poller_channels (Is_epoll p) = ep_channels p"

fun any_inv :: "chan_store \<Rightarrow> any_poller \<Rightarrow> bool" where
  "any_inv st (Is_poll p) = poll_inv st p"
| "any_inv st (Is_epoll p) = epoll_inv st p"

fun any_watched :: "any_poller \<Rightarrow> int \<rightharpoonup> 32 word \<times> chan_ptr" where
  "any_watched (Is_poll p) = poll_watched p"
| "any_watched (Is_epoll p) = epoll_watched p"

interpretation dp: poller any_inv Poller_channels any_watched Poller_UpdateChannel Poller_RemoveChannel
proof (unfold_locales, goal_cases)
  case (1 st p f c)
  then show ?case by (cases p) (auto dest: pp.invar_channels ep.invar_channels)
next
  case (2 st p f)
  then show ?case by (cases p) (auto simp: pp.invar_watched ep.invar_watched)
next
  case (3 st p e c)
  then show ?case
  proof (cases p)
    case (Is_poll q)
    with 3 pp.update_ok [of st q e c] show ?thesis by fastforce
  next
    case (Is_epoll q)
    with 3 ep.update_ok [of st q e c] show ?thesis by fastforce
  qed
next
  case (4 st p c)
  then show ?case
  proof (cases p)
    case (Is_poll q)
    with 4 pp.remove_ok [of st q c] show ?thesis by fastforce
  next
    case (Is_epoll q)
    with 4 ep.remove_ok [of st q c] show ?thesis by fastforce
  qed
qed



end
