(* ===== verification/Utilities.thy ===== *)
theory Utilities
  imports Prelude
begin

text \<open>
  Small pieces of \<open>dwater/base\<close>: \<open>Singleton\<close> (\<open>singleton.h\<close>) over \<open>pthread_once\<close>, \<open>WeakCallback\<close> (\<open>weak_callback.h\<close>) over
  \<open>weak_ptr\<close>, \<open>StackTrace\<close> (\<open>current_thread.cc\<close>) over the symbols the runtime gives and its demangler, and \<open>Exception\<close>
  (\<open>exception.h\<close>, \<open>exception.cc\<close>), which keeps such a trace.
\<close>

section \<open>Singleton\<close>

text \<open>
  \<open>sg_once\<close>: \<open>pthread_once\<close> has run its routine, which happens before any call of it returns; \<open>sg_made\<close> and \<open>sg_deleted\<close> are
  the objects made and deleted so far.
\<close>

record singleton =
  sg_once :: bool
  sg_value :: "nat option"
  sg_atexit :: bool
  sg_made :: "nat list"
  sg_deleted :: "nat list"

definition singleton_init :: singleton where
  "singleton_init = \<lparr>sg_once = False, sg_value = None, sg_atexit = False, sg_made = [], sg_deleted = []\<rparr>"

text \<open>\<open>new\<close>: the address the allocation gives; \<open>no_destroy\<close>: the type has a member of that name.\<close>

definition Singleton_Init :: "nat \<Rightarrow> bool \<Rightarrow> singleton \<Rightarrow> singleton" where
  "Singleton_Init new no_destroy s =
     (let s = s\<lparr>sg_value := Some new, sg_made := sg_made s @ [new]\<rparr>
      in if \<not> no_destroy then s\<lparr>sg_atexit := True\<rparr> else s)"

definition Singleton_Instance :: "nat \<Rightarrow> bool \<Rightarrow> singleton \<Rightarrow> (nat \<times> singleton) result" where
  "Singleton_Instance new no_destroy s =
     (let s = (if sg_once s then s else (Singleton_Init new no_destroy s)\<lparr>sg_once := True\<rparr>)
      in case sg_value s of None \<Rightarrow> Inl Assert_failed | Some v \<Rightarrow> Inr (v, s))"

definition Singleton_Destroy :: "singleton \<Rightarrow> singleton" where
  "Singleton_Destroy s =
     s\<lparr>sg_deleted := sg_deleted s @ (case sg_value s of None \<Rightarrow> [] | Some v \<Rightarrow> [v]), sg_value := None\<rparr>"

text \<open>Calls of any threads, in the order \<open>pthread_once\<close> lets them through; each with the address it would get.\<close>

fun singleton_calls :: "nat list \<Rightarrow> bool \<Rightarrow> singleton \<Rightarrow> (nat list \<times> singleton) result" where
  "singleton_calls [] no_destroy s = Inr ([], s)"
| "singleton_calls (new # news) no_destroy s =
     bindr (Singleton_Instance new no_destroy s) (\<lambda>(v, s).
     bindr (singleton_calls news no_destroy s) (\<lambda>(vs, s). Inr (v # vs, s)))"

text \<open>The end of the process runs what was registered.\<close>

definition process_exit :: "singleton \<Rightarrow> singleton" where
  "process_exit s = (if sg_atexit s then Singleton_Destroy s else s)"

section \<open>Weak callbacks\<close>

record ('o, 'a, 's) weak_callback =
  wc_object :: 'o
  wc_function :: "'o \<Rightarrow> 'a \<Rightarrow> 's \<Rightarrow> 's"

definition MakeWeakCallback :: "'o \<Rightarrow> ('o \<Rightarrow> 'a \<Rightarrow> 's \<Rightarrow> 's) \<Rightarrow> ('o, 'a, 's) weak_callback" where
  "MakeWeakCallback object function = \<lparr>wc_object = object, wc_function = function\<rparr>"

text \<open>\<open>alive\<close>: the objects a \<open>shared_ptr\<close> still owns.\<close>

definition WeakCallback_call :: "'o set \<Rightarrow> ('o, 'a, 's) weak_callback \<Rightarrow> 'a \<Rightarrow> 's \<Rightarrow> 's" where
  "WeakCallback_call alive wc args s = (if wc_object wc \<in> alive then wc_function wc (wc_object wc) args s else s)"

section \<open>Stack traces\<close>

definition last_idx :: "char \<Rightarrow> string \<Rightarrow> nat option" where
  "last_idx c s = (if c \<in> set s then Some (length s - 1 - find_idx c (rev s)) else None)"

text \<open>One frame; \<open>cxa\<close> is the demangler, which may fail.\<close>

definition frame_text :: "bool \<Rightarrow> (string \<Rightarrow> string option) \<Rightarrow> string \<Rightarrow> string" where
  "frame_text demangle cxa s =
     (case (if demangle then (last_idx (CHR ''('') s, last_idx (CHR ''+'') s) else (None, None)) of
        (Some left_par, Some plus_sign) \<Rightarrow>
          (let name = (if left_par < plus_sign then slice s (left_par + 1) plus_sign else drop (left_par + 1) s)
           in case cxa name of
                Some demangled \<Rightarrow> take (left_par + 1) s @ demangled @ drop plus_sign s @ [CHR 0x0A]
              | None \<Rightarrow> s @ [CHR 0x0A])
      | _ \<Rightarrow> s @ [CHR 0x0A])"

text \<open>\<open>strings\<close>: what \<open>backtrace_symbols\<close> returned, for at most 200 frames; the first is \<open>StackTrace\<close> itself.\<close>

definition StackTrace :: "bool \<Rightarrow> (string \<Rightarrow> string option) \<Rightarrow> string list option \<Rightarrow> string" where
  "StackTrace demangle cxa strings =
     (case strings of None \<Rightarrow> '''' | Some frames \<Rightarrow> concat (map (frame_text demangle cxa) (drop 1 (take 200 frames))))"

record exception =
  ex_message :: string
  ex_stack :: string

definition Exception_new :: "(string \<Rightarrow> string option) \<Rightarrow> string list option \<Rightarrow> string \<Rightarrow> exception" where
  "Exception_new cxa strings msg = \<lparr>ex_message = msg, ex_stack = StackTrace False cxa strings\<rparr>"

section \<open>Lemmas\<close>

lemma last_idx_split:
  assumes "c \<notin> set ys"
  shows "last_idx c (xs @ c # ys) = Some (length xs)"
  using find_idx_append_notin [of c "rev ys" "c # rev xs"] assms by (simp add: last_idx_def) (simp add: find_idx_def)

text \<open>A frame as \<open>backtrace_symbols\<close> prints it: file, mangled name, offset.\<close>

lemma frame_demangled:
  assumes "CHR ''('' \<notin> set (name @ off)" "CHR ''+'' \<notin> set off"
  shows "frame_text True cxa (module @ ''('' @ name @ ''+'' @ off) =
    (case cxa name of
       Some d \<Rightarrow> module @ ''('' @ d @ ''+'' @ off @ [CHR 0x0A]
     | None \<Rightarrow> module @ ''('' @ name @ ''+'' @ off @ [CHR 0x0A])"
proof -
  let ?s = "module @ ''('' @ name @ ''+'' @ off"
  have "last_idx (CHR ''('') ?s = Some (length module)" using last_idx_split [of "CHR ''(''" "name @ ''+'' @ off" module] assms(1) by simp
  moreover have "last_idx (CHR ''+'') ?s = Some (length module + 1 + length name)"
    using last_idx_split [of "CHR ''+''" off "module @ ''('' @ name"] assms(2) by simp
  moreover have "slice ?s (length module + 1) (length module + 1 + length name) = name" by (simp add: slice_def)
  ultimately show ?thesis by (simp add: frame_text_def split: option.split)
qed

lemma singleton_settled:
  "sg_once s \<Longrightarrow> sg_value s = Some v \<Longrightarrow> singleton_calls news no_destroy s = Inr (replicate (length news) v, s)"
  by (induction news) (simp_all add: Singleton_Instance_def)

lemma singleton_first:
  "singleton_calls (new # news) no_destroy singleton_init =
     Inr (replicate (Suc (length news)) new, (Singleton_Init new no_destroy singleton_init)\<lparr>sg_once := True\<rparr>)"
proof -
  let ?s = "(Singleton_Init new no_destroy singleton_init)\<lparr>sg_once := True\<rparr>"
  have "sg_once ?s" "sg_value ?s = Some new" by (simp_all add: Singleton_Init_def Let_def)
  moreover have "Singleton_Instance new no_destroy singleton_init = Inr (new, ?s)"
    by (simp add: Singleton_Instance_def Singleton_Init_def singleton_init_def Let_def)
  ultimately show ?thesis using singleton_settled [of ?s new news no_destroy] by simp
qed

text \<open>The singleton is made once, whoever asks for it and however often; it is deleted at the end of the process unless its
  type says otherwise; and asking for it after that fails the assert.\<close>

theorem singleton_once:
  assumes "singleton_calls (new # news) no_destroy singleton_init = Inr (vs, s)"
  shows "set vs = {new} \<and> sg_made s = [new] \<and> sg_deleted (process_exit s) = (if no_destroy then [] else [new]) \<and>
    Singleton_Instance new' no_destroy (process_exit s) = (if no_destroy then Inr (new, s) else Inl Assert_failed)"
  using assms unfolding singleton_first
  by (auto simp: Singleton_Init_def singleton_init_def process_exit_def Singleton_Destroy_def Singleton_Instance_def Let_def)

theorem singleton_once_witness:
  "singleton_calls [7, 8, 9] False singleton_init = Inr ([7, 7, 7], (Singleton_Init 7 False singleton_init)\<lparr>sg_once := True\<rparr>) \<and>
   Singleton_Instance 10 False (process_exit ((Singleton_Init 7 False singleton_init)\<lparr>sg_once := True\<rparr>)) = Inl Assert_failed"
  using singleton_once [OF singleton_first [of 7 "[8, 9]" False], of 10] singleton_first [of 7 "[8, 9]" False] by (simp add: numeral_eq_Suc)

end
