(* ===== verification/BlockingQueues.thy ===== *)
theory BlockingQueues
  imports Monitor Format
begin

text \<open>
  The queues threads meet at: \<open>BlockingQueue\<close> (\<open>dwater/base/blocking_queue.h\<close>), \<open>BoundedBlockingQueue\<close>
  (\<open>bounded_blocking_queue.h\<close>) and the task queue of \<open>ThreadPool\<close> (\<open>thread_pool.h\<close>, \<open>thread_pool.cc\<close>), each
  shown to satisfy the contract \<open>blocking_monitor\<close>. The bounded queue stands on \<open>boost::circular_buffer\<close>, whose
  operations are the argument \<open>cb\<close> of its definitions.
\<close>

section \<open>BlockingQueue\<close>

definition BlockingQueue_Put :: "'a \<Rightarrow> 'a list \<Rightarrow> (bool \<times> 'a list) next_step" where
  "BlockingQueue_Put x queue = Finishes (True, queue @ [x])"

definition BlockingQueue_Take :: "'a list \<Rightarrow> ('a option \<times> 'a list) next_step" where
  "BlockingQueue_Take queue = (case queue of [] \<Rightarrow> Blocks | front # rest \<Rightarrow> Finishes (Some front, rest))"

definition BlockingQueue_Size :: "'a list \<Rightarrow> nat" where
  "BlockingQueue_Size queue = length queue"

text \<open>\<open>Take\<close> notifies nobody, \<open>Put\<close> never waits and there is no operation that stops the queue.\<close>

interpretation bq: blocking_monitor BlockingQueue_Put BlockingQueue_Take id "\<lambda>_. False" id "\<lambda>_. 0" "\<lambda>_. True" "[]"
  by unfold_locales (auto simp: BlockingQueue_Put_def BlockingQueue_Take_def split: list.splits)

section \<open>BoundedBlockingQueue\<close>

text \<open>The operations of \<open>boost::circular_buffer<T>\<close> the queue calls.\<close>

record ('q, 'a) circular_buffer =
  cb_full :: "'q \<Rightarrow> bool"
  cb_empty :: "'q \<Rightarrow> bool"
  cb_size :: "'q \<Rightarrow> nat"
  cb_capacity :: "'q \<Rightarrow> nat"
  cb_push_back :: "'a \<Rightarrow> 'q \<Rightarrow> 'q"
  cb_front :: "'q \<Rightarrow> 'a"
  cb_pop_front :: "'q \<Rightarrow> 'q"

text \<open>
  Its documented behaviour, with \<open>view\<close> the sequence of the elements: \<open>full\<close> is size equal to capacity;
  \<open>push_back\<close> on a buffer that is not full appends; \<open>front\<close> and \<open>pop_front\<close> are the first element and the
  removal of it on a buffer that is not empty.
\<close>

definition circular_ok :: "('q, 'a) circular_buffer \<Rightarrow> ('q \<Rightarrow> 'a list) \<Rightarrow> bool" where
  "circular_ok cb view \<longleftrightarrow>
     (\<forall>q. cb_full cb q \<longleftrightarrow> length (view q) = cb_capacity cb q) \<and>
     (\<forall>q. cb_empty cb q \<longleftrightarrow> view q = []) \<and>
     (\<forall>q. cb_size cb q = length (view q)) \<and>
     (\<forall>q. length (view q) \<le> cb_capacity cb q) \<and>
     (\<forall>x q. \<not> cb_full cb q \<longrightarrow> view (cb_push_back cb x q) = view q @ [x] \<and>
        cb_capacity cb (cb_push_back cb x q) = cb_capacity cb q) \<and>
     (\<forall>q. view q \<noteq> [] \<longrightarrow> cb_front cb q = hd (view q) \<and> view (cb_pop_front cb q) = tl (view q) \<and>
        cb_capacity cb (cb_pop_front cb q) = cb_capacity cb q)"

definition BoundedBlockingQueue_Put ::
  "('q, 'a) circular_buffer \<Rightarrow> 'a \<Rightarrow> 'q \<Rightarrow> (bool \<times> 'q) next_step" where
  "BoundedBlockingQueue_Put cb x queue =
     (if cb_full cb queue then Blocks else Finishes (True, cb_push_back cb x queue))"

definition BoundedBlockingQueue_Take ::
  "('q, 'a) circular_buffer \<Rightarrow> 'q \<Rightarrow> ('a option \<times> 'q) next_step" where
  "BoundedBlockingQueue_Take cb queue =
     (if cb_empty cb queue then Blocks else Finishes (Some (cb_front cb queue), cb_pop_front cb queue))"

definition BoundedBlockingQueue_Empty :: "('q, 'a) circular_buffer \<Rightarrow> 'q \<Rightarrow> bool" where
  "BoundedBlockingQueue_Empty cb queue = cb_empty cb queue"

definition BoundedBlockingQueue_Full :: "('q, 'a) circular_buffer \<Rightarrow> 'q \<Rightarrow> bool" where
  "BoundedBlockingQueue_Full cb queue = cb_full cb queue"

definition BoundedBlockingQueue_Size :: "('q, 'a) circular_buffer \<Rightarrow> 'q \<Rightarrow> nat" where
  "BoundedBlockingQueue_Size cb queue = cb_size cb queue"

definition BoundedBlockingQueue_Capacity :: "('q, 'a) circular_buffer \<Rightarrow> 'q \<Rightarrow> nat" where
  "BoundedBlockingQueue_Capacity cb queue = cb_capacity cb queue"

definition spare :: "('q, 'a) circular_buffer \<Rightarrow> 'q \<Rightarrow> nat" where
  "spare cb q = cb_capacity cb q - cb_size cb q"

lemma bounded_monitor:
  assumes "circular_ok cb view" and "view q0 = []"
  shows "blocking_monitor (BoundedBlockingQueue_Put cb) (BoundedBlockingQueue_Take cb) id (\<lambda>_. True) view (spare cb)
    (\<lambda>_. True) q0"
  using assms
  by unfold_locales
    (auto simp: circular_ok_def BoundedBlockingQueue_Put_def BoundedBlockingQueue_Take_def spare_def split: if_splits)

text \<open>A buffer of the documented behaviour: a list that is never longer than its capacity.\<close>

typedef 'a ring = "{(c :: nat, xs :: 'a list). length xs \<le> c}"
  by (intro exI [of _ "(0, [])"]) simp

setup_lifting type_definition_ring

lift_definition ring_items :: "'a ring \<Rightarrow> 'a list" is snd .
lift_definition ring_capacity :: "'a ring \<Rightarrow> nat" is fst .
lift_definition ring_new :: "nat \<Rightarrow> 'a ring" is "\<lambda>c. (c, [])" by simp
lift_definition ring_push :: "'a \<Rightarrow> 'a ring \<Rightarrow> 'a ring" is
  "\<lambda>x (c, xs). if length xs < c then (c, xs @ [x]) else (c, tl (xs @ [x]))" by (auto split: if_splits)
lift_definition ring_pop :: "'a ring \<Rightarrow> 'a ring" is "\<lambda>(c, xs). (c, tl xs)" by auto

definition ring_ops :: "('a ring, 'a) circular_buffer" where
  "ring_ops = \<lparr>cb_full = (\<lambda>q. length (ring_items q) = ring_capacity q), cb_empty = (\<lambda>q. ring_items q = []),
     cb_size = (\<lambda>q. length (ring_items q)), cb_capacity = ring_capacity, cb_push_back = ring_push,
     cb_front = (\<lambda>q. hd (ring_items q)), cb_pop_front = ring_pop\<rparr>"

lemma ring_ops_ok: "circular_ok ring_ops ring_items"
  unfolding circular_ok_def ring_ops_def circular_buffer.simps
  by (intro conjI allI; transfer; auto)

lemma ring_new_items [simp]: "ring_items (ring_new c) = []" "ring_capacity (ring_new c) = c"
  by (transfer, simp)+

interpretation bbq: blocking_monitor "BoundedBlockingQueue_Put ring_ops" "BoundedBlockingQueue_Take ring_ops" id
  "\<lambda>_. True" ring_items "spare ring_ops" "\<lambda>_. True" "ring_new c" for c
  by (rule bounded_monitor) (simp_all add: ring_ops_ok)

section \<open>ThreadPool\<close>

text \<open>The members the mutex protects, the name and the number of the threads made by \<open>Start\<close>.\<close>

record 'a thread_pool =
  tp_name :: string
  tp_threads :: "string list"
  tp_queue :: "'a list"
  tp_max_queue_size :: nat
  tp_running :: bool

definition ThreadPool_new :: "string \<Rightarrow> 'a thread_pool" where
  "ThreadPool_new name = \<lparr>tp_name = name, tp_threads = [], tp_queue = [], tp_max_queue_size = 0, tp_running = False\<rparr>"

text \<open>The \<open>int\<close> argument is converted to \<open>size_t\<close>.\<close>

definition ThreadPool_SetMaxQueueSize :: "int \<Rightarrow> 'a thread_pool \<Rightarrow> 'a thread_pool" where
  "ThreadPool_SetMaxQueueSize max_size p = p\<lparr>tp_max_queue_size := nat (max_size mod 2 ^ 64)\<rparr>"

text \<open>
  \<open>Start\<close>: the names of the threads it makes and whether it calls \<open>thread_init_callback_\<close> itself. A negative
  number is a huge \<open>size_t\<close> for \<open>reserve\<close>, which throws.
\<close>

definition ThreadPool_Start :: "int \<Rightarrow> bool \<Rightarrow> 'a thread_pool \<Rightarrow> (bool \<times> 'a thread_pool) result" where
  "ThreadPool_Start num_threads has_init p =
     c_assert (tp_threads p = [])
       (if num_threads < 0 then Inl Length_error
        else Inr (num_threads = 0 \<and> has_init,
          p\<lparr>tp_running := True,
            tp_threads := map (\<lambda>i. tp_name p @ snprintf_buf 32 (int_dec (int i + 1))) [0..<nat num_threads]\<rparr>))"

definition ThreadPool_Stop :: "'a thread_pool \<Rightarrow> 'a thread_pool" where
  "ThreadPool_Stop p = p\<lparr>tp_running := False\<rparr>"

definition ThreadPool_destroy :: "'a thread_pool \<Rightarrow> 'a thread_pool" where
  "ThreadPool_destroy p = (if tp_running p then ThreadPool_Stop p else p)"

definition ThreadPool_QueueSize :: "'a thread_pool \<Rightarrow> nat" where
  "ThreadPool_QueueSize p = length (tp_queue p)"

definition ThreadPool_IsFull :: "'a thread_pool \<Rightarrow> bool" where
  "ThreadPool_IsFull p \<longleftrightarrow> 0 < tp_max_queue_size p \<and> tp_max_queue_size p \<le> length (tp_queue p)"

text \<open>\<open>Run\<close> on a pool that has threads; \<open>Finishes (False, p)\<close> is the return after \<open>Stop\<close>.\<close>

definition ThreadPool_Run_queue :: "'a \<Rightarrow> 'a thread_pool \<Rightarrow> (bool \<times> 'a thread_pool) next_step" where
  "ThreadPool_Run_queue task p =
     (if ThreadPool_IsFull p \<and> tp_running p then Blocks
      else if \<not> tp_running p then Finishes (False, p)
      else Finishes (True, p\<lparr>tp_queue := tp_queue p @ [task]\<rparr>))"

datatype 'a run = Runs_inline 'a | Enqueues "(bool \<times> 'a thread_pool) next_step"

definition ThreadPool_Run :: "'a \<Rightarrow> 'a thread_pool \<Rightarrow> 'a run" where
  "ThreadPool_Run task p =
     (if tp_threads p = [] then Runs_inline task else Enqueues (ThreadPool_Run_queue task p))"

text \<open>\<open>Take\<close>: \<open>None\<close> is the empty \<open>std::function\<close>.\<close>

definition ThreadPool_Take :: "'a thread_pool \<Rightarrow> ('a option \<times> 'a thread_pool) next_step" where
  "ThreadPool_Take p =
     (if tp_queue p = [] \<and> tp_running p then Blocks
      else if tp_queue p \<noteq> [] then Finishes (Some (hd (tp_queue p)), p\<lparr>tp_queue := tl (tp_queue p)\<rparr>)
      else Finishes (None, p))"

definition ThreadPool_notifies :: "'a thread_pool \<Rightarrow> bool" where
  "ThreadPool_notifies p \<longleftrightarrow> 0 < tp_max_queue_size p"

definition ThreadPool_room :: "'a thread_pool \<Rightarrow> nat" where
  "ThreadPool_room p = tp_max_queue_size p - length (tp_queue p)"

lemmas thread_pool_defs = ThreadPool_IsFull_def ThreadPool_Run_queue_def ThreadPool_Take_def ThreadPool_notifies_def
  ThreadPool_room_def ThreadPool_Stop_def

lemma pool_monitor:
  "tp_queue p0 = [] \<Longrightarrow>
   blocking_monitor ThreadPool_Run_queue ThreadPool_Take ThreadPool_Stop ThreadPool_notifies tp_queue ThreadPool_room tp_running p0"
  by unfold_locales (auto simp: thread_pool_defs split: if_splits)

interpretation tp: blocking_monitor ThreadPool_Run_queue ThreadPool_Take ThreadPool_Stop ThreadPool_notifies tp_queue
  ThreadPool_room tp_running "ThreadPool_SetMaxQueueSize n (ThreadPool_new name)\<lparr>tp_running := True, tp_threads := ts\<rparr>" for n name ts
  by (rule pool_monitor) (simp add: ThreadPool_SetMaxQueueSize_def ThreadPool_new_def)

text \<open>
  How a task ends, and what a worker does: it runs the initial callback, then as long as \<open>running_\<close> reads
  true takes and runs tasks. The observations are what each round reads in \<open>running_\<close> and what the task of that
  round does (\<open>None\<close>: \<open>Take\<close> returned the empty function).
\<close>

datatype task_end = Returns | Throws_Exception string string | Throws_std string | Throws_other

datatype worker_end =
    Worker_loops
  | Worker_leaves
  | Worker_aborts "string list"
  | Worker_rethrows "string list"

definition worker_catch :: "string \<Rightarrow> task_end \<Rightarrow> worker_end \<Rightarrow> worker_end" where
  "worker_catch name e k =
     (case e of Returns \<Rightarrow> k
      | Throws_Exception what trace \<Rightarrow>
          Worker_aborts [''exception caught in ThreadPool '' @ name, ''reason: '' @ what, ''stack trace: '' @ trace]
      | Throws_std what \<Rightarrow> Worker_aborts [''exception caught in ThreadPool '' @ name, ''reason: '' @ what]
      | Throws_other \<Rightarrow> Worker_rethrows [''unknown exception caught in ThreadPool '' @ name])"

fun worker_rounds :: "string \<Rightarrow> (bool \<times> task_end option) list \<Rightarrow> worker_end" where
  "worker_rounds name [] = Worker_loops"
| "worker_rounds name ((running, task) # obs) =
     (if \<not> running then Worker_leaves
      else case task of None \<Rightarrow> worker_rounds name obs
        | Some e \<Rightarrow> worker_catch name e (worker_rounds name obs))"

definition ThreadPool_RunInThread :: "task_end option \<Rightarrow> 'a thread_pool \<Rightarrow> (bool \<times> task_end option) list \<Rightarrow> worker_end" where
  "ThreadPool_RunInThread init p obs =
     (case init of None \<Rightarrow> worker_rounds (tp_name p) obs
      | Some e \<Rightarrow> worker_catch (tp_name p) e (worker_rounds (tp_name p) obs))"

lemma worker_leaves_when_stopped:
  assumes "ThreadPool_RunInThread init p (obs @ [(False, t)]) = Worker_loops"
  shows False
proof -
  have "worker_rounds name (obs @ [(False, t)]) \<noteq> Worker_loops" for name
    by (induction obs) (auto simp: worker_catch_def split: option.splits task_end.splits if_splits)
  then show False
    using assms by (auto simp: ThreadPool_RunInThread_def worker_catch_def split: option.splits task_end.splits)
qed

section \<open>The queues are correct under every interleaving\<close>

text \<open>For \<open>BlockingQueue\<close>, whatever threads call \<open>Put\<close> and \<open>Take\<close> and however they interleave, the items are
  handed out in the order they were put in and no notification is lost: no thread waits in \<open>Take\<close> while there are
  more items than threads about to take one.\<close>

theorem blocking_queue_correct:
  assumes "monitor_reach BlockingQueue_Put BlockingQueue_Take id (\<lambda>_. False) [] s"
  shows "mo_accepted s = mo_handed s @ mo_data s \<and> mo_wait_full s = {#} \<and>
    (mo_wait_empty s = {#} \<or> BlockingQueue_Size (mo_data s) \<le> size (mo_takers s))"
  using bq.reach_sound [OF assms] by (auto simp: bq.sound_def BlockingQueue_Size_def)

text \<open>A taker that waits, and then an item: the notification takes it off the condition.\<close>

lemma blocking_queue_run:
  "monitor_reach BlockingQueue_Put BlockingQueue_Take id (\<lambda>_. False) []
     \<lparr>mo_data = [5], mo_putters = {#}, mo_takers = {#1#}, mo_wait_full = {#}, mo_wait_empty = {#2#},
       mo_accepted = [5 :: nat], mo_handed = []\<rparr>"
proof -
  let ?R = "monitor_reach BlockingQueue_Put BlockingQueue_Take id (\<lambda>_. False) []"
  note next_state = monitor_reach.continues
  have 1: "?R \<lparr>mo_data = [], mo_putters = {#(3, 5 :: nat)#}, mo_takers = {#}, mo_wait_full = {#}, mo_wait_empty = {#1, 2#},
      mo_accepted = [], mo_handed = []\<rparr>"
    using next_state [OF next_state [OF next_state [OF next_state [OF next_state
        [OF monitor_reach.begins [of BlockingQueue_Put BlockingQueue_Take id "\<lambda>_. False" "[]"]
          monitor_step.call_take [where t = 1]]
        monitor_step.take_blocks [where t = 1]] monitor_step.call_take [where t = 2]]
        monitor_step.take_blocks [where t = 2]] monitor_step.call_put [where t = 3 and x = "5 :: nat"]]
    by (simp add: monitor_start_def BlockingQueue_Take_def add_mset_commute)
  show ?thesis
    by (rule next_state [OF 1 monitor_step.put_done [where t = 3 and x = 5 and q' = "[5]"]])
      (use notify_empty.wake [of 1 "\<lparr>mo_data = [5], mo_putters = {#}, mo_takers = {#}, mo_wait_full = {#},
         mo_wait_empty = {#1, 2#}, mo_accepted = [5 :: nat], mo_handed = []\<rparr>"] in \<open>simp_all add: BlockingQueue_Put_def\<close>)
qed

theorem blocking_queue_correct_witness:
  "\<exists>s :: (nat list, nat) monitor. mo_wait_empty s \<noteq> {#} \<and> mo_accepted s = mo_handed s @ mo_data s \<and>
     mo_data s \<noteq> [] \<and> BlockingQueue_Size (mo_data s) \<le> size (mo_takers s)"
  using blocking_queue_correct [OF blocking_queue_run]
  by (intro exI [of _ "\<lparr>mo_data = [5], mo_putters = {#}, mo_takers = {#1#}, mo_wait_full = {#}, mo_wait_empty = {#2#},
       mo_accepted = [5 :: nat], mo_handed = []\<rparr>"]) simp

text \<open>C24. For \<open>BoundedBlockingQueue\<close> over any ring buffer that behaves as documented: the queue never exceeds
  its capacity, the items are handed out in the order they went in, no thread waits in \<open>Take\<close> while there are more
  items than threads about to take one, and none waits in \<open>Put\<close> while there is more room than threads about to use
  it.\<close>

theorem bounded_queue_correct:
  assumes "circular_ok cb view" and "view q0 = []"
    and "monitor_reach (BoundedBlockingQueue_Put cb) (BoundedBlockingQueue_Take cb) id (\<lambda>_. True) q0 s"
  shows "mo_accepted s = mo_handed s @ view (mo_data s) \<and>
    BoundedBlockingQueue_Size cb (mo_data s) \<le> BoundedBlockingQueue_Capacity cb q0 \<and>
    (mo_wait_empty s = {#} \<or> BoundedBlockingQueue_Size cb (mo_data s) \<le> size (mo_takers s)) \<and>
    (mo_wait_full s = {#} \<or>
       BoundedBlockingQueue_Capacity cb q0 - BoundedBlockingQueue_Size cb (mo_data s) \<le> size (mo_putters s))"
proof -
  note M = bounded_monitor [OF assms(1,2)]
  note S = blocking_monitor.reach_sound [OF M assms(3), unfolded blocking_monitor.sound_def [OF M]]
  have C: "cb_capacity cb (mo_data s) = cb_capacity cb q0"
    by (rule monitor_data [OF assms(3), of "\<lambda>q. cb_capacity cb q = cb_capacity cb q0"])
      (use assms(1) in \<open>auto simp: circular_ok_def BoundedBlockingQueue_Put_def BoundedBlockingQueue_Take_def split: if_splits\<close>)
  have "cb_size cb (mo_data s) \<le> cb_capacity cb (mo_data s)" "cb_size cb (mo_data s) = length (view (mo_data s))"
    using assms(1) by (auto simp: circular_ok_def)
  then show ?thesis
    using S C by (auto simp: spare_def BoundedBlockingQueue_Size_def BoundedBlockingQueue_Capacity_def)
qed

lemma bounded_queue_run:
  "\<exists>s. monitor_reach (BoundedBlockingQueue_Put ring_ops) (BoundedBlockingQueue_Take ring_ops) id (\<lambda>_. True) (ring_new 0) s \<and>
     mo_wait_full s = {#(1, 7 :: nat)#}"
proof -
  let ?R = "monitor_reach (BoundedBlockingQueue_Put ring_ops) (BoundedBlockingQueue_Take ring_ops) id (\<lambda>_. True) (ring_new 0)"
  have 1: "?R ((monitor_start (ring_new 0))\<lparr>mo_putters := {#(1, 7 :: nat)#}\<rparr>)"
    using monitor_reach.continues [OF monitor_reach.begins monitor_step.call_put [where t = 1 and x = "7 :: nat"]]
    by (simp add: monitor_start_def)
  have "BoundedBlockingQueue_Put ring_ops 7 (ring_new 0 :: nat ring) = Blocks"
    by (simp add: BoundedBlockingQueue_Put_def ring_ops_def)
  then show ?thesis
    using monitor_reach.continues [OF 1 monitor_step.put_blocks [where t = 1 and x = "7 :: nat"]]
    by (intro exI conjI) (assumption?, auto simp: monitor_start_def)
qed

theorem bounded_queue_correct_witness:
  "\<exists>s :: (nat ring, nat) monitor. mo_wait_full s \<noteq> {#} \<and> mo_accepted s = mo_handed s @ ring_items (mo_data s) \<and>
     BoundedBlockingQueue_Size ring_ops (mo_data s) \<le> BoundedBlockingQueue_Capacity ring_ops (ring_new 0 :: nat ring)"
proof -
  from bounded_queue_run obtain s where
    "monitor_reach (BoundedBlockingQueue_Put ring_ops) (BoundedBlockingQueue_Take ring_ops) id (\<lambda>_. True) (ring_new 0) s"
    and w: "mo_wait_full s = {#(1, 7 :: nat)#}"
    by blast
  from bounded_queue_correct [OF ring_ops_ok _ this(1)] show ?thesis
    by (intro exI [of _ s]) (simp add: w)
qed

text \<open>C25. A thread pool that \<open>Start\<close> has set up with at least one thread: tasks are handed to the workers in the
  order \<open>Run\<close> accepted them; while the pool runs, the queue respects \<open>SetMaxQueueSize\<close>, no worker waits while there
  are more tasks than workers about to take one, and no caller of \<open>Run\<close> waits while there is more room than callers
  about to use it; once the pool is stopped nobody waits any more, neither in \<open>Take\<close> nor in \<open>Run\<close>.\<close>

theorem thread_pool_correct:
  assumes "ThreadPool_Start n has_init (ThreadPool_SetMaxQueueSize m (ThreadPool_new name)) = Inr (b, p)"
    and "monitor_reach ThreadPool_Run_queue ThreadPool_Take ThreadPool_Stop ThreadPool_notifies p s"
  shows "mo_accepted s = mo_handed s @ tp_queue (mo_data s) \<and>
    (tp_max_queue_size p = 0 \<or> ThreadPool_QueueSize (mo_data s) \<le> tp_max_queue_size p) \<and>
    (tp_running (mo_data s) \<or> mo_wait_empty s = {#} \<and> mo_wait_full s = {#}) \<and>
    (mo_wait_empty s = {#} \<or> ThreadPool_QueueSize (mo_data s) \<le> size (mo_takers s)) \<and>
    (mo_wait_full s = {#} \<or> tp_max_queue_size p - ThreadPool_QueueSize (mo_data s) \<le> size (mo_putters s))"
proof -
  have q: "tp_queue p = []"
    using assms(1) by (auto simp: ThreadPool_Start_def ThreadPool_SetMaxQueueSize_def ThreadPool_new_def split: if_splits)
  note M = pool_monitor [OF q]
  note S = blocking_monitor.reach_sound [OF M assms(2), unfolded blocking_monitor.sound_def [OF M]]
  have C: "tp_max_queue_size (mo_data s) = tp_max_queue_size p \<and>
      (tp_max_queue_size p = 0 \<or> length (tp_queue (mo_data s)) \<le> tp_max_queue_size p)"
    by (rule monitor_data [OF assms(2), of "\<lambda>q. tp_max_queue_size q = tp_max_queue_size p \<and>
      (tp_max_queue_size p = 0 \<or> length (tp_queue q) \<le> tp_max_queue_size p)"])
      (auto simp: q thread_pool_defs split: if_splits)
  show ?thesis using S C by (auto simp: ThreadPool_QueueSize_def thread_pool_defs)
qed

lemma thread_pool_run:
  "\<exists>s. monitor_reach ThreadPool_Run_queue ThreadPool_Take ThreadPool_Stop ThreadPool_notifies (p :: nat thread_pool) s \<and>
     \<not> tp_running (mo_data s)"
  using monitor_reach.continues [OF monitor_reach.begins monitor_step.stops]
  by (intro exI conjI) (assumption, simp add: notify_all_def ThreadPool_Stop_def)

theorem thread_pool_correct_witness:
  "\<exists>s :: (nat thread_pool, nat) monitor. \<not> tp_running (mo_data s) \<and> mo_wait_empty s = {#} \<and> mo_wait_full s = {#} \<and>
     ThreadPool_QueueSize (mo_data s) \<le> 2"
proof -
  obtain p where p: "ThreadPool_Start 4 False (ThreadPool_SetMaxQueueSize 2 (ThreadPool_new ''pool'')) = Inr (False, p :: nat thread_pool)"
    and m: "tp_max_queue_size p = 2"
    by (simp add: ThreadPool_Start_def ThreadPool_SetMaxQueueSize_def ThreadPool_new_def)
  from thread_pool_run obtain s where
    "monitor_reach ThreadPool_Run_queue ThreadPool_Take ThreadPool_Stop ThreadPool_notifies p s" "\<not> tp_running (mo_data s)"
    by blast
  with thread_pool_correct [OF p this(1)] show ?thesis by (intro exI [of _ s]) (simp add: m)
qed

end
