(* ===== verification/Reactor.thy ===== *)
theory Reactor
  imports EventLoop TcpConnection
begin

text \<open>
  One event loop with its epoll poller and the connections it serves: \<open>EventLoop::Loop\<close> (\<open>dwater/net/event_loop.cc\<close>)
  with the operations of the theories \<open>EventLoop\<close>, \<open>Poller\<close>, \<open>Channel\<close> and \<open>TcpConnection\<close> put together the way the program
  does. A connection keeps its channel's mask and callbacks; the store keeps what the poller has of the channel
  (descriptor, mask, index and returned events), and every call a handler makes on the poller goes through the loop to the
  poller before the next handler runs. A channel is a number; \<open>fd\<close> gives the descriptor each channel is made for.
\<close>

section \<open>The reactor\<close>

record reactor =
  rx_loop :: event_loop
  rx_store :: chan_store
  rx_poller :: epoll_poller
  rx_conns :: "chan_ptr \<rightharpoonup> tcp_connection"
  rx_made :: "chan_ptr list"

definition rx_init :: "(chan_ptr \<Rightarrow> int) \<Rightarrow> event_loop \<Rightarrow> reactor" where
  "rx_init fd l = \<lparr>rx_loop = l, rx_store = (\<lambda>c. Channel_new (fd c)), rx_poller = empty_epoll, rx_conns = Map.empty, rx_made = []\<rparr>"

text \<open>What a piece of a connection's history asks of the poller, through \<open>EventLoop::UpdateChannel\<close> and \<open>RemoveChannel\<close>.\<close>

definition rx_calls :: "chan_ptr \<Rightarrow> conn_effect list \<Rightarrow> chan_op list" where
  "rx_calls c es = concat (map (\<lambda>e. case e of Update_channel m \<Rightarrow> [Set_events c m] | Remove_channel \<Rightarrow> [Remove_chan c] | _ \<Rightarrow> []) es)"

definition rx_update :: "event_loop \<Rightarrow> chan_ptr \<Rightarrow> conn_effect list \<Rightarrow> chan_store \<times> epoll_poller \<Rightarrow> (chan_store \<times> epoll_poller) result" where
  "rx_update l c es =
     chan_run (EventLoop_UpdateChannel (EpollPoller_UpdateChannel True 0) True True)
       (EventLoop_RemoveChannel (EpollPoller_RemoveChannel True 0) l True True) (rx_calls c es)"

text \<open>A connection goes from \<open>k\<close> to \<open>k'\<close>: the calls it made on the way reach the poller.\<close>

definition rx_become :: "chan_ptr \<Rightarrow> tcp_connection \<Rightarrow> tcp_connection \<Rightarrow> reactor \<Rightarrow> reactor result" where
  "rx_become c k k' r =
     bindr (rx_update (rx_loop r) c (drop (length (tc_effects k)) (tc_effects k')) (rx_store r, rx_poller r)) (\<lambda>(st, p).
       Inr (r\<lparr>rx_store := st, rx_poller := p, rx_conns := (rx_conns r)(c \<mapsto> k')\<rparr>))"

definition rx_conn :: "chan_ptr \<Rightarrow> conn_input \<Rightarrow> reactor \<Rightarrow> reactor result" where
  "rx_conn c i r =
     (case rx_conns r c of None \<Rightarrow> Inl Bad_access
      | Some k \<Rightarrow> bindr (conn_exec i k) (\<lambda>k'. rx_become c k k' r))"

text \<open>
  What the handling of an event meets and does: the outcomes of \<open>readv\<close> and \<open>write\<close>, the calls the message and connection
  callbacks make on their own connection, and the calls they make on others.
\<close>

record rx_handling =
  rh_readv :: "int + char list"
  rh_write :: "int + nat"
  rh_on_message :: "conn_call list"
  rh_on_connection :: "conn_call list"
  rh_others :: "(chan_ptr \<times> conn_call) list"

fun rx_others :: "(chan_ptr \<times> conn_call) list \<Rightarrow> reactor \<Rightarrow> reactor result" where
  "rx_others [] r = Inr r"
| "rx_others ((d, a) # others) r = bindr (rx_conn d (In_call True a) r) (rx_others others)"

text \<open>The loop over the active channels.\<close>

definition rx_handle :: "rx_handling \<Rightarrow> timestamp \<Rightarrow> chan_ptr \<Rightarrow> reactor \<Rightarrow> reactor result" where
  "rx_handle h now c r =
     bindr (rx_conn c (In_event (ch_revents (rx_store r c)) now (rh_readv h) (rh_write h) (rh_on_message h) (rh_on_connection h))
              (r\<lparr>rx_loop := (rx_loop r)\<lparr>el_curr_active_channel := Some c\<rparr>\<rparr>))
       (rx_others (rh_others h))"

fun rx_dispatch :: "(chan_ptr \<Rightarrow> rx_handling) \<Rightarrow> timestamp \<Rightarrow> chan_ptr list \<Rightarrow> reactor \<Rightarrow> reactor result" where
  "rx_dispatch h now [] r = Inr (r\<lparr>rx_loop := Loop_handled (rx_loop r)\<rparr>)"
| "rx_dispatch h now (c # cs) r = bindr (rx_handle (h c) now c r) (rx_dispatch h now cs)"

text \<open>
  What happens to a reactor: a connection is made; an input other than an event reaches one (it is established, the user
  calls it, the loop runs a functor of it); the loop polls and handles what the kernel returned; a connection is
  destroyed.
\<close>

datatype rx_input =
    Rx_new chan_ptr
  | Rx_input chan_ptr conn_input
  | Rx_poll "int + (32 word \<times> chan_ptr) list" timestamp "chan_ptr \<Rightarrow> rx_handling"
  | Rx_destroyed chan_ptr "conn_call list"

fun rx_exec :: "(chan_ptr \<Rightarrow> int) \<Rightarrow> rx_input \<Rightarrow> reactor \<Rightarrow> reactor result" where
  "rx_exec fd (Rx_new c) r =
     bindr (TcpConnection_new (fd c)) (\<lambda>k. Inr (r\<lparr>rx_conns := (rx_conns r)(c \<mapsto> k), rx_made := c # rx_made r\<rparr>))"
| "rx_exec fd (Rx_input c i) r = rx_conn c i r"
| "rx_exec fd (Rx_poll epoll_wait now h) r =
     bindr (EpollPoller_Poll epoll_wait now [] (rx_store r) (rx_poller r)) (\<lambda>(t, active, st, p).
       rx_dispatch h t active (r\<lparr>rx_store := st, rx_poller := p, rx_loop := Loop_polled t active (rx_loop r)\<rparr>))"
| "rx_exec fd (Rx_destroyed c calls) r =
     (case rx_conns r c of None \<Rightarrow> Inl Bad_access
      | Some k \<Rightarrow> bindr (TcpConnection_ConnectionDestroyed True calls k) (\<lambda>k'.
          bindr (rx_become c k k' r) (\<lambda>r'.
          bindr (TcpConnection_destroy k') (\<lambda>_. Inr (r'\<lparr>rx_conns := (rx_conns r')(c := None)\<rparr>)))))"

text \<open>
  When an input can come: a channel is new and its descriptor not in use; \<open>epoll_wait\<close> returns descriptors it watches, each
  once and no more than the array holds; callbacks call connections that are there and established; a connection that is
  destroyed is up or down, not on its way down.
\<close>

fun rx_guard :: "(chan_ptr \<Rightarrow> int) \<Rightarrow> rx_input \<Rightarrow> reactor \<Rightarrow> bool" where
  "rx_guard fd (Rx_new c) r \<longleftrightarrow> c \<notin> set (rx_made r) \<and> 0 \<le> fd c \<and> (\<forall>d\<in>dom (rx_conns r). fd d \<noteq> fd c)"
| "rx_guard fd (Rx_input c i) r \<longleftrightarrow>
     (\<exists>k. rx_conns r c = Some k \<and> conn_guard i k) \<and> (case i of In_event _ _ _ _ _ _ \<Rightarrow> False | _ \<Rightarrow> True)"
| "rx_guard fd (Rx_poll (Inl err) now h) r \<longleftrightarrow> True"
| "rx_guard fd (Rx_poll (Inr evs) now h) r \<longleftrightarrow>
     length evs \<le> ep_events_size (rx_poller r) \<and> distinct (map snd evs) \<and>
     list_all (\<lambda>(e, c). (\<exists>m. epoll_watched (rx_poller r) (fd c) = Some (m, c)) \<and>
       list_all (\<lambda>(d, a). \<exists>k. rx_conns r d = Some k \<and> tc_state k \<noteq> kconnecting) (rh_others (h c))) evs"
| "rx_guard fd (Rx_destroyed c calls) r \<longleftrightarrow>
     (\<exists>k. rx_conns r c = Some k \<and> (tc_state k = kconnected \<or> tc_state k = kdisconnected))"

inductive rx_reach :: "(chan_ptr \<Rightarrow> int) \<Rightarrow> rx_input list \<Rightarrow> reactor \<Rightarrow> bool" for fd where
  start: "EventLoop_new None w = Inr l \<Longrightarrow> rx_reach fd [] (rx_init fd l)"
| next_input: "rx_reach fd is r \<Longrightarrow> rx_guard fd i r \<Longrightarrow> rx_exec fd i r = Inr r' \<Longrightarrow> rx_reach fd (is @ [i]) r'"

section \<open>What a connection adds to its history\<close>

definition extends :: "tcp_connection \<Rightarrow> tcp_connection \<Rightarrow> bool" where
  "extends k k' \<longleftrightarrow> (\<exists>es. tc_effects k' = tc_effects k @ es \<and> Remove_channel \<notin> set es) \<and>
     ch_fd (tc_channel k') = ch_fd (tc_channel k)"

lemma extends_refl [intro]: "extends k k"
  by (simp add: extends_def)

lemma extends_trans: "extends a b \<Longrightarrow> extends b c \<Longrightarrow> extends a c"
  by (auto simp: extends_def)

lemma extends_emit: "e \<noteq> Remove_channel \<Longrightarrow> extends k (emit e k)"
  by (simp add: extends_def)

lemma extends_change:
  "f \<in> {Channel_EnableReading, Channel_DisableReading, Channel_EnableWriting, Channel_DisableWriting, Channel_DisableAll} \<Longrightarrow>
   extends k (change_channel f k)"
  by (auto simp: extends_def)

lemma extends_SendInLoop: "TcpConnection_SendInLoop True w d k = Inr k' \<Longrightarrow> extends k k'"
  by (auto simp: TcpConnection_SendInLoop_def AssertInLoopThread_def send_direct_def c_assert_def Let_def bindr_eq_Inr extends_def
      split: if_splits sum.splits)

lemma extends_call: "conn_call_exec il a k = Inr k' \<Longrightarrow> extends k k'"
  by (cases a) (auto simp: TcpConnection_Send_def TcpConnection_Shutdown_def TcpConnection_ShutdownInLoop_def Let_def
      TcpConnection_SetState_def AssertInLoopThread_def TcpConnection_ForceClose_def TcpConnection_ForceCloseWithDelay_def
      TcpConnection_StartRead_def TcpConnection_StopRead_def TcpConnection_StartReadInLoop_def
      TcpConnection_StopReadInLoop_def bindr_eq_Inr extends_def dest: extends_SendInLoop [unfolded extends_def] split: if_splits)

lemma extends_calls: "conn_calls as k = Inr k' \<Longrightarrow> extends k k'"
  by (induction as arbitrary: k) (auto simp: bindr_eq_Inr dest: extends_call intro: extends_trans)

lemma extends_HandleClose: "TcpConnection_HandleClose True calls k = Inr k' \<Longrightarrow> extends k k'"
  by (auto simp: TcpConnection_HandleClose_def AssertInLoopThread_def TcpConnection_SetState_def Let_def res_simps extends_def
      dest!: extends_calls [unfolded extends_def])

lemma extends_HandleRead: "TcpConnection_HandleRead True rd om oc k = Inr k' \<Longrightarrow> extends k k'"
  by (auto simp: TcpConnection_HandleRead_def AssertInLoopThread_def TcpConnection_HandleError_def Let_def res_simps extends_def
      split: if_splits dest!: extends_calls [unfolded extends_def] extends_HandleClose [unfolded extends_def])

lemma extends_HandleWrite: "TcpConnection_HandleWrite True w k = Inr k' \<Longrightarrow> extends k k'"
  by (auto simp: TcpConnection_HandleWrite_def AssertInLoopThread_def TcpConnection_ShutdownInLoop_def Let_def res_simps extends_def
      split: if_splits sum.splits)

lemma extends_actions: "conn_actions rd w om oc as k = Inr k' \<Longrightarrow> extends k k'"
proof (induction as arbitrary: k)
  case (Cons a as)
  then obtain k1 where "conn_actions rd w om oc [a] k = Inr k1" "conn_actions rd w om oc as k1 = Inr k'"
    by (auto simp: bindr_eq_Inr)
  moreover from this(1) have "extends k k1"
    by (cases a) (auto simp: TcpConnection_HandleError_def bindr_eq_Inr intro: extends_emit extends_HandleRead extends_HandleWrite)
  ultimately show ?case using Cons.IH extends_trans by blast
qed auto

lemma extends_exec: "conn_exec i k = Inr k' \<Longrightarrow> extends k k'"
proof (cases i)
  case (In_established calls)
  moreover assume "conn_exec i k = Inr k'"
  ultimately show ?thesis
    by (auto simp: TcpConnection_ConnectionEstablished_def AssertInLoopThread_def TcpConnection_SetState_def Channel_Tie_def Let_def
        res_simps extends_def dest!: extends_calls [unfolded extends_def])
next
  case (In_event revents now rd w om oc)
  moreover assume "conn_exec i k = Inr k'"
  ultimately show ?thesis
    by (auto simp: TcpConnection_HandleEvent_def Channel_SetRevents_def Let_def res_simps extends_def
        dest!: extends_actions [unfolded extends_def])
next
  case (In_call il a)
  moreover assume "conn_exec i k = Inr k'"
  ultimately show ?thesis by (auto intro: extends_call)
next
  case (In_functor f w calls)
  moreover assume "conn_exec i k = Inr k'"
  ultimately show ?thesis
    by (cases f) (auto simp: TcpConnection_ShutdownInLoop_def TcpConnection_ForceCloseInLoop_def TcpConnection_StartReadInLoop_def
        TcpConnection_StopReadInLoop_def AssertInLoopThread_def extends_def split: if_splits
        dest!: extends_SendInLoop [unfolded extends_def] extends_HandleClose [unfolded extends_def] extends_calls [unfolded extends_def])
qed

lemma destroyed_extends: "TcpConnection_ConnectionDestroyed True calls k = Inr k' \<Longrightarrow> \<exists>es. tc_effects k' = tc_effects k @ es"
  by (auto simp: TcpConnection_ConnectionDestroyed_def AssertInLoopThread_def TcpConnection_SetState_def res_simps
      split: if_splits dest!: extends_calls [unfolded extends_def])

section \<open>One channel among many\<close>

lemma rx_calls_simps [simp]:
  "rx_calls c [] = []" "rx_calls c (es @ es') = rx_calls c es @ rx_calls c es'"
  "rx_calls c (e # es) = (case e of Update_channel m \<Rightarrow> [Set_events c m] | Remove_channel \<Rightarrow> [Remove_chan c] | _ \<Rightarrow> []) @ rx_calls c es"
  by (simp_all add: rx_calls_def)

lemma chan_ops_calls: "chan_ops = rx_calls 0"
  by (simp add: fun_eq_iff chan_ops_def rx_calls_def)

text \<open>
  What the abstract poller accepts from a channel on its own it accepts from that channel among others, when no other
  channel has its descriptor; and it leaves the others alone.
\<close>

lemma spec_embed:
  assumes "spec_run (\<lambda>_. fd c) (rx_calls 0 es) (a0, used0) = Some (a1, used1)"
    and "\<And>d. smap_get d a0 \<noteq> None \<Longrightarrow> d = 0" and "smap_get c a = smap_get 0 a0" and "c \<in> set used \<Longrightarrow> 0 \<in> set used0"
    and "\<And>d. d \<noteq> c \<Longrightarrow> smap_get d a \<noteq> None \<Longrightarrow> fd d \<noteq> fd c"
  shows "\<exists>a' used'. spec_run fd (rx_calls c es) (a, used) = Some (a', used') \<and> smap_get c a' = smap_get 0 a1 \<and>
    (\<forall>d. d \<noteq> c \<longrightarrow> smap_get d a' = smap_get d a) \<and> set used \<subseteq> set used' \<and> set used' \<subseteq> insert c (set used)"
  using assms
proof (induction es arbitrary: a0 used0 a used)
  case (Cons e es)
  show ?case
  proof (cases "\<exists>m. e = Update_channel m")
    case True
    then obtain m where e: "e = Update_channel m" by blast
    with Cons.prems(1) have ok: "valid_events m"
      "smap_get 0 a0 \<noteq> None \<or> 0 \<notin> set used0 \<and> m \<noteq> 0 \<and> 0 \<le> fd c"
      and run: "spec_run (\<lambda>_. fd c) (rx_calls 0 es) (smap_put 0 m a0, 0 # used0) = Some (a1, used1)"
      by (auto split: option.splits if_splits)
    have "fd c \<notin> fd ` fst ` set a" if "smap_get c a = None"
    proof
      assume "fd c \<in> fd ` fst ` set a"
      then obtain d where d: "fd c = fd d" "d \<in> fst ` set a" by (rule imageE)
      then have "smap_get d a \<noteq> None" by (simp add: smap_get_def map_of_eq_None_iff)
      then show False using d(1) that Cons.prems(5) [of d] by (cases "d = c") auto
    qed
    then have "spec_step fd (Set_events c m) (a, used) = Some (smap_put c m a, c # used)"
      using ok Cons.prems(3,4) by auto
    moreover have "\<exists>a' used'. spec_run fd (rx_calls c es) (smap_put c m a, c # used) = Some (a', used') \<and> smap_get c a' = smap_get 0 a1 \<and>
      (\<forall>d. d \<noteq> c \<longrightarrow> smap_get d a' = smap_get d (smap_put c m a)) \<and> set (c # used) \<subseteq> set used' \<and> set used' \<subseteq> insert c (set (c # used))"
      using Cons.prems(2,5) by (intro Cons.IH [OF run]) (auto simp: smap_get_put split: if_splits)
    ultimately show ?thesis by (auto simp: e smap_get_put)
  next
    case False
    show ?thesis
    proof (cases "e = Remove_channel")
      case True
      with Cons.prems(1) have z: "smap_get 0 a0 = Some 0"
        and run: "spec_run (\<lambda>_. fd c) (rx_calls 0 es) (smap_erase 0 a0, used0) = Some (a1, used1)"
        by (auto split: option.splits if_splits)
      have "\<exists>a' used'. spec_run fd (rx_calls c es) (smap_erase c a, used) = Some (a', used') \<and> smap_get c a' = smap_get 0 a1 \<and>
        (\<forall>d. d \<noteq> c \<longrightarrow> smap_get d a' = smap_get d (smap_erase c a)) \<and> set used \<subseteq> set used' \<and> set used' \<subseteq> insert c (set used)"
        using Cons.prems(2,4,5) by (intro Cons.IH [OF run]) (auto simp: smap_get_erase split: if_splits)
      then show ?thesis using z Cons.prems(3) by (auto simp: True smap_get_erase)
    next
      case quiet: False
      have "rx_calls d (e # es) = rx_calls d es" for d using False quiet by (cases e) auto
      then show ?thesis using Cons.IH [OF _ Cons.prems(2-5)] Cons.prems(1) by simp
    qed
  qed
qed auto

lemma spec_step_keys:
  "spec_step fd op (a, used) = Some (a', used') \<Longrightarrow> (\<And>d. smap_get d a \<noteq> None \<Longrightarrow> d \<in> set used) \<Longrightarrow>
   smap_get d a' \<noteq> None \<Longrightarrow> d \<in> set used'"
  by (cases op) (auto simp: smap_get_put smap_get_erase split: if_splits)

lemma spec_run_keys:
  assumes "spec_run fd ops (a, used) = Some (a', used')" and "\<And>d. smap_get d a \<noteq> None \<Longrightarrow> d \<in> set used"
    and "smap_get d a' \<noteq> None"
  shows "d \<in> set used'"
  using assms
proof (induction ops arbitrary: a used)
  case (Cons op ops)
  then obtain a1 used1 where s: "spec_step fd op (a, used) = Some (a1, used1)" "spec_run fd ops (a1, used1) = Some (a', used')"
    by (auto split: option.splits)
  show ?case using Cons.IH [OF s(2) spec_step_keys [OF s(1) Cons.prems(2)]] Cons.prems(3) by blast
qed auto

section \<open>The poller during a handler\<close>

lemma rx_update_eq:
  assumes "Remove_channel \<notin> set es \<or> \<not> el_event_handling l"
  shows "rx_update l c es s = chan_run (EpollPoller_UpdateChannel True 0) (EpollPoller_RemoveChannel True 0) (rx_calls c es) s"
proof -
  have r: "EventLoop_RemoveChannel (EpollPoller_RemoveChannel True 0) l True True = EpollPoller_RemoveChannel True 0" if "\<not> el_event_handling l"
    using that by (simp add: fun_eq_iff EventLoop_RemoveChannel_def)
  have u: "EventLoop_UpdateChannel (EpollPoller_UpdateChannel True 0) True True = EpollPoller_UpdateChannel True 0"
    by (simp add: fun_eq_iff EventLoop_UpdateChannel_def)
  show ?thesis
  proof (cases "el_event_handling l")
    case True
    then have "Remove_channel \<notin> set es" using assms by simp
    then show ?thesis unfolding rx_update_def u
    proof (induction es arbitrary: s)
      case (Cons e es)
      then show ?case by (cases s; cases e) (auto simp: bindr_def split: sum.splits)
    qed simp
  qed (simp add: rx_update_def u r)
qed

lemma revents_kept:
  "EpollPoller_UpdateChannel il ret c st p = Inr (st', p') \<Longrightarrow> ch_revents (st' d) = ch_revents (st d)"
  "EpollPoller_RemoveChannel il ret c st p = Inr (st', p') \<Longrightarrow> ch_revents (st' d) = ch_revents (st d)"
  by (auto simp: EpollPoller_UpdateChannel_def EpollPoller_RemoveChannel_def Channel_SetIndex_def AssertInLoopThread_def res_simps Let_def
      split: if_splits)

lemma chan_run_revents:
  assumes "chan_run (EpollPoller_UpdateChannel True 0) (EpollPoller_RemoveChannel True 0) (rx_calls c es) (st, p) = Inr (st', p')"
  shows "ch_revents (st' d) = ch_revents (st d)"
  using assms
proof (induction es arbitrary: st p)
  case (Cons e es)
  have "ch_revents ((st(c := Channel_set_events m (st c))) d) = ch_revents (st d)"
    "ch_revents ((st(c := (st c)\<lparr>ch_added_to_loop := False\<rparr>)) d) = ch_revents (st d)" for m
    by (simp_all add: Channel_set_events_def)
  then show ?case
    using Cons by (cases e) (auto simp: res_simps simp del: fun_upd_apply dest!: revents_kept [of _ _ _ _ _ _ _ d])
qed simp

text \<open>
  The calls a connection made on the way from one history to a longer one, among the channels of the poller.
\<close>

lemma rx_update_ok:
  assumes rep: "ep.represents fd (a, used) (st, p)"
    and h0: "spec_run (\<lambda>_. fd c) (chan_ops es0) ([], []) = Some (a0, used0)"
    and h1: "spec_run (\<lambda>_. fd c) (chan_ops (es0 @ es)) ([], []) = Some (a1, used1)"
    and a0: "\<And>d. smap_get d a0 \<noteq> None \<Longrightarrow> d = 0" "smap_get c a = smap_get 0 a0"
    and used: "smap_get 0 a0 = None \<Longrightarrow> c \<notin> set used"
    and fds: "\<And>d. d \<noteq> c \<Longrightarrow> smap_get d a \<noteq> None \<Longrightarrow> fd d \<noteq> fd c"
    and rm: "Remove_channel \<notin> set es \<or> \<not> el_event_handling l"
  shows "\<exists>st' p' a' used'. rx_update l c es (st, p) = Inr (st', p') \<and> ep.represents fd (a', used') (st', p') \<and>
    smap_get c a' = smap_get 0 a1 \<and> (\<forall>d. d \<noteq> c \<longrightarrow> smap_get d a' = smap_get d a) \<and>
    (\<forall>d. ch_revents (st' d) = ch_revents (st d)) \<and> set used' \<subseteq> insert c (set used)"
proof -
  have run: "spec_run (\<lambda>_. fd c) (rx_calls 0 es) (a0, used0) = Some (a1, used1)"
    using h0 h1 by (simp add: chan_ops_calls spec_run_append)
  have "smap_get 0 a0 \<noteq> None \<Longrightarrow> 0 \<in> set used0" using spec_run_keys [OF h0] by (simp add: smap_get_def)
  then have u: "c \<in> set used \<Longrightarrow> 0 \<in> set used0" using used by blast
  obtain a' used' where s: "spec_run fd (rx_calls c es) (a, used) = Some (a', used')" "smap_get c a' = smap_get 0 a1"
    "\<forall>d. d \<noteq> c \<longrightarrow> smap_get d a' = smap_get d a" "set used' \<subseteq> insert c (set used)"
    using spec_embed [where fd = fd and c = c, OF run a0 u fds] by blast
  from ep.run_refines [OF rep s(1)] obtain st' p' where
    r: "rx_update l c es (st, p) = Inr (st', p')" "ep.represents fd (a', used') (st', p')"
    by (auto simp: rx_update_eq [OF rm])
  moreover have "ch_revents (st' d) = ch_revents (st d)" for d
    using chan_run_revents r(1) by (simp add: rx_update_eq [OF rm])
  ultimately show ?thesis using s by blast
qed

section \<open>The invariant\<close>

text \<open>
  The poller has exactly the established connections, each with its mask; every connection keeps its own invariant with
  room for \<open>m\<close> more bytes; no two have the same descriptor.
\<close>

definition conn_entry :: "(chan_ptr \<Rightarrow> int) \<Rightarrow> nat \<Rightarrow> watch \<Rightarrow> chan_ptr \<Rightarrow> tcp_connection \<Rightarrow> bool" where
  "conn_entry fd m w c k \<longleftrightarrow> conn_ok m k \<and> ch_fd (tc_channel k) = fd c \<and>
     (if tc_state k = kconnecting then smap_get c (fst w) = None \<and> c \<notin> set (snd w)
      else smap_get c (fst w) = Some (ch_events (tc_channel k)))"

definition rx_rep :: "(chan_ptr \<Rightarrow> int) \<Rightarrow> nat \<Rightarrow> watch \<Rightarrow> reactor \<Rightarrow> bool" where
  "rx_rep fd m w r \<longleftrightarrow>
     ep.represents fd w (rx_store r, rx_poller r) \<and> set (snd w) \<subseteq> set (rx_made r) \<and> dom (rx_conns r) \<subseteq> set (rx_made r) \<and>
     (\<forall>c k. rx_conns r c = Some k \<longrightarrow> conn_entry fd m w c k) \<and> (\<forall>c. rx_conns r c = None \<longrightarrow> smap_get c (fst w) = None) \<and>
     inj_on fd (dom (rx_conns r))"

definition rx_inv :: "(chan_ptr \<Rightarrow> int) \<Rightarrow> nat \<Rightarrow> reactor \<Rightarrow> bool" where
  "rx_inv fd m r \<longleftrightarrow> (\<exists>w. rx_rep fd m w r) \<and> 0 < ep_events_size (rx_poller r)"

lemma rx_repD:
  assumes "rx_rep fd m w r" and "rx_conns r c = Some k"
  shows "conn_entry fd m w c k"
  using assms by (simp add: rx_rep_def)

lemma conn_entry_mono: "conn_entry fd n w c k \<Longrightarrow> m \<le> n \<Longrightarrow> conn_entry fd m w c k"
  using conn_mono by (auto simp: conn_entry_def)

lemma rx_inv_mono: "rx_inv fd n r \<Longrightarrow> m \<le> n \<Longrightarrow> rx_inv fd m r"
  unfolding rx_inv_def rx_rep_def using conn_entry_mono by blast

lemma rx_rep_fds:
  assumes "rx_rep fd m (a, used) r" and "rx_conns r c = Some k" and "d \<noteq> c" and "smap_get d a \<noteq> None"
  shows "fd d \<noteq> fd c"
proof -
  have "rx_conns r d \<noteq> None" using assms(1,4) by (auto simp: rx_rep_def split: option.splits)
  then show ?thesis using assms(1-3) by (auto simp: rx_rep_def inj_on_def dom_def)
qed

text \<open>A connection's own history, up to now.\<close>

lemma conn_entry_history:
  assumes "conn_entry fd m (a, used) c k"
  obtains a0 used0 where "spec_run (\<lambda>_. fd c) (chan_ops (tc_effects k)) ([], []) = Some (a0, used0)"
    "\<And>d. smap_get d a0 \<noteq> None \<Longrightarrow> d = 0" "smap_get c a = smap_get 0 a0" "smap_get 0 a0 = None \<Longrightarrow> c \<notin> set used"
proof -
  have tr: "trace_is (tc_state k \<noteq> kconnecting) (tc_channel k) (tc_effects k)" "ch_fd (tc_channel k) = fd c"
    using assms by (simp_all add: conn_entry_def conn_ok_def)
  then obtain a0 used0 where s: "spec_run (\<lambda>_. fd c) (chan_ops (tc_effects k)) ([], []) = Some (a0, used0)"
    "if tc_state k \<noteq> kconnecting then a0 = [(0, ch_events (tc_channel k))] else a0 = [] \<and> used0 = []"
    by (auto simp: trace_is_def split: option.splits)
  then show thesis
    using assms by (intro that [OF s(1)]) (auto simp: conn_entry_def smap_get_def split: if_splits)
qed

lemma epoll_events_size:
  "EpollPoller_UpdateChannel il ret c st p = Inr (st', p') \<Longrightarrow> ep_events_size p' = ep_events_size p"
  "EpollPoller_RemoveChannel il ret c st p = Inr (st', p') \<Longrightarrow> ep_events_size p' = ep_events_size p"
  by (auto simp: EpollPoller_UpdateChannel_def EpollPoller_RemoveChannel_def EpollPoller_Update_def AssertInLoopThread_def res_simps Let_def
      split: if_splits)

lemma chan_run_size:
  assumes "chan_run (EpollPoller_UpdateChannel True 0) (EpollPoller_RemoveChannel True 0) (rx_calls c es) (st, p) = Inr (st', p')"
  shows "ep_events_size p' = ep_events_size p"
  using assms
proof (induction es arbitrary: st p)
  case (Cons e es)
  then show ?case by (cases e) (auto simp: res_simps dest!: epoll_events_size)
qed simp

text \<open>A connection takes a step: its calls reach the poller, and nothing else changes.\<close>

lemma rx_become_ok:
  assumes inv: "rx_inv fd n r" and k: "rx_conns r c = Some k" and ext: "extends k k'" and ok: "conn_ok m k'" and mn: "m \<le> n"
    and st: "tc_state k' \<noteq> kconnecting"
  shows "\<exists>r'. rx_become c k k' r = Inr r' \<and> rx_inv fd m r' \<and> rx_conns r' = (rx_conns r)(c \<mapsto> k') \<and> rx_loop r' = rx_loop r \<and>
    rx_made r' = rx_made r \<and> (\<forall>d. ch_revents (rx_store r' d) = ch_revents (rx_store r d))"
proof -
  obtain a used where rep: "rx_rep fd n (a, used) r" and sz: "0 < ep_events_size (rx_poller r)"
    using inv by (auto simp: rx_inv_def)
  obtain es where es: "tc_effects k' = tc_effects k @ es" "Remove_channel \<notin> set es" "ch_fd (tc_channel k') = ch_fd (tc_channel k)"
    using ext by (auto simp: extends_def)
  have entry: "conn_entry fd n (a, used) c k" by (rule rx_repD [OF rep k])
  then have fd: "ch_fd (tc_channel k') = fd c" by (simp add: conn_entry_def es(3))
  obtain a0 used0 where h0: "spec_run (\<lambda>_. fd c) (chan_ops (tc_effects k)) ([], []) = Some (a0, used0)"
    "\<And>d. smap_get d a0 \<noteq> None \<Longrightarrow> d = 0" "smap_get c a = smap_get 0 a0" "smap_get 0 a0 = None \<Longrightarrow> c \<notin> set used"
    using conn_entry_history [OF entry] by metis
  obtain used1 where h1: "spec_run (\<lambda>_. fd c) (chan_ops (tc_effects k @ es)) ([], []) = Some ([(0, ch_events (tc_channel k'))], used1)"
    using ok st fd es(1) by (auto simp: conn_ok_def trace_is_def split: option.splits)
  have "ep.represents fd (a, used) (rx_store r, rx_poller r)" using rep by (simp add: rx_rep_def)
  from rx_update_ok [OF this h0(1) h1 h0(2-4) rx_rep_fds [OF rep k], of "rx_loop r"] es(2) obtain st' p' a' used' where
    u: "rx_update (rx_loop r) c es (rx_store r, rx_poller r) = Inr (st', p')" "ep.represents fd (a', used') (st', p')"
      "smap_get c a' = Some (ch_events (tc_channel k'))" "\<forall>d. d \<noteq> c \<longrightarrow> smap_get d a' = smap_get d a"
      "set used' \<subseteq> insert c (set used)" "\<forall>d. ch_revents (st' d) = ch_revents (rx_store r d)"
    by (auto simp: smap_get_def)
  let ?r = "r\<lparr>rx_store := st', rx_poller := p', rx_conns := (rx_conns r)(c \<mapsto> k')\<rparr>"
  have "c \<in> set (rx_made r)" using rep k by (auto simp: rx_rep_def)
  moreover have "conn_entry fd m (a', used') d kd" if "rx_conns r d = Some kd" "d \<noteq> c" for d kd
    using conn_entry_mono [OF rx_repD [OF rep that(1)] mn] u(4,5) that(2) by (auto simp: conn_entry_def)
  moreover have "conn_entry fd m (a', used') c k'" using ok fd st u(3) by (simp add: conn_entry_def)
  ultimately have "rx_rep fd m (a', used') ?r"
    using rep u k unfolding rx_rep_def by (auto simp: insert_absorb [OF domI [of "rx_conns r", OF k]])
  moreover have "ep_events_size p' = ep_events_size (rx_poller r)"
    using chan_run_size u(1) es(2) by (simp add: rx_update_eq)
  ultimately have "rx_inv fd m ?r" using sz by (auto simp: rx_inv_def)
  moreover have "rx_become c k k' r = Inr ?r" using u(1) by (simp add: rx_become_def es(1))
  ultimately show ?thesis using u(6) by auto
qed

lemma rx_inv_loop [simp]: "rx_inv fd m (r\<lparr>rx_loop := l\<rparr>) = rx_inv fd m r"
  by (simp add: rx_inv_def rx_rep_def)

lemma exec_not_connecting:
  assumes "conn_ok (input_bytes i + m) k" and "conn_guard i k"
  shows "\<exists>k'. conn_exec i k = Inr k' \<and> conn_ok m k' \<and> tc_state k' \<noteq> kconnecting"
proof -
  have "up k" if "i = In_event e t rd w om oc" for e t rd w om oc
    using up_when_watched [OF assms(1)] assms(2) that by simp
  then have "tc_state k = kconnecting \<Longrightarrow> \<exists>calls. i = In_established calls" using assms(2) by (cases i) (auto simp: up_def)
  moreover have "\<exists>k'. conn_exec i k = Inr k' \<and> conn_ok m k' \<and> up k'" if "i = In_established calls" for calls
    using ConnectionEstablished_ok [of calls m k] assms that by auto
  ultimately show ?thesis using conn_exec_ok [OF assms] by (fastforce simp: mild_def reads_def closes_def up_def)
qed

lemma rx_conn_ok:
  assumes "rx_inv fd n r" and k: "rx_conns r c = Some k" and "conn_exec i k = Inr k'" "conn_ok m k'" "tc_state k' \<noteq> kconnecting" "m \<le> n"
  shows "\<exists>r'. rx_conn c i r = Inr r' \<and> rx_inv fd m r' \<and> rx_conns r' = (rx_conns r)(c \<mapsto> k') \<and>
    rx_loop r' = rx_loop r \<and> rx_made r' = rx_made r \<and> (\<forall>d. ch_revents (rx_store r' d) = ch_revents (rx_store r d))"
  using rx_become_ok [OF assms(1,2) extends_exec [OF assms(3)] assms(4,6,5)] k assms(3) by (simp add: rx_conn_def)

lemma rx_conn_state:
  assumes "rx_inv fd m r" and "rx_conns r c = Some k"
  shows "conn_ok m k"
  using assms rx_repD by (auto simp: rx_inv_def conn_entry_def)

section \<open>The connections on their own\<close>

text \<open>
  The same inputs without a loop or a poller: every event the kernel reports goes straight to its connection.
\<close>

definition conns_step :: "chan_ptr \<Rightarrow> conn_input \<Rightarrow> (chan_ptr \<rightharpoonup> tcp_connection) \<Rightarrow> (chan_ptr \<rightharpoonup> tcp_connection) result" where
  "conns_step c i m = (case m c of None \<Rightarrow> Inl Bad_access | Some k \<Rightarrow> bindr (conn_exec i k) (\<lambda>k'. Inr (m(c \<mapsto> k'))))"

fun conns_others :: "(chan_ptr \<times> conn_call) list \<Rightarrow> (chan_ptr \<rightharpoonup> tcp_connection) \<Rightarrow> (chan_ptr \<rightharpoonup> tcp_connection) result" where
  "conns_others [] m = Inr m"
| "conns_others ((d, a) # others) m = bindr (conns_step d (In_call True a) m) (conns_others others)"

definition conns_event ::
  "rx_handling \<Rightarrow> timestamp \<Rightarrow> 32 word \<Rightarrow> chan_ptr \<Rightarrow> (chan_ptr \<rightharpoonup> tcp_connection) \<Rightarrow> (chan_ptr \<rightharpoonup> tcp_connection) result" where
  "conns_event h now e c m =
     bindr (conns_step c (In_event e now (rh_readv h) (rh_write h) (rh_on_message h) (rh_on_connection h)) m) (conns_others (rh_others h))"

fun conns_deliver ::
  "(chan_ptr \<Rightarrow> rx_handling) \<Rightarrow> timestamp \<Rightarrow> (32 word \<times> chan_ptr) list \<Rightarrow> (chan_ptr \<rightharpoonup> tcp_connection) \<Rightarrow> (chan_ptr \<rightharpoonup> tcp_connection) result"
where
  "conns_deliver h now [] m = Inr m"
| "conns_deliver h now ((e, c) # evs) m = bindr (conns_event (h c) now e c m) (conns_deliver h now evs)"

fun conns_exec :: "(chan_ptr \<Rightarrow> int) \<Rightarrow> rx_input \<Rightarrow> (chan_ptr \<rightharpoonup> tcp_connection) \<Rightarrow> (chan_ptr \<rightharpoonup> tcp_connection) result" where
  "conns_exec fd (Rx_new c) m = bindr (TcpConnection_new (fd c)) (\<lambda>k. Inr (m(c \<mapsto> k)))"
| "conns_exec fd (Rx_input c i) m = conns_step c i m"
| "conns_exec fd (Rx_poll (Inl err) now h) m = Inr m"
| "conns_exec fd (Rx_poll (Inr evs) now h) m = conns_deliver h now evs m"
| "conns_exec fd (Rx_destroyed c calls) m =
     (case m c of None \<Rightarrow> Inl Bad_access
      | Some k \<Rightarrow> bindr (TcpConnection_ConnectionDestroyed True calls k) (\<lambda>k'.
          bindr (TcpConnection_destroy k') (\<lambda>_. Inr (m(c := None)))))"

section \<open>Handling events\<close>

definition rh_bytes :: "rx_handling \<Rightarrow> nat" where
  "rh_bytes h = read_bytes (rh_readv h) + calls_bytes (rh_on_message h) + calls_bytes (rh_on_connection h) +
     calls_bytes (map snd (rh_others h))"

text \<open>What stays true of the connections while the events of a round are handled.\<close>

definition conns_on :: "chan_ptr \<Rightarrow> (chan_ptr \<rightharpoonup> tcp_connection) \<Rightarrow> (chan_ptr \<rightharpoonup> tcp_connection) \<Rightarrow> bool" where
  "conns_on c m m' \<longleftrightarrow> (\<forall>d k. m d = Some k \<longrightarrow> (\<exists>k'. m' d = Some k' \<and> (tc_state k \<noteq> kconnecting \<longrightarrow> tc_state k' \<noteq> kconnecting) \<and>
     (d \<noteq> c \<longrightarrow> up k \<longrightarrow> up k')))"

definition established :: "(chan_ptr \<rightharpoonup> tcp_connection) \<Rightarrow> (chan_ptr \<times> conn_call) list \<Rightarrow> bool" where
  "established m others \<longleftrightarrow> list_all (\<lambda>(d, a). \<exists>k. m d = Some k \<and> tc_state k \<noteq> kconnecting) others"

lemma conns_on_refl: "conns_on c m m"
  by (simp add: conns_on_def)

lemma conns_on_trans: "conns_on c m1 m2 \<Longrightarrow> conns_on c m2 m3 \<Longrightarrow> conns_on c m1 m3"
  unfolding conns_on_def by meson

lemma conns_on_up: "conns_on c m m' \<Longrightarrow> m d = Some k \<Longrightarrow> d \<noteq> c \<Longrightarrow> up k \<Longrightarrow> \<exists>k'. m' d = Some k' \<and> up k'"
  unfolding conns_on_def by blast

lemma conns_on_established: "conns_on c m m' \<Longrightarrow> established m others \<Longrightarrow> established m' others"
  unfolding conns_on_def established_def list_all_iff by fastforce

lemma rx_others_ok:
  assumes "rx_inv fd (calls_bytes (map snd others) + m) r" and "established (rx_conns r) others"
  shows "\<exists>r'. rx_others others r = Inr r' \<and> rx_inv fd m r' \<and> conns_others others (rx_conns r) = Inr (rx_conns r') \<and>
    (\<forall>c. conns_on c (rx_conns r) (rx_conns r')) \<and> rx_loop r' = rx_loop r \<and> rx_made r' = rx_made r \<and>
    (\<forall>d. ch_revents (rx_store r' d) = ch_revents (rx_store r d))"
  using assms
proof (induction others arbitrary: r)
  case Nil
  then show ?case by (simp add: conns_on_refl)
next
  case (Cons oc others)
  obtain d a where oc: "oc = (d, a)" by force
  obtain k where k: "rx_conns r d = Some k" "tc_state k \<noteq> kconnecting" using Cons.prems(2) by (auto simp: established_def oc)
  have "conn_ok (call_bytes a + (calls_bytes (map snd others) + m)) k"
    using rx_conn_state [OF Cons.prems(1) k(1)] by (simp add: oc add.assoc)
  from call_ok [OF this k(2), of True] obtain k' where
    k': "conn_call_exec True a k = Inr k'" "conn_ok (calls_bytes (map snd others) + m) k'" "mild k k'" by blast
  from k'(3) k(2) have st: "tc_state k' \<noteq> kconnecting" "up k \<Longrightarrow> up k'" by (auto simp: mild_def up_def)
  obtain r1 where r1: "rx_conn d (In_call True a) r = Inr r1" "rx_inv fd (calls_bytes (map snd others) + m) r1"
    "rx_conns r1 = (rx_conns r)(d \<mapsto> k')" "rx_loop r1 = rx_loop r" "rx_made r1 = rx_made r"
    "\<forall>d. ch_revents (rx_store r1 d) = ch_revents (rx_store r d)"
    using rx_conn_ok [OF Cons.prems(1) k(1) _ k'(2) st(1), of "In_call True a"] k'(1) oc by auto
  have on: "conns_on c (rx_conns r) (rx_conns r1)" for c
    using st k by (auto simp: conns_on_def r1(3))
  have "established (rx_conns r1) others"
    using conns_on_established [OF on] Cons.prems(2) by (auto simp: established_def)
  from Cons.IH [OF r1(2) this] obtain r2 where r2: "rx_others others r1 = Inr r2" "rx_inv fd m r2"
    "conns_others others (rx_conns r1) = Inr (rx_conns r2)" "\<forall>c. conns_on c (rx_conns r1) (rx_conns r2)" "rx_loop r2 = rx_loop r1"
    "rx_made r2 = rx_made r1" "\<forall>d. ch_revents (rx_store r2 d) = ch_revents (rx_store r1 d)" by blast
  have "\<forall>c. conns_on c (rx_conns r) (rx_conns r2)" using conns_on_trans [OF on] r2(4) by blast
  then show ?case using r1 r2 k(1) k'(1) by (simp add: oc conns_step_def)
qed

lemma rx_handle_ok:
  assumes inv: "rx_inv fd (rh_bytes h + m) r" and k: "rx_conns r c = Some k" "up k" and est: "established (rx_conns r) (rh_others h)"
  shows "\<exists>r'. rx_handle h now c r = Inr r' \<and> rx_inv fd m r' \<and>
    conns_event h now (ch_revents (rx_store r c)) c (rx_conns r) = Inr (rx_conns r') \<and>
    conns_on c (rx_conns r) (rx_conns r') \<and> rx_made r' = rx_made r \<and>
    (\<forall>d. ch_revents (rx_store r' d) = ch_revents (rx_store r d))"
proof -
  let ?m = "calls_bytes (map snd (rh_others h)) + m"
  let ?i = "In_event (ch_revents (rx_store r c)) now (rh_readv h) (rh_write h) (rh_on_message h) (rh_on_connection h)"
  let ?r = "r\<lparr>rx_loop := (rx_loop r)\<lparr>el_curr_active_channel := Some c\<rparr>\<rparr>"
  have "conn_ok (read_bytes (rh_readv h) + calls_bytes (rh_on_message h) + calls_bytes (rh_on_connection h) + ?m) k"
    using rx_conn_state [OF inv k(1)] by (simp add: rh_bytes_def add.assoc)
  from HandleEvent_ok [OF this k(2), of "ch_revents (rx_store r c)" now "rh_write h"] obtain k' where
    k': "conn_exec ?i k = Inr k'" "conn_ok ?m k'" "tc_state k' \<noteq> kconnecting"
    using k(2) by (auto simp: mild_def reads_def closes_def up_def)
  obtain r1 where r1: "rx_conn c ?i ?r = Inr r1" "rx_inv fd ?m r1" "rx_conns r1 = (rx_conns r)(c \<mapsto> k')" "rx_made r1 = rx_made r"
    "\<forall>d. ch_revents (rx_store r1 d) = ch_revents (rx_store r d)"
    using rx_conn_ok [of fd "rh_bytes h + m" ?r c k ?i k' ?m] inv k(1) k' by (auto simp: rh_bytes_def)
  have on: "conns_on c (rx_conns r) (rx_conns r1)" using k' by (auto simp: conns_on_def r1(3))
  from rx_others_ok [OF r1(2) conns_on_established [OF on est]] obtain r2 where
    r2: "rx_others (rh_others h) r1 = Inr r2" "rx_inv fd m r2" "conns_others (rh_others h) (rx_conns r1) = Inr (rx_conns r2)"
    "\<forall>c. conns_on c (rx_conns r1) (rx_conns r2)" "rx_made r2 = rx_made r1" "\<forall>d. ch_revents (rx_store r2 d) = ch_revents (rx_store r1 d)"
    by blast
  have "conns_on c (rx_conns r) (rx_conns r2)" using conns_on_trans [OF on] r2(4) by blast
  then show ?thesis using r1 r2 k(1) k'(1) by (simp add: rx_handle_def conns_event_def conns_step_def)
qed

lemma rx_dispatch_ok:
  assumes "rx_inv fd (sum_list (map (\<lambda>(e, c). rh_bytes (h c)) evs) + m) r" and "distinct (map snd evs)"
    and "list_all (\<lambda>(e, c). ch_revents (rx_store r c) = e \<and> (\<exists>k. rx_conns r c = Some k \<and> up k) \<and>
           established (rx_conns r) (rh_others (h c))) evs"
  shows "\<exists>r'. rx_dispatch h now (map snd evs) r = Inr r' \<and> rx_inv fd m r' \<and> conns_deliver h now evs (rx_conns r) = Inr (rx_conns r') \<and>
    rx_made r' = rx_made r \<and> \<not> el_event_handling (rx_loop r')"
  using assms
proof (induction evs arbitrary: r)
  case Nil
  then show ?case by (simp add: Loop_handled_def)
next
  case (Cons ev evs)
  obtain e c where ev: "ev = (e, c)" by force
  let ?m = "sum_list (map (\<lambda>(e, c). rh_bytes (h c)) evs) + m"
  have inv: "rx_inv fd (rh_bytes (h c) + ?m) r" using Cons.prems(1) by (simp add: ev add.assoc)
  obtain k where k: "rx_conns r c = Some k" "up k" "established (rx_conns r) (rh_others (h c))" "ch_revents (rx_store r c) = e"
    using Cons.prems(3) by (auto simp: ev)
  from rx_handle_ok [OF inv k(1-3), of now] obtain r1 where
    r1: "rx_handle (h c) now c r = Inr r1" "rx_inv fd ?m r1" "conns_event (h c) now e c (rx_conns r) = Inr (rx_conns r1)"
      "conns_on c (rx_conns r) (rx_conns r1)" "rx_made r1 = rx_made r" "\<forall>d. ch_revents (rx_store r1 d) = ch_revents (rx_store r d)"
    using k(4) by blast
  have "list_all (\<lambda>(e, c). ch_revents (rx_store r1 c) = e \<and> (\<exists>k. rx_conns r1 c = Some k \<and> up k) \<and>
           established (rx_conns r1) (rh_others (h c))) evs"
    unfolding list_all_iff
  proof (intro ballI, clarify)
    fix e' d assume d: "(e', d) \<in> set evs"
    then have "d \<noteq> c" using Cons.prems(2) by (force simp: ev)
    moreover obtain kd where "rx_conns r d = Some kd" "up kd" "established (rx_conns r) (rh_others (h d))" "ch_revents (rx_store r d) = e'"
      using Cons.prems(3) d by (auto simp: list_all_iff)
    ultimately show "ch_revents (rx_store r1 d) = e' \<and> (\<exists>k. rx_conns r1 d = Some k \<and> up k) \<and> established (rx_conns r1) (rh_others (h d))"
      using r1(6) conns_on_established [OF r1(4)] conns_on_up [OF r1(4)] by simp
  qed
  from Cons.IH [OF r1(2) _ this] Cons.prems(2) r1 show ?case by (auto simp: ev)
qed

section \<open>Every input keeps the invariant\<close>

lemma TcpConnection_new_fd: "TcpConnection_new f = Inr k \<Longrightarrow> tc_state k = kconnecting \<and> ch_fd (tc_channel k) = f"
  by (auto simp: TcpConnection_new_def Channel_new_def Channel_SetReadCallback_def Channel_SetWriteCallback_def
      Channel_SetCloseCallback_def Channel_SetErrorCallback_def res_simps)

lemma rx_new_ok:
  assumes inv: "rx_inv fd m r" and g: "rx_guard fd (Rx_new c) r" and m: "m \<le> conn_capacity"
  shows "\<exists>r'. rx_exec fd (Rx_new c) r = Inr r' \<and> rx_inv fd m r' \<and> conns_exec fd (Rx_new c) (rx_conns r) = Inr (rx_conns r') \<and>
    rx_loop r' = rx_loop r"
proof -
  obtain w where rep: "rx_rep fd m w r" using inv by (auto simp: rx_inv_def)
  from g have c: "c \<notin> set (rx_made r)" "0 \<le> fd c" "\<forall>d\<in>dom (rx_conns r). fd d \<noteq> fd c" by simp_all
  obtain k where k: "TcpConnection_new (fd c) = Inr k" "conn_ok m k" "tc_state k = kconnecting" "ch_fd (tc_channel k) = fd c"
    using TcpConnection_new_ok [OF c(2)] conn_mono [OF _ m] TcpConnection_new_fd by blast
  let ?r = "r\<lparr>rx_conns := (rx_conns r)(c \<mapsto> k), rx_made := c # rx_made r\<rparr>"
  have "rx_conns r c = None" "c \<notin> set (snd w)" using rep c(1) by (auto simp: rx_rep_def)
  then have "conn_entry fd m w c k" using rep k by (simp add: conn_entry_def rx_rep_def)
  then have "rx_rep fd m w ?r" using rep c(3) unfolding rx_rep_def by (auto simp: inj_on_def)
  then have "rx_inv fd m ?r" using inv unfolding rx_inv_def by (intro conjI exI [of _ w]) simp_all
  then show ?thesis using k(1) by simp
qed

lemma rx_poll_ok:
  assumes inv: "rx_inv fd (sum_list (map (\<lambda>(e, c). rh_bytes (h c)) evs) + m) r" and g: "rx_guard fd (Rx_poll (Inr evs) now h) r"
  shows "\<exists>r'. rx_exec fd (Rx_poll (Inr evs) now h) r = Inr r' \<and> rx_inv fd m r' \<and>
    conns_exec fd (Rx_poll (Inr evs) now h) (rx_conns r) = Inr (rx_conns r') \<and> \<not> el_event_handling (rx_loop r')"
proof -
  let ?n = "sum_list (map (\<lambda>(e, c). rh_bytes (h c)) evs) + m"
  obtain a used where rep: "rx_rep fd ?n (a, used) r" and sz: "0 < ep_events_size (rx_poller r)" using inv by (auto simp: rx_inv_def)
  then have er: "ep.represents fd (a, used) (rx_store r, rx_poller r)" by (simp add: rx_rep_def)
  then have ei: "epoll_inv (rx_store r) (rx_poller r)" and fds: "\<And>c. ch_fd (rx_store r c) = fd c"
    and reg: "\<And>c e. smap_get c a = Some e \<longleftrightarrow> smap_get (fd c) (ep_channels (rx_poller r)) = Some c \<and> ch_events (rx_store r c) = e"
    by (auto simp: ep.represents_def)
  have evs: "smap_get (fd c) (ep_channels (rx_poller r)) = Some c \<and> (\<exists>k. rx_conns r c = Some k \<and> up k) \<and>
      established (rx_conns r) (rh_others (h c))" if "(e, c) \<in> set evs" for e c
  proof -
    have ev: "\<exists>mask. epoll_watched (rx_poller r) (fd c) = Some (mask, c)" "established (rx_conns r) (rh_others (h c))"
      using g bspec [OF _ that, of "\<lambda>(e, c). (\<exists>m. epoll_watched (rx_poller r) (fd c) = Some (m, c)) \<and> established (rx_conns r) (rh_others (h c))"]
      by (simp_all add: established_def list_all_iff)
    then obtain mask where "epoll_watched (rx_poller r) (fd c) = Some (mask, c)" by blast
    then have "smap_get c a = Some mask" "mask \<noteq> 0" using ep.represents_watched [OF er] by blast+
    moreover from this obtain k where k: "rx_conns r c = Some k" using rep by (cases "rx_conns r c") (auto simp: rx_rep_def)
    moreover have "conn_entry fd ?n (a, used) c k" by (rule rx_repD [OF rep k])
    ultimately have "\<not> Channel_IsNoneEvent (tc_channel k)" "conn_ok ?n k"
      by (auto simp: conn_entry_def Channel_IsNoneEvent_def knone_event_def split: if_splits)
    then have "up k" using up_when_watched by blast
    then show ?thesis using k reg \<open>smap_get c a = Some mask\<close> ev(2) by simp
  qed
  have "list_all (\<lambda>(e, c). smap_get (ch_fd (rx_store r c)) (ep_channels (rx_poller r)) = Some c) evs"
    using evs by (auto simp: list_all_iff fds)
  from epoll_poll_ok [OF ei sz _ this, of now] g obtain st p where
    p: "EpollPoller_Poll (Inr evs) now [] (rx_store r) (rx_poller r) = Inr (now, map snd evs, st, p)" "epoll_inv st p"
      "\<forall>(e, c)\<in>set evs. ch_revents (st c) = e" "length evs < ep_events_size p" "ep_channels p = ep_channels (rx_poller r)"
      "\<forall>c. ch_fd (st c) = ch_fd (rx_store r c) \<and> ch_index (st c) = ch_index (rx_store r c) \<and> ch_events (st c) = ch_events (rx_store r c)"
    by auto
  let ?r = "r\<lparr>rx_store := st, rx_poller := p, rx_loop := Loop_polled now (map snd evs) (rx_loop r)\<rparr>"
  have "ep.represents fd (a, used) (st, p)" using er p(2,5,6) by (simp add: ep.represents_def)
  then have "rx_inv fd ?n ?r" using rep p(4) by (auto simp: rx_inv_def rx_rep_def)
  moreover have "list_all (\<lambda>(e, c). ch_revents (rx_store ?r c) = e \<and> (\<exists>k. rx_conns ?r c = Some k \<and> up k) \<and>
           established (rx_conns ?r) (rh_others (h c))) evs"
    using evs p(3) by (auto simp: list_all_iff)
  ultimately show ?thesis using rx_dispatch_ok [of fd h evs m ?r now] g p(1) by auto
qed

lemma rx_destroyed_ok:
  assumes inv: "rx_inv fd (calls_bytes calls + m) r" and k: "rx_conns r c = Some k"
    and st: "tc_state k = kconnected \<or> tc_state k = kdisconnected" and l: "\<not> el_event_handling (rx_loop r)"
  shows "\<exists>r'. rx_exec fd (Rx_destroyed c calls) r = Inr r' \<and> rx_inv fd m r' \<and>
    conns_exec fd (Rx_destroyed c calls) (rx_conns r) = Inr (rx_conns r') \<and> rx_loop r' = rx_loop r"
proof -
  let ?n = "calls_bytes calls + m"
  obtain a used where rep: "rx_rep fd ?n (a, used) r" and sz: "0 < ep_events_size (rx_poller r)" using inv by (auto simp: rx_inv_def)
  have entry: "conn_entry fd ?n (a, used) c k" by (rule rx_repD [OF rep k])
  then have fd: "ch_fd (tc_channel k) = fd c" by (simp add: conn_entry_def)
  from ConnectionDestroyed_ok [OF rx_conn_state [OF inv k] st] obtain k' used1 where
    k': "TcpConnection_ConnectionDestroyed True calls k = Inr k'" "TcpConnection_destroy k' = Inr ()"
      "spec_run (\<lambda>_. fd c) (chan_ops (tc_effects k')) ([], []) = Some ([], used1)"
    using fd by auto
  obtain es where es: "tc_effects k' = tc_effects k @ es" using destroyed_extends [OF k'(1)] by blast
  obtain a0 used0 where h0: "spec_run (\<lambda>_. fd c) (chan_ops (tc_effects k)) ([], []) = Some (a0, used0)"
    "\<And>d. smap_get d a0 \<noteq> None \<Longrightarrow> d = 0" "smap_get c a = smap_get 0 a0" "smap_get 0 a0 = None \<Longrightarrow> c \<notin> set used"
    using conn_entry_history [OF entry] by metis
  have "ep.represents fd (a, used) (rx_store r, rx_poller r)" using rep by (simp add: rx_rep_def)
  from rx_update_ok [OF this h0(1) k'(3) [unfolded es] h0(2-4) rx_rep_fds [OF rep k], of "rx_loop r"] l obtain st' p' a' used' where
    u: "rx_update (rx_loop r) c es (rx_store r, rx_poller r) = Inr (st', p')" "ep.represents fd (a', used') (st', p')"
      "smap_get c a' = None" "\<forall>d. d \<noteq> c \<longrightarrow> smap_get d a' = smap_get d a" "set used' \<subseteq> insert c (set used)"
    by (auto simp: smap_get_def)
  let ?r = "r\<lparr>rx_store := st', rx_poller := p', rx_conns := (rx_conns r)(c := None)\<rparr>"
  have "conn_entry fd m (a', used') d kd" if "rx_conns r d = Some kd" "d \<noteq> c" for d kd
    using conn_entry_mono [OF rx_repD [OF rep that(1)], of m] u(4,5) that(2) by (auto simp: conn_entry_def)
  moreover have "c \<in> set (rx_made r)" using rep k by (auto simp: rx_rep_def)
  ultimately have "rx_rep fd m (a', used') ?r" using rep u unfolding rx_rep_def by (auto simp: inj_on_def)
  moreover have "ep_events_size p' = ep_events_size (rx_poller r)" using chan_run_size u(1) l by (simp add: rx_update_eq)
  ultimately have "rx_inv fd m ?r" using sz by (auto simp: rx_inv_def)
  then show ?thesis using u(1) k k' by (simp add: rx_become_def es)
qed

fun rx_input_bytes :: "rx_input \<Rightarrow> nat" where
  "rx_input_bytes (Rx_new c) = 0"
| "rx_input_bytes (Rx_input c i) = input_bytes i"
| "rx_input_bytes (Rx_poll (Inl err) now h) = 0"
| "rx_input_bytes (Rx_poll (Inr evs) now h) = sum_list (map (\<lambda>(e, c). rh_bytes (h c)) evs)"
| "rx_input_bytes (Rx_destroyed c calls) = calls_bytes calls"

definition rx_bytes :: "rx_input list \<Rightarrow> nat" where
  "rx_bytes is = sum_list (map rx_input_bytes is)"

lemma rx_exec_ok:
  assumes inv: "rx_inv fd (rx_input_bytes i + m) r" and g: "rx_guard fd i r" and l: "\<not> el_event_handling (rx_loop r)"
    and m: "rx_input_bytes i + m \<le> conn_capacity"
  shows "\<exists>r'. rx_exec fd i r = Inr r' \<and> rx_inv fd m r' \<and> conns_exec fd i (rx_conns r) = Inr (rx_conns r') \<and>
    \<not> el_event_handling (rx_loop r')"
proof (cases i)
  case (Rx_new c)
  then show ?thesis using rx_new_ok [of fd m r c] assms by auto
next
  case (Rx_input c j)
  then obtain k where k: "rx_conns r c = Some k" "conn_guard j k" using g by auto
  have "conn_ok (input_bytes j + m) k" using rx_conn_state [OF inv k(1)] Rx_input by simp
  from exec_not_connecting [OF this k(2)] obtain k' where k': "conn_exec j k = Inr k'" "conn_ok m k'" "tc_state k' \<noteq> kconnecting" by blast
  from rx_conn_ok [OF inv k(1) k'] l k(1) k'(1) Rx_input show ?thesis by (auto simp: conns_step_def)
next
  case (Rx_poll wait now h)
  show ?thesis
  proof (cases "wait")
    case (Inl err)
    then show ?thesis using Rx_poll inv by (simp add: EpollPoller_Poll_def Loop_handled_def Loop_polled_def)
  next
    case (Inr evs)
    then show ?thesis using Rx_poll rx_poll_ok [of fd h evs m r now] inv g by simp
  qed
next
  case (Rx_destroyed c calls)
  then show ?thesis using rx_destroyed_ok [of fd calls m r c] inv g l by auto
qed

lemma rx_init_inv:
  assumes "EventLoop_new None w = Inr l"
  shows "rx_inv fd m (rx_init fd l)" "\<not> el_event_handling (rx_loop (rx_init fd l))"
proof -
  have "fresh_store fd (\<lambda>c. Channel_new (fd c))" by (simp add: fresh_store_def Channel_new_def)
  from represents_empty(1) [OF this] have "rx_rep fd m ([], []) (rx_init fd l)"
    by (simp add: rx_rep_def rx_init_def smap_get_def)
  then show "rx_inv fd m (rx_init fd l)"
    unfolding rx_inv_def by (auto simp: rx_init_def empty_epoll_def kinit_event_list_size_def)
  show "\<not> el_event_handling (rx_loop (rx_init fd l))" using assms by (auto simp: EventLoop_new_def rx_init_def)
qed

lemma rx_reach_inv:
  assumes "rx_reach fd is r" and "rx_bytes is + m \<le> conn_capacity"
  shows "rx_inv fd m r \<and> \<not> el_event_handling (rx_loop r)"
  using assms
proof (induction arbitrary: m rule: rx_reach.induct)
  case (start w l)
  then show ?case using rx_init_inv by blast
next
  case (next_input "is" r i r')
  then have "rx_inv fd (rx_input_bytes i + m) r \<and> \<not> el_event_handling (rx_loop r)"
    using next_input.IH [of "rx_input_bytes i + m"] by (simp add: rx_bytes_def)
  moreover have "rx_input_bytes i + m \<le> conn_capacity" using next_input.prems by (simp add: rx_bytes_def)
  ultimately show ?case using rx_exec_ok [of fd i m r] next_input.hyps by auto
qed

lemma rx_inv_watched:
  assumes "rx_inv fd m r"
  shows "epoll_watched (rx_poller r) f = Some (e, c) \<longleftrightarrow>
    fd c = f \<and> e \<noteq> 0 \<and> (\<exists>k. rx_conns r c = Some k \<and> ch_events (tc_channel k) = e)"
proof -
  obtain a used where rep: "rx_rep fd m (a, used) r" using assms by (auto simp: rx_inv_def)
  then have "ep.represents fd (a, used) (rx_store r, rx_poller r)" by (simp add: rx_rep_def)
  note w = ep.represents_watched [OF this, of f e c]
  show ?thesis
  proof (cases "rx_conns r c")
    case None
    then have "smap_get c a = None" using rep by (simp add: rx_rep_def)
    then show ?thesis unfolding w using None by auto
  next
    case (Some k)
    then have "conn_entry fd m (a, used) c k" by (rule rx_repD [OF rep])
    then have "tc_state k \<noteq> kconnecting \<Longrightarrow> smap_get c a = Some (ch_events (tc_channel k))"
      "tc_state k = kconnecting \<Longrightarrow> smap_get c a = None \<and> ch_events (tc_channel k) = 0"
      by (auto simp: conn_entry_def conn_ok_def mask_ok_def)
    then show ?thesis unfolding w using Some by (cases "tc_state k = kconnecting") auto
  qed
qed

section \<open>Properties\<close>


text \<open>C5. The loop and the poller are transparent: every input does to the connections exactly what it does when there is no
  loop and no poller and each event the kernel reports is handed straight to its connection, once, in the order of the
  kernel's list and with the kernel's mask, although earlier handlers of the same round change the poller.\<close>

theorem reactor_delivers:
  assumes "rx_reach fd is r" and "rx_guard fd i r" and "rx_bytes (is @ [i]) \<le> conn_capacity"
  shows "\<exists>r'. rx_exec fd i r = Inr r' \<and> conns_exec fd i (rx_conns r) = Inr (rx_conns r')"
proof -
  have b: "rx_input_bytes i \<le> conn_capacity" "rx_inv fd (rx_input_bytes i + 0) r" "\<not> el_event_handling (rx_loop r)"
    using rx_reach_inv [OF assms(1), of "rx_input_bytes i"] assms(3) by (simp_all add: rx_bytes_def)
  then show ?thesis using rx_exec_ok [OF b(2) assms(2) b(3)] by auto
qed

text \<open>A connection on channel and descriptor 7, established.\<close>

lemma sample_reactor:
  "\<exists>r k. rx_reach int [Rx_new 7, Rx_input 7 (In_established [])] r \<and> rx_conns r 7 = Some k \<and> ch_events (tc_channel k) = 3 \<and>
    epoll_watched (rx_poller r) 7 = Some (3, 7)"
proof -
  obtain l where l: "EventLoop_new None 0 = Inr l" by (simp add: EventLoop_new_def)
  have r0: "rx_reach int [] (rx_init int l)" by (rule rx_reach.start [OF l])
  have g0: "rx_guard int (Rx_new 7) (rx_init int l)" by (simp add: rx_init_def)
  obtain r1 where r1: "rx_exec int (Rx_new 7) (rx_init int l) = Inr r1" using rx_exec_ok [OF rx_init_inv(1) [OF l] g0] rx_init_inv(2) [OF l] conn_capacity_big by auto
  then obtain k1 where k1: "TcpConnection_new 7 = Inr k1" "rx_conns r1 7 = Some k1" by (auto simp: rx_init_def res_simps)
  have reach1: "rx_reach int [Rx_new 7] r1" using rx_reach.next_input [OF r0 g0 r1] by simp
  have g1: "rx_guard int (Rx_input 7 (In_established [])) r1" using k1 TcpConnection_new_fd by simp
  have inv1: "rx_inv int 0 r1 \<and> \<not> el_event_handling (rx_loop r1)" using rx_reach_inv [OF reach1, of 0] by (simp add: rx_bytes_def)
  then obtain r2 where r2: "rx_exec int (Rx_input 7 (In_established [])) r1 = Inr r2" "rx_inv int 0 r2"
    "conns_exec int (Rx_input 7 (In_established [])) (rx_conns r1) = Inr (rx_conns r2)"
    using rx_exec_ok [of int "Rx_input 7 (In_established [])" 0 r1] g1 by auto
  have "ch_events (tc_channel k1) = 0" using k1(1)
    by (auto simp: TcpConnection_new_def Channel_new_def Channel_SetReadCallback_def Channel_SetWriteCallback_def
        Channel_SetCloseCallback_def Channel_SetErrorCallback_def res_simps)
  moreover have "rx_conns r2 7 = Some (emit Connection_callback (change_channel Channel_EnableReading
      (k1\<lparr>tc_state := kconnected, tc_channel := (tc_channel k1)\<lparr>ch_tied := True\<rparr>\<rparr>)))"
    using r2(3) k1 by (auto simp: conns_step_def TcpConnection_ConnectionEstablished_def AssertInLoopThread_def TcpConnection_SetState_def
        Channel_Tie_def res_simps Let_def dest!: fun_cong [of _ "rx_conns r2" 7])
  ultimately obtain k2 where k2: "rx_conns r2 7 = Some k2" "ch_events (tc_channel k2) = 3"
    by (simp add: Channel_EnableReading_def Channel_set_events_def event_masks)
  have "rx_reach int [Rx_new 7, Rx_input 7 (In_established [])] r2" using rx_reach.next_input [OF reach1 g1 r2(1)] by simp
  moreover have "epoll_watched (rx_poller r2) 7 = Some (3, 7)" using rx_inv_watched [OF r2(2), of 7 3 7] k2 by simp
  ultimately show ?thesis using k2 by blast
qed

definition sample_handling :: rx_handling where
  "sample_handling = \<lparr>rh_readv = Inr ''hi'', rh_write = Inr 0, rh_on_message = [Call_send (Inr 0) ''ok''], rh_on_connection = [],
     rh_others = [(7, Call_stop_read)]\<rparr>"

lemma sample_round_ok:
  assumes "epoll_watched (rx_poller r) 7 = Some (3, 7)" and "rx_conns r 7 = Some k" "ch_events (tc_channel k) = 3"
    and "rx_reach int [Rx_new 7, Rx_input 7 (In_established [])] r"
  shows "rx_guard int (Rx_poll (Inr [(1, 7)]) (Timestamp 5) (\<lambda>_. sample_handling)) r"
    "rx_bytes ([Rx_new 7, Rx_input 7 (In_established [])] @ [Rx_poll (Inr [(1, 7)]) (Timestamp 5) (\<lambda>_. sample_handling)]) \<le> conn_capacity"
proof -
  have inv: "rx_inv int 0 r" using rx_reach_inv [OF assms(4), of 0] by (simp add: rx_bytes_def)
  then have "0 < ep_events_size (rx_poller r)" by (simp add: rx_inv_def)
  moreover have "tc_state k \<noteq> kconnecting" using rx_conn_state [OF inv assms(2)] assms(3) by (auto simp: conn_ok_def mask_ok_def)
  ultimately show "rx_guard int (Rx_poll (Inr [(1, 7)]) (Timestamp 5) (\<lambda>_. sample_handling)) r"
    using assms by (simp add: sample_handling_def)
  show "rx_bytes ([Rx_new 7, Rx_input 7 (In_established [])] @ [Rx_poll (Inr [(1, 7)]) (Timestamp 5) (\<lambda>_. sample_handling)]) \<le> conn_capacity"
    using conn_capacity_big by (simp add: rx_bytes_def rh_bytes_def sample_handling_def read_bytes_def)
qed


theorem reactor_delivers_witness:
  "\<exists>r r'. rx_reach int [Rx_new 7, Rx_input 7 (In_established [])] r \<and>
    rx_exec int (Rx_poll (Inr [(1, 7)]) (Timestamp 5) (\<lambda>_. sample_handling)) r = Inr r' \<and>
    conns_deliver (\<lambda>_. sample_handling) (Timestamp 5) [(1, 7)] (rx_conns r) = Inr (rx_conns r')"
proof -
  obtain r k where r: "rx_reach int [Rx_new 7, Rx_input 7 (In_established [])] r" "rx_conns r 7 = Some k"
    "ch_events (tc_channel k) = 3" "epoll_watched (rx_poller r) 7 = Some (3, 7)" using sample_reactor by blast
  from reactor_delivers [OF r(1) sample_round_ok [OF r(4,2,3,1)]] r(1) show ?thesis by auto
qed

end
