(* ===== verification/LoopLifetime.thy ===== *)
theory LoopLifetime
  imports EventLoop DefaultPoller
begin

text \<open>
  The life of an \<open>EventLoop\<close> (\<open>dwater/net/event_loop.cc\<close>) with what it owns: the constructor makes the poller, the timer
  queue with its channel (\<open>timer_queue.cc\<close>) and the channel of the wake-up descriptor; the destructor takes them down in the
  reverse order. The lemmas about the timers say that the heap holds exactly the timers of the queue, so that the
  destructor of the queue frees all of them, and each once.
\<close>

section \<open>The objects of a loop\<close>

record loop_objects =
  lo_loop :: event_loop
  lo_store :: chan_store
  lo_poller :: any_poller
  lo_timers :: timer_queue
  lo_closed :: "int list"
  lo_in_this_thread :: "nat option"

text \<open>A descriptor the kernel refused ends the process.\<close>

definition CreateEventfd :: "int \<Rightarrow> int result" where
  "CreateEventfd evtfd = (if evtfd < 0 then Inl Log_fatal else Inr evtfd)"

definition CreateTimerfd :: "int \<Rightarrow> int result" where
  "CreateTimerfd timerfd = (if timerfd < 0 then Inl Log_fatal else Inr timerfd)"

text \<open>\<open>EnableReading\<close> of a new channel; \<open>DisableAll\<close>, \<open>Remove\<close> and the destructor of a channel.\<close>

definition open_channel :: "chan_ptr \<Rightarrow> chan_store \<times> any_poller \<Rightarrow> (chan_store \<times> any_poller) result" where
  "open_channel c s = chan_step Poller_UpdateChannel Poller_RemoveChannel (Set_events c (ch_events (fst s c) OR kread_event)) s"

definition drop_channel :: "chan_ptr \<Rightarrow> chan_store \<times> any_poller \<Rightarrow> (chan_store \<times> any_poller) result" where
  "drop_channel c s =
     bindr (chan_run Poller_UpdateChannel Poller_RemoveChannel [Set_events c knone_event, Remove_chan c] s) (\<lambda>(st, p).
     bindr (Poller_HasChannel True (Poller_channels p) c st) (\<lambda>has.
     bindr (Channel_destroy True has (st c)) (\<lambda>_. Inr (st, p))))"

text \<open>\<open>~TimerQueue\<close>: \<open>delete\<close> of a timer that is not there is a \<open>Bad_access\<close>.\<close>

fun delete_timers :: "timer_entry list \<Rightarrow> timer_heap \<Rightarrow> timer_heap result" where
  "delete_timers [] h = Inr h"
| "delete_timers ((t, p) # es) h = bindr (deref h p) (\<lambda>_. delete_timers es (h(p := None)))"

definition TimerQueue_destroy :: "chan_ptr \<Rightarrow> loop_objects \<Rightarrow> loop_objects result" where
  "TimerQueue_destroy t lo =
     bindr (drop_channel t (lo_store lo, lo_poller lo)) (\<lambda>(st, p).
     bindr (delete_timers (tq_timers (lo_timers lo)) (tq_heap (lo_timers lo))) (\<lambda>h.
       Inr (lo\<lparr>lo_store := st, lo_poller := p, lo_timers := (lo_timers lo)\<lparr>tq_heap := h\<rparr>,
               lo_closed := lo_closed lo @ [ch_fd (st t)]\<rparr>)))"

text \<open>
  The constructor: \<open>t\<close> and \<open>w\<close> are the channels of the timer and wake-up descriptors, \<open>fd\<close> gives the descriptors the kernel
  returned; \<open>this\<close> is the loop, which the thread-local \<open>t_loop_in_this_thread\<close> points to while it lives. The destructor: its body, then the members in reverse order of declaration.
\<close>

definition EventLoop_construct ::
  "(string \<Rightarrow> bool) \<Rightarrow> int \<Rightarrow> (chan_ptr \<Rightarrow> int) \<Rightarrow> chan_ptr \<Rightarrow> chan_ptr \<Rightarrow> nat \<Rightarrow> nat option \<Rightarrow> loop_objects result" where
  "EventLoop_construct getenv epollfd fd t w this in_this_thread =
     bindr (NewDefaultPoller getenv epollfd) (\<lambda>p.
     bindr (CreateTimerfd (fd t)) (\<lambda>_.
     bindr (open_channel t (\<lambda>c. Channel_new (fd c), p)) (\<lambda>s.
     bindr (CreateEventfd (fd w)) (\<lambda>_.
     bindr (EventLoop_new in_this_thread w) (\<lambda>l.
     bindr (open_channel w s) (\<lambda>(st, p).
       Inr \<lparr>lo_loop = l, lo_store = st, lo_poller = p, lo_timers = TimerQueue_new, lo_closed = [],
            lo_in_this_thread = Some this\<rparr>))))))"

definition EventLoop_destroy :: "chan_ptr \<Rightarrow> loop_objects \<Rightarrow> loop_objects result" where
  "EventLoop_destroy t lo =
     (let w = el_wakeup_channel (lo_loop lo) in
      bindr (drop_channel w (lo_store lo, lo_poller lo)) (\<lambda>(st, p).
        TimerQueue_destroy t (lo\<lparr>lo_store := st, lo_poller := p, lo_closed := lo_closed lo @ [ch_fd (st w)],
            lo_in_this_thread := None\<rparr>)))"

section \<open>No timer is lost\<close>

text \<open>Every timer on the heap is in the queue, or among those taken out whose callbacks are running.\<close>

definition no_leak :: "timer_ptr set \<Rightarrow> timer_queue \<Rightarrow> bool" where
  "no_leak D q \<longleftrightarrow> (\<forall>p. tq_heap q p \<noteq> None \<longrightarrow> p \<in> snd ` set (tq_timers q) \<or> p \<in> D)"

lemma no_leak_cong: "tq_heap q' = tq_heap q \<Longrightarrow> tq_timers q' = tq_timers q \<Longrightarrow> no_leak D q' = no_leak D q"
  by (simp add: no_leak_def)

lemma Insert_adds:
  "TimerQueue_Insert p q = Inr (b, q') \<Longrightarrow> tq_heap q' = tq_heap q \<and> (\<exists>t. set (tq_timers q') = insert (t, p) (set (tq_timers q)))"
  by (auto simp: TimerQueue_Insert_def deref_def res_simps set_insort_key Let_def split: option.splits)

lemma Insert_no_leak:
  assumes "TimerQueue_Insert p q = Inr (b, q')" and "no_leak (insert p D) q"
  shows "no_leak D q'"
proof -
  obtain t where "tq_heap q' = tq_heap q" "set (tq_timers q') = insert (t, p) (set (tq_timers q))"
    using Insert_adds [OF assms(1)] by blast
  then show ?thesis using assms(2) by (auto simp: no_leak_def)
qed

lemma ResetTimerfd_keeps: "ResetTimerfd now t q = Inr q' \<Longrightarrow> tq_heap q' = tq_heap q \<and> tq_timers q' = tq_timers q"
  by (auto simp: ResetTimerfd_def Let_def split: if_splits)

lemma AddTimerInLoop_no_leak:
  assumes "TimerQueue_AddTimerInLoop True now p q = Inr q'" and "no_leak (insert p D) q"
  shows "no_leak D q'"
proof -
  obtain b q1 where q1: "TimerQueue_Insert p q = Inr (b, q1)"
    "(if b then bindr (deref (tq_heap q1) p) (\<lambda>tm. ResetTimerfd now (tm_expiration tm) q1) else Inr q1) = Inr q'"
    using assms(1) by (auto simp: TimerQueue_AddTimerInLoop_def res_simps)
  have "tq_heap q' = tq_heap q1 \<and> tq_timers q' = tq_timers q1"
    using q1(2) ResetTimerfd_keeps by (auto simp: res_simps split: if_splits)
  then show ?thesis using Insert_no_leak [OF q1(1) assms(2)] no_leak_cong [of q' q1] by blast
qed

lemma AddTimer_no_leak:
  assumes "TimerQueue_AddTimer alloc now cb w interval q = Inr (tid, q')" and "no_leak D q"
  shows "no_leak D q'"
proof -
  obtain p tm n where a: "alloc (tq_heap q) = Some p"
    "TimerQueue_AddTimerInLoop True now p (q\<lparr>tq_heap := (tq_heap q)(p \<mapsto> tm), tq_num_created := n\<rparr>) = Inr q'"
    using assms(1) by (auto simp: TimerQueue_AddTimer_def res_simps split: option.splits prod.splits)
  have "no_leak (insert p D) (q\<lparr>tq_heap := (tq_heap q)(p \<mapsto> tm), tq_num_created := n\<rparr>)"
    using assms(2) by (auto simp: no_leak_def)
  from AddTimerInLoop_no_leak [OF a(2) this] show ?thesis .
qed

lemma Cancel_no_leak:
  assumes "TimerQueue_Cancel tid q = Inr q'" and "no_leak D q"
  shows "no_leak D q'"
proof -
  obtain p s where tid: "tid = TimerId p s" by (cases tid)
  have "d \<in> snd ` set (remove1 (t, p) (tq_timers q))" if "d \<in> snd ` set (tq_timers q)" "d \<noteq> p" for d t
  proof -
    from that(1) obtain t' where "(t', d) \<in> set (tq_timers q)" by force
    then have "(t', d) \<in> set (remove1 (t, p) (tq_timers q))" using that(2) by (simp add: in_set_remove1)
    then show ?thesis by force
  qed
  then show ?thesis using assms
    by (auto simp: tid TimerQueue_Cancel_def TimerQueue_CancelInLoop_def no_leak_def res_simps split: if_splits) blast+
qed

lemma run_actions_no_leak: "run_actions alloc now as q = Inr q' \<Longrightarrow> no_leak D q \<Longrightarrow> no_leak D q'"
proof (induction as arbitrary: q)
  case (Cons a as)
  then show ?case by (cases a) (auto simp: res_simps dest: AddTimer_no_leak Cancel_no_leak)
qed simp

lemma run_expired_no_leak: "run_expired alloc script now es q = Inr (fired, q') \<Longrightarrow> no_leak D q \<Longrightarrow> no_leak D q'"
proof (induction es arbitrary: q fired)
  case (Cons e es)
  then show ?case by (cases e) (auto simp: res_simps dest: run_actions_no_leak)
qed simp

lemma erase_active_keeps: "erase_active es q = Inr q' \<Longrightarrow> tq_heap q' = tq_heap q \<and> tq_timers q' = tq_timers q"
proof (induction es arbitrary: q)
  case (Cons e es)
  then show ?case by (cases e) (force simp: res_simps)
qed simp

lemma GetExpired_no_leak:
  assumes "TimerQueue_GetExpired now q = Inr (expired, q')" and "no_leak D q"
  shows "no_leak (snd ` set expired \<union> D) q'"
proof -
  let ?s = "\<lambda>e. e < (now, UINTPTR_MAX)"
  have q': "erase_active expired (q\<lparr>tq_timers := dropWhile ?s (tq_timers q)\<rparr>) = Inr q'" and e: "expired = takeWhile ?s (tq_timers q)"
    using assms(1) by (auto simp: TimerQueue_GetExpired_def res_simps Let_def)
  have "set (tq_timers q) = set expired \<union> set (dropWhile ?s (tq_timers q))"
    unfolding e by (metis set_append takeWhile_dropWhile_id)
  then show ?thesis using erase_active_keeps [OF q'] assms(2) by (auto simp: no_leak_def)
qed

lemma reset_expired_no_leak:
  "reset_expired now es q = Inr q' \<Longrightarrow> no_leak (snd ` set es \<union> D) q \<Longrightarrow> no_leak D q'"
proof (induction es arbitrary: q)
  case (Cons e es)
  obtain t p where e: "e = (t, p)" by force
  from Cons.prems(1) obtain tm where tm: "tq_heap q p = Some tm" by (auto simp: e deref_def res_simps split: option.splits)
  show ?case
  proof (cases "tm_repeat tm \<and> (p, tm_sequence tm) \<notin> set (tq_canceling q)")
    case True
    then obtain b q1 where q1: "TimerQueue_Insert p (q\<lparr>tq_heap := (tq_heap q)(p \<mapsto> Timer_Restart now tm)\<rparr>) = Inr (b, q1)"
      "reset_expired now es q1 = Inr q'"
      using Cons.prems(1) tm by (auto simp: e deref_def res_simps)
    have "no_leak (insert p (snd ` set es \<union> D)) (q\<lparr>tq_heap := (tq_heap q)(p \<mapsto> Timer_Restart now tm)\<rparr>)"
      using Cons.prems(2) by (auto simp: e no_leak_def)
    from Cons.IH [OF q1(2) Insert_no_leak [OF q1(1) this]] show ?thesis .
  next
    case False
    have "no_leak (snd ` set es \<union> D) (q\<lparr>tq_heap := (tq_heap q)(p := None)\<rparr>)" using Cons.prems(2) by (auto simp: e no_leak_def)
    then show ?thesis using Cons.IH [of "q\<lparr>tq_heap := (tq_heap q)(p := None)\<rparr>"] Cons.prems(1) tm False by (simp add: e deref_def)
  qed
qed simp

lemma Reset_no_leak:
  assumes "TimerQueue_Reset expired now clock q = Inr q'" and "no_leak (snd ` set expired \<union> D) q"
  shows "no_leak D q'"
proof -
  obtain q1 t where q1: "reset_expired now expired q = Inr q1" "(if Timestamp_Valid t then ResetTimerfd clock t q1 else Inr q1) = Inr q'"
    using assms(1) by (auto simp: TimerQueue_Reset_def bindr_eq_Inr)
  have "tq_heap q' = tq_heap q1 \<and> tq_timers q' = tq_timers q1" using q1(2) ResetTimerfd_keeps by (auto split: if_splits)
  then show ?thesis using reset_expired_no_leak [OF q1(1) assms(2)] no_leak_cong [of q' q1] by blast
qed

lemma HandleRead_no_leak:
  assumes "TimerQueue_HandleRead alloc script True now clock q = Inr (fired, q')" and "no_leak D q"
  shows "no_leak D q'"
proof -
  obtain expired q1 q2 where q: "TimerQueue_GetExpired now q = Inr (expired, q1)"
    "run_expired alloc script clock expired (q1\<lparr>tq_calling := True, tq_canceling := []\<rparr>) = Inr (fired, q2)"
    "TimerQueue_Reset expired now clock (q2\<lparr>tq_calling := False\<rparr>) = Inr q'"
    using assms(1) by (auto simp: TimerQueue_HandleRead_def bindr_eq_Inr)
  have "no_leak (snd ` set expired \<union> D) (q1\<lparr>tq_calling := True, tq_canceling := []\<rparr>)"
    using GetExpired_no_leak [OF q(1) assms(2)] by (simp add: no_leak_def)
  from run_expired_no_leak [OF q(2) this] have "no_leak (snd ` set expired \<union> D) (q2\<lparr>tq_calling := False\<rparr>)" by (simp add: no_leak_def)
  from Reset_no_leak [OF q(3) this] show ?thesis .
qed

lemma timer_run_no_leak: "timer_run alloc cs q = Inr q' \<Longrightarrow> no_leak D q \<Longrightarrow> no_leak D q'"
proof (induction cs arbitrary: q)
  case (Cons c cs)
  then show ?case by (cases c) (auto simp: res_simps dest: AddTimer_no_leak Cancel_no_leak HandleRead_no_leak)
qed simp

lemma delete_timers_ok:
  assumes "distinct (map snd es)" and "\<forall>p. h p \<noteq> None \<longleftrightarrow> p \<in> snd ` set es"
  shows "delete_timers es h = Inr Map.empty"
  using assms
proof (induction es arbitrary: h)
  case (Cons e es)
  obtain t p where e: "e = (t, p)" by force
  then obtain tm where "h p = Some tm" using Cons.prems(2) by auto
  moreover have "\<forall>d. (h(p := None)) d \<noteq> None \<longleftrightarrow> d \<in> snd ` set es" using Cons.prems by (auto simp: e)
  ultimately show ?case using Cons.IH [of "h(p := None)"] Cons.prems(1) by (simp add: e deref_def del: fun_upd_apply)
qed (simp add: fun_eq_iff)

lemma tq_ok_heap_timers:
  assumes ok: "tq_ok q" and nl: "no_leak {} q"
  shows "\<forall>p. tq_heap q p \<noteq> None \<longleftrightarrow> p \<in> snd ` set (tq_timers q)" "distinct (map snd (tq_timers q))"
proof -
  have "tq_heap q (snd e) \<noteq> None" if "e \<in> set (tq_timers q)" for e using tq_okD(4) [OF ok that] by (auto simp: entry_ok_def)
  then show "\<forall>p. tq_heap q p \<noteq> None \<longleftrightarrow> p \<in> snd ` set (tq_timers q)" using nl unfolding no_leak_def by blast
  have "inj_on snd (set (tq_timers q))"
    by (rule inj_onI) (rule entry_unique [OF tq_okD(4) [OF ok] tq_okD(4) [OF ok]])
  then show "distinct (map snd (tq_timers q))" using tq_okD(2) [OF ok] by (simp add: distinct_map)
qed

section \<open>Channels come and go\<close>

lemma flags_kept:
  "Poller_UpdateChannel c st p = Inr (st', p') \<Longrightarrow>
     ch_event_handling (st' d) = ch_event_handling (st d) \<and> ch_events (st' d) = ch_events (st d)"
  "Poller_RemoveChannel c st p = Inr (st', p') \<Longrightarrow> ch_event_handling (st' d) = ch_event_handling (st d) \<and>
     ch_added_to_loop (st' d) = ch_added_to_loop (st d)"
  by (cases p; auto simp: PollPoller_UpdateChannel_def PollPoller_RemoveChannel_def EpollPoller_UpdateChannel_def
      EpollPoller_RemoveChannel_def Channel_SetIndex_def res_simps Let_def split: if_splits option.splits)+

abbreviation run_channels :: "chan_op list \<Rightarrow> chan_store \<times> any_poller \<Rightarrow> (chan_store \<times> any_poller) result" where
  "run_channels \<equiv> chan_run Poller_UpdateChannel Poller_RemoveChannel"

lemma run_channels_handling:
  "run_channels ops (st, p) = Inr (st', p') \<Longrightarrow> ch_event_handling (st' d) = ch_event_handling (st d)"
proof (induction ops arbitrary: st p)
  case (Cons op ops)
  show ?case
  proof (cases op)
    case (Set_events c e)
    then obtain st1 p1 where s: "Poller_UpdateChannel c (st(c := Channel_set_events e (st c))) p = Inr (st1, p1)"
      "run_channels ops (st1, p1) = Inr (st', p')" using Cons.prems by (auto simp: bindr_eq_Inr)
    have "ch_event_handling ((st(c := Channel_set_events e (st c))) d) = ch_event_handling (st d)" by (simp add: Channel_set_events_def)
    then show ?thesis using flags_kept(1) [OF s(1), of d] Cons.IH [OF s(2)] by simp
  next
    case (Remove_chan c)
    then obtain st1 p1 where s: "Poller_RemoveChannel c (st(c := (st c)\<lparr>ch_added_to_loop := False\<rparr>)) p = Inr (st1, p1)"
      "run_channels ops (st1, p1) = Inr (st', p')" using Cons.prems by (auto simp: res_simps)
    have "ch_event_handling ((st(c := (st c)\<lparr>ch_added_to_loop := False\<rparr>)) d) = ch_event_handling (st d)" by simp
    then show ?thesis using flags_kept(2) [OF s(1), of d] Cons.IH [OF s(2)] by simp
  qed
qed simp

lemma open_channel_ok:
  assumes rep: "dp.represents fd (a, used) (st, p)" and c: "c \<notin> set used" "ch_events (st c) = 0" "0 \<le> fd c"
    and fds: "\<And>d. smap_get d a \<noteq> None \<Longrightarrow> fd d \<noteq> fd c"
  shows "\<exists>st' p'. open_channel c (st, p) = Inr (st', p') \<and> dp.represents fd (smap_put c kread_event a, c # used) (st', p') \<and>
    (\<forall>d. ch_event_handling (st' d) = ch_event_handling (st d)) \<and> (\<forall>d. d \<noteq> c \<longrightarrow> ch_events (st' d) = ch_events (st d))"
proof -
  have "fd c \<notin> fd ` fst ` set a"
  proof
    assume "fd c \<in> fd ` fst ` set a"
    then obtain d where "fd c = fd d" "d \<in> fst ` set a" by (rule imageE)
    then show False using fds [of d] by (simp add: smap_get_def map_of_eq_None_iff)
  qed
  moreover have "valid_events kread_event" "kread_event \<noteq> 0" by (simp_all add: valid_events_def event_masks)
  ultimately have sp: "spec_step fd (Set_events c kread_event) (a, used) = Some (smap_put c kread_event a, c # used)" using c by simp
  from dp.step_refines [OF rep sp] obtain st' p' where
    s: "Poller_UpdateChannel c (st(c := Channel_set_events kread_event (st c))) p = Inr (st', p')"
      "dp.represents fd (smap_put c kread_event a, c # used) (st', p')" by auto
  have "ch_event_handling (st' d) = ch_event_handling (st d)" for d using flags_kept(1) [OF s(1), of d] by (simp add: Channel_set_events_def)
  moreover have "ch_events (st' d) = ch_events (st d)" if "d \<noteq> c" for d using flags_kept(1) [OF s(1), of d] that by simp
  ultimately show ?thesis using s c(2) by (simp add: open_channel_def)
qed

lemma drop_channel_ok:
  assumes rep: "dp.represents fd (a, used) (st, p)" and c: "smap_get c a \<noteq> None" "\<not> ch_event_handling (st c)"
  shows "\<exists>st' p'. drop_channel c (st, p) = Inr (st', p') \<and> dp.represents fd (smap_erase c (smap_put c 0 a), c # used) (st', p') \<and>
    (\<forall>d. ch_event_handling (st' d) = ch_event_handling (st d)) \<and> ch_fd (st' c) = fd c"
proof -
  let ?ops = "[Set_events c knone_event, Remove_chan c]" and ?a = "smap_erase c (smap_put c 0 a)"
  have sp: "spec_run fd ?ops (a, used) = Some (?a, c # used)"
    using c(1) by (simp add: knone_event_def valid_events_def smap_get_put)
  from dp.run_refines [OF rep sp] obtain st' p' where s: "run_channels ?ops (st, p) = Inr (st', p')" "dp.represents fd (?a, c # used) (st', p')"
    by auto
  have h: "ch_event_handling (st' d) = ch_event_handling (st d)" for d using run_channels_handling [OF s(1)] .
  obtain st1 p1 where "Poller_RemoveChannel c (st1(c := (st1 c)\<lparr>ch_added_to_loop := False\<rparr>)) p1 = Inr (st', p')"
    using s(1) by (auto simp: res_simps)
  from flags_kept(2) [OF this, of c] have added: "\<not> ch_added_to_loop (st' c)" by simp
  have fd: "ch_fd (st' c) = fd c" using s(2) by (simp add: dp.represents_def)
  have "smap_get c ?a = None" by (simp add: smap_get_erase)
  moreover have "smap_get c ?a = Some (ch_events (st' c)) \<longleftrightarrow> smap_get (fd c) (Poller_channels p') = Some c"
    using s(2) by (simp add: dp.represents_def)
  ultimately have "smap_get (ch_fd (st' c)) (Poller_channels p') \<noteq> Some c" by (simp add: fd)
  then have "drop_channel c (st, p) = Inr (st', p')"
    using s(1) added h [of c] c(2) by (simp add: drop_channel_def Poller_HasChannel_def Channel_destroy_def)
  then show ?thesis using s(2) h fd by blast
qed

section \<open>The whole life\<close>

lemma NewDefaultPoller_ok:
  assumes "getenv ''DWATER_USE_POLL'' \<or> 0 \<le> epollfd"
  shows "\<exists>p. NewDefaultPoller getenv epollfd = Inr p \<and> dp.represents fd ([], []) (\<lambda>c. Channel_new (fd c), p)"
proof -
  have "fresh_store fd (\<lambda>c. Channel_new (fd c))" by (simp add: fresh_store_def Channel_new_def)
  from represents_empty [OF this] have "dp.represents fd ([], []) (\<lambda>c. Channel_new (fd c), Is_poll PollPoller_new)"
    "dp.represents fd ([], []) (\<lambda>c. Channel_new (fd c), Is_epoll empty_epoll)"
    by (auto simp: dp.represents_def pp.represents_def ep.represents_def)
  then show ?thesis using assms by (auto simp: NewDefaultPoller_def EpollPoller_new_def empty_epoll_def c_assert_def)
qed

lemma construct_ok:
  assumes env: "getenv ''DWATER_USE_POLL'' \<or> 0 \<le> epollfd" "0 \<le> fd t" "0 \<le> fd w" "fd t \<noteq> fd w"
  shows "\<exists>lo. EventLoop_construct getenv epollfd fd t w this None = Inr lo \<and> el_wakeup_channel (lo_loop lo) = w \<and>
    lo_timers lo = TimerQueue_new \<and> lo_closed lo = [] \<and>
    dp.represents fd (smap_put w kread_event [(t, kread_event)], [w, t]) (lo_store lo, lo_poller lo) \<and>
    (\<forall>c. \<not> ch_event_handling (lo_store lo c))"
proof -
  let ?st = "\<lambda>c. Channel_new (fd c)"
  obtain p where p: "NewDefaultPoller getenv epollfd = Inr p" "dp.represents fd ([], []) (?st, p)"
    using NewDefaultPoller_ok [where getenv = getenv, OF env(1), of fd] by blast
  obtain st1 p1 where s1: "open_channel t (?st, p) = Inr (st1, p1)" "dp.represents fd (smap_put t kread_event [], [t]) (st1, p1)"
    "\<forall>d. ch_event_handling (st1 d) = ch_event_handling (?st d)" "\<forall>d. d \<noteq> t \<longrightarrow> ch_events (st1 d) = ch_events (?st d)"
    using open_channel_ok [OF p(2), of t] env(2) by (auto simp: Channel_new_def smap_get_def)
  have a1: "smap_put t kread_event [] = [(t, kread_event)]" by simp
  have "w \<noteq> t" using env(4) by auto
  have fds: "fd d \<noteq> fd w" if "smap_get d [(t, kread_event)] \<noteq> None" for d using that env(4) by (auto simp: smap_get_def split: if_splits)
  obtain st2 p2 where s2: "open_channel w (st1, p1) = Inr (st2, p2)"
    "dp.represents fd (smap_put w kread_event [(t, kread_event)], [w, t]) (st2, p2)"
    "\<forall>d. ch_event_handling (st2 d) = ch_event_handling (st1 d)"
    using open_channel_ok [OF s1(2) [unfolded a1], of w, OF _ _ env(3) fds] s1(4) \<open>w \<noteq> t\<close> by (auto simp: Channel_new_def simp del: smap_put.simps)
  then show ?thesis using p(1) s1(1,3) env(2,3)
    by (simp add: EventLoop_construct_def CreateTimerfd_def CreateEventfd_def EventLoop_new_def Channel_new_def)
qed

text \<open>C9. The life of an event loop leaves nothing behind, whichever poller it uses: when the kernel gives it its
  descriptors, the constructor succeeds; after any calls on channels that leave only the loop's own two in the poller, and
  any calls on timers and expirations of timers, the destructor fails no assert (of the poller, of \<open>Channel::Remove\<close> or of
  the destructor of \<open>Channel\<close>), frees every timer that is still allocated, each once, leaves the poller watching nothing,
  closes the two descriptors, and lets the thread have another loop.\<close>

theorem loop_lifetime:
  assumes env: "getenv ''DWATER_USE_POLL'' \<or> 0 \<le> epollfd" "0 \<le> fd t" "0 \<le> fd w" "fd t \<noteq> fd w"
    and ops: "spec_run fd ops (smap_put w kread_event [(t, kread_event)], [w, t]) = Some (a, used)"
      "\<forall>c. smap_get c a = (if c = t \<or> c = w then Some kread_event else None)"
    and timers: "alloc_ok alloc" "timer_run alloc cs TimerQueue_new = Inr q"
  shows "\<exists>lo st p lo'. EventLoop_construct getenv epollfd fd t w this None = Inr lo \<and> lo_timers lo = TimerQueue_new \<and>
    chan_run Poller_UpdateChannel Poller_RemoveChannel ops (lo_store lo, lo_poller lo) = Inr (st, p) \<and>
    EventLoop_destroy t (lo\<lparr>lo_store := st, lo_poller := p, lo_timers := q\<rparr>) = Inr lo' \<and>
    tq_heap (lo_timers lo') = Map.empty \<and> (\<forall>f. any_watched (lo_poller lo') f = None) \<and> lo_closed lo' = [fd w, fd t] \<and>
    lo_in_this_thread lo' = None"
proof -
  obtain lo where lo: "EventLoop_construct getenv epollfd fd t w this None = Inr lo" "el_wakeup_channel (lo_loop lo) = w"
    "lo_timers lo = TimerQueue_new" "lo_closed lo = []"
    "dp.represents fd (smap_put w kread_event [(t, kread_event)], [w, t]) (lo_store lo, lo_poller lo)"
    "\<forall>c. \<not> ch_event_handling (lo_store lo c)"
    using construct_ok [where getenv = getenv and fd = fd, OF env] by blast
  obtain st p where s: "run_channels ops (lo_store lo, lo_poller lo) = Inr (st, p)" "dp.represents fd (a, used) (st, p)"
    using dp.run_refines [OF lo(5) ops(1)] by auto
  have h: "\<not> ch_event_handling (st c)" for c using run_channels_handling [OF s(1)] lo(6) by simp
  obtain st1 p1 where s1: "drop_channel w (st, p) = Inr (st1, p1)" "dp.represents fd (smap_erase w (smap_put w 0 a), w # used) (st1, p1)"
    "\<forall>d. ch_event_handling (st1 d) = ch_event_handling (st d)" "ch_fd (st1 w) = fd w"
    using drop_channel_ok [OF s(2), of w] ops(2) h by auto
  have wt: "t \<noteq> w" using env(4) by auto
  let ?a = "smap_erase w (smap_put w 0 a)" and ?a2 = "smap_erase t (smap_put t 0 (smap_erase w (smap_put w 0 a)))"
  obtain st2 p2 where s2: "drop_channel t (st1, p1) = Inr (st2, p2)" "dp.represents fd (?a2, t # w # used) (st2, p2)" "ch_fd (st2 t) = fd t"
    using drop_channel_ok [OF s1(2), of t] ops(2) h s1(3) wt by (auto simp: smap_get_erase smap_get_put)
  have none: "smap_get c ?a2 = None" for c using ops(2) by (simp add: smap_get_erase smap_get_put)
  have unwatched: "any_watched p2 f = None" for f
    using dp.represents_watched [OF s2(2), of f] none by (cases "any_watched p2 f") auto
  have "tq_ok q" using timer_run_ok [OF TimerQueue_new_ok(1) timers(1), of cs] timers(2) by simp
  moreover have "no_leak {} q" using timer_run_no_leak [OF timers(2), of "{}"] by (simp add: no_leak_def TimerQueue_new_def)
  ultimately have heap: "\<forall>p. tq_heap q p \<noteq> None \<longleftrightarrow> p \<in> snd ` set (tq_timers q)"
    and dist: "distinct (map snd (tq_timers q))"
    using tq_ok_heap_timers by blast+
  then show ?thesis
    using lo s s1 s2 unwatched delete_timers_ok [OF dist heap]
    by (simp add: EventLoop_destroy_def TimerQueue_destroy_def Let_def exI [of _ lo])
qed

lemma sample_timer_run:
  "\<exists>q. timer_run sample_alloc [Call_add 1 (Timestamp 10) 2 (Timestamp 1)] TimerQueue_new = Inr q \<and> tq_heap q 4096 \<noteq> None"
  by (simp add: TimerQueue_AddTimer_def sample_alloc_def TimerQueue_new_def Timer_new_def AtomicInteger_IncrementAndGet_def
      AtomicInteger_AddAndGet_def AtomicInteger_GetAndAdd_def TimerQueue_AddTimerInLoop_def TimerQueue_Insert_def deref_def
      ResetTimerfd_def Let_def UINTPTR_MAX_def)

lemma sample_channels_run:
  "\<exists>a used. spec_run int [Set_events 5 3, Set_events 5 0, Remove_chan 5] (smap_put 4 kread_event [(3, kread_event)], [4, 3]) = Some (a, used) \<and>
    (\<forall>c. smap_get c a = (if c = 3 \<or> c = 4 then Some kread_event else None))"
  by (simp add: valid_events_def smap_get_def smap_erase_def fun_eq_iff)

theorem loop_lifetime_witness:
  "\<exists>q lo st p lo'. timer_run sample_alloc [Call_add 1 (Timestamp 10) 2 (Timestamp 1)] TimerQueue_new = Inr q \<and> tq_heap q 4096 \<noteq> None \<and>
    EventLoop_construct (\<lambda>_. False) 9 int 3 4 77 None = Inr lo \<and>
    chan_run Poller_UpdateChannel Poller_RemoveChannel [Set_events 5 3, Set_events 5 0, Remove_chan 5] (lo_store lo, lo_poller lo) = Inr (st, p) \<and>
    EventLoop_destroy 3 (lo\<lparr>lo_store := st, lo_poller := p, lo_timers := q\<rparr>) = Inr lo' \<and>
    tq_heap (lo_timers lo') = Map.empty \<and> lo_closed lo' = [4, 3]"
proof -
  obtain q where q: "timer_run sample_alloc [Call_add 1 (Timestamp 10) 2 (Timestamp 1)] TimerQueue_new = Inr q" "tq_heap q 4096 \<noteq> None"
    using sample_timer_run by blast
  obtain a used where a: "spec_run int [Set_events 5 3, Set_events 5 0, Remove_chan 5] (smap_put 4 kread_event [(3, kread_event)], [4, 3]) = Some (a, used)"
    "\<forall>c. smap_get c a = (if c = 3 \<or> c = 4 then Some kread_event else None)" using sample_channels_run by blast
  from loop_lifetime [of "\<lambda>_. False" 9 int 3 4, OF _ _ _ _ a sample_alloc_ok q(1), of 77] q show ?thesis by auto
qed

end
