(* ===== verification/NumberStream.thy ===== *)
theory NumberStream
  imports SiFormat
begin

text \<open>
  The insertion operators of \<open>LogStream\<close> for numbers (\<open>dwater/base/log_stream.cc\<close>, \<open>log_stream.h\<close>): the integers at their
  widths, and \<open>double\<close> and \<open>float\<close>, whose text is that of \<open>%.12g\<close>. A finite double is its sign and its magnitude, a rational.
\<close>

section \<open>Integers\<close>

definition LogStream_int :: "32 word \<Rightarrow> fixed_buffer \<Rightarrow> fixed_buffer result" where
  "LogStream_int v = LogStream_FormatInteger (sint v)"

definition LogStream_unsigned_int :: "32 word \<Rightarrow> fixed_buffer \<Rightarrow> fixed_buffer result" where
  "LogStream_unsigned_int v = LogStream_FormatInteger (uint v)"

definition LogStream_short :: "16 word \<Rightarrow> fixed_buffer \<Rightarrow> fixed_buffer result" where
  "LogStream_short v = LogStream_int (scast v)"

definition LogStream_unsigned_short :: "16 word \<Rightarrow> fixed_buffer \<Rightarrow> fixed_buffer result" where
  "LogStream_unsigned_short v = LogStream_unsigned_int (ucast v)"

definition LogStream_long :: "64 word \<Rightarrow> fixed_buffer \<Rightarrow> fixed_buffer result" where
  "LogStream_long v = LogStream_FormatInteger (sint v)"

definition LogStream_unsigned_long :: "64 word \<Rightarrow> fixed_buffer \<Rightarrow> fixed_buffer result" where
  "LogStream_unsigned_long v = LogStream_FormatInteger (uint v)"

definition LogStream_long_long :: "64 word \<Rightarrow> fixed_buffer \<Rightarrow> fixed_buffer result" where
  "LogStream_long_long v = LogStream_FormatInteger (sint v)"

definition LogStream_unsigned_long_long :: "64 word \<Rightarrow> fixed_buffer \<Rightarrow> fixed_buffer result" where
  "LogStream_unsigned_long_long v = LogStream_FormatInteger (uint v)"

section \<open>Doubles\<close>

datatype double_value = Finite bool rat | Infinite bool | Not_a_number bool

text \<open>
  \<open>%.12g\<close> of the C library: the value is rounded to twelve significant digits; with an exponent below -4 or from 12 on it
  is printed in scientific notation, otherwise without an exponent; zeros at the end of the fraction are left out.
  \<open>dec_exponent x\<close> is the exponent of the first digit of \<open>x\<close>.
\<close>

definition dec_exponent :: "rat \<Rightarrow> int" where
  "dec_exponent x =
     (if 1 \<le> x then int (length (nat_dec (nat \<lfloor>x\<rfloor>))) - 1 else - int (length (nat_dec (nat (\<lceil>1 / x\<rceil> - 1)))))"

definition scale10 :: "int \<Rightarrow> rat \<Rightarrow> rat" where
  "scale10 e x = (if 0 \<le> e then x * 10 ^ nat e else x / 10 ^ nat (- e))"

definition twelve_digits :: "rat \<Rightarrow> nat \<times> int" where
  "twelve_digits x =
     (let e = dec_exponent x; m = nat (round_half_even (scale10 (11 - e) x))
      in if m = 10 ^ 12 then (10 ^ 11, e + 1) else (m, e))"

definition strip_zeros :: "string \<Rightarrow> string" where
  "strip_zeros s = rev (dropWhile (\<lambda>c. c = CHR ''0'') (rev s))"

definition fraction :: "string \<Rightarrow> string" where
  "fraction s = (if strip_zeros s = '''' then '''' else ''.'' @ strip_zeros s)"

definition g12_text :: "rat \<Rightarrow> string" where
  "g12_text x =
     (if x = 0 then ''0''
      else case twelve_digits x of (m, e) \<Rightarrow>
        let ds = nat_dec m in
        if e < -4 \<or> 12 \<le> e
        then take 1 ds @ fraction (drop 1 ds) @ ''e'' @ (if e < 0 then ''-'' else ''+'') @ pad_left (CHR ''0'') 2 (nat_dec (nat \<bar>e\<bar>))
        else if 0 \<le> e then take (nat e + 1) ds @ fraction (drop (nat e + 1) ds)
        else ''0'' @ fraction (replicate (nat (- e) - 1) (CHR ''0'') @ ds))"

fun double_text :: "double_value \<Rightarrow> string" where
  "double_text (Finite neg x) = (if neg then ''-'' else '''') @ g12_text x"
| "double_text (Infinite neg) = (if neg then ''-'' else '''') @ ''inf''"
| "double_text (Not_a_number neg) = (if neg then ''-'' else '''') @ ''nan''"

definition LogStream_double :: "double_value \<Rightarrow> fixed_buffer \<Rightarrow> fixed_buffer result" where
  "LogStream_double v b =
     (if k_max_numeric_size \<le> FixedBuffer_Avail b
      then bindr (store_at (fb_curr b) (snprintf_buf k_max_numeric_size (double_text v) @ [CHR 0x00]) b) (\<lambda>b.
             Inr (FixedBuffer_Add (length (double_text v)) b))
      else Inr b)"

text \<open>A \<open>float\<close> is converted to \<open>double\<close>, which changes nothing.\<close>

definition LogStream_float :: "double_value \<Rightarrow> fixed_buffer \<Rightarrow> fixed_buffer result" where
  "LogStream_float v = LogStream_double v"

section \<open>Other insertions\<close>

definition LogStream_unsigned_cstr :: "string option \<Rightarrow> fixed_buffer \<Rightarrow> fixed_buffer result" where
  "LogStream_unsigned_cstr str b = LogStream_cstr str b"

text \<open>The buffer of another stream, as \<open>ToStringPiece\<close> shows it.\<close>

definition LogStream_buffer :: "fixed_buffer \<Rightarrow> fixed_buffer \<Rightarrow> fixed_buffer result" where
  "LogStream_buffer v b = bindr (FixedBuffer_ToString v) (\<lambda>text. LogStream_string text b)"

text \<open>A \<open>Format\<close> made for the insertion; \<open>text\<close> is what its format string makes of its number.\<close>

definition LogStream_Format :: "string \<Rightarrow> fixed_buffer \<Rightarrow> fixed_buffer result" where
  "LogStream_Format text b = bindr (Format_new text) (\<lambda>format. LogStream_Append format b)"

section \<open>Widths\<close>

text \<open>The finite doubles: zero, and magnitudes from the smallest subnormal number to below \<open>2 ^ 1024\<close>.\<close>

fun is_double :: "double_value \<Rightarrow> bool" where
  "is_double (Finite neg x) \<longleftrightarrow> x = 0 \<or> 1 / 2 ^ 1074 \<le> x \<and> x < 2 ^ 1024"
| "is_double _ \<longleftrightarrow> True"

lemma nat_dec_range: "n < 10 ^ length (nat_dec n) \<and> (0 < n \<longrightarrow> 10 ^ (length (nat_dec n) - 1) \<le> n)"
proof (induction n rule: nat_dec.induct)
  case (1 n)
  show ?case
  proof (cases "n < 10")
    case True
    then show ?thesis by (simp add: nat_dec.simps [of n])
  next
    case False
    then have IH: "n div 10 < 10 ^ length (nat_dec (n div 10))" "10 ^ (length (nat_dec (n div 10)) - 1) \<le> n div 10" using 1 by auto
    have ne: "0 < length (nat_dec (n div 10))" by (subst nat_dec.simps) auto
    have "n < 10 * 10 ^ length (nat_dec (n div 10))" using IH(1) by (simp add: div_less_iff_less_mult mult.commute)
    moreover have "10 * 10 ^ (length (nat_dec (n div 10)) - 1) \<le> n" using IH(2) by (simp add: less_eq_div_iff_mult_less_eq mult.commute)
    then have "10 ^ length (nat_dec (n div 10)) \<le> n" using ne by (metis One_nat_def Suc_diff_1 power_Suc)
    ultimately show ?thesis using False by (simp add: nat_dec.simps [of n])
  qed
qed

lemma scale10_bound:
  assumes "0 < x"
  shows "scale10 (11 - dec_exponent x) x < 10 ^ 12"
proof (cases "1 \<le> x")
  case True
  define L where "L = length (nat_dec (nat \<lfloor>x\<rfloor>))"
  have L: "0 < L" unfolding L_def by (subst nat_dec.simps) auto
  have "nat \<lfloor>x\<rfloor> < 10 ^ L" using nat_dec_range [of "nat \<lfloor>x\<rfloor>"] by (simp add: L_def)
  then have "\<lfloor>x\<rfloor> < 10 ^ L" using True by (simp add: nat_less_iff)
  then have x: "x < 10 ^ L" by (simp add: floor_less_iff)
  have e: "dec_exponent x = int L - 1" using True by (simp add: dec_exponent_def L_def)
  show ?thesis
  proof (cases "L \<le> 12")
    case True
    have "x * 10 ^ (12 - L) < 10 ^ L * 10 ^ (12 - L)" using x by simp
    also have "\<dots> = 10 ^ 12" using True by (simp add: power_add [symmetric])
    finally show ?thesis using True by (simp add: scale10_def e nat_diff_distrib)
  next
    case False
    have "x / 10 ^ (L - 12) < 10 ^ L / 10 ^ (L - 12)" using x by (simp add: divide_strict_right_mono)
    also have "\<dots> = 10 ^ 12" using False by (simp add: power_diff [symmetric])
    finally show ?thesis using False by (simp add: scale10_def e nat_diff_distrib)
  qed
next
  case False
  define c where "c = nat (\<lceil>1 / x\<rceil> - 1)"
  define L where "L = length (nat_dec c)"
  have L: "0 < L" unfolding L_def by (subst nat_dec.simps) auto
  have "1 < 1 / x" using False assms by simp
  then have c: "0 < c" "rat_of_nat c < 1 / x" unfolding c_def by (linarith, linarith)
  have "10 ^ (L - 1) \<le> c" using nat_dec_range [of c] c(1) by (simp add: L_def)
  then have "(10 :: rat) ^ (L - 1) \<le> of_nat c" by (metis of_nat_le_iff of_nat_numeral of_nat_power)
  then have "x * 10 ^ (L - 1) \<le> x * of_nat c" using assms by (intro mult_left_mono) simp_all
  moreover have "x * of_nat c < 1" using c(2) assms by (simp add: field_simps)
  ultimately have "x * 10 ^ (L - 1) < 1" by linarith
  then have "x * 10 ^ (L - 1) * 10 ^ 12 < 1 * 10 ^ 12" by simp
  moreover have "11 + L = L - 1 + 12" using L by simp
  then have "x * 10 ^ (11 + L) = x * 10 ^ (L - 1) * 10 ^ 12" by (simp only: power_add mult.assoc)
  ultimately have "x * 10 ^ (11 + L) < 10 ^ 12" by linarith
  then show ?thesis using False by (simp add: scale10_def dec_exponent_def L_def c_def nat_add_distrib)
qed

lemma dec_exponent_bound:
  assumes "1 / 2 ^ 1074 \<le> x" "x < 2 ^ 1024"
  shows "\<bar>dec_exponent x\<bar> \<le> 324"
proof (cases "1 \<le> x")
  case True
  have "(2 :: rat) ^ 1024 \<le> 10 ^ 309" by simp
  then have "x < 10 ^ 309" using assms(2) by linarith
  then have "x < of_int (10 ^ 309)" by simp
  then have "\<lfloor>x\<rfloor> < 10 ^ 309" by (rule floor_less_iff [THEN iffD2])
  then have "nat \<lfloor>x\<rfloor> < 10 ^ 309" using True by (simp add: nat_less_iff)
  then have "length (nat_dec (nat \<lfloor>x\<rfloor>)) \<le> 309" by (intro nat_dec_length) simp_all
  moreover have "0 < length (nat_dec (nat \<lfloor>x\<rfloor>))" by (subst nat_dec.simps) auto
  ultimately show ?thesis using True by (simp add: dec_exponent_def)
next
  case False
  have "0 < x" using assms(1) by (rule less_le_trans [rotated]) simp
  then have "1 / x \<le> 2 ^ 1074" using assms(1) by (simp add: field_simps)
  also have "(2 :: rat) ^ 1074 \<le> of_int (10 ^ 324)" by simp
  finally have "\<lceil>1 / x\<rceil> \<le> 10 ^ 324" by (rule ceiling_le)
  moreover obtain z where z: "\<lceil>1 / x\<rceil> = z" by simp
  ultimately have "nat (\<lceil>1 / x\<rceil> - 1) < 10 ^ 324" unfolding z by (simp add: nat_less_iff)
  then have "length (nat_dec (nat (\<lceil>1 / x\<rceil> - 1))) \<le> 324" by (intro nat_dec_length) simp_all
  then show ?thesis using False by (simp add: dec_exponent_def)
qed

lemma fraction_length: "length (fraction s) \<le> length s + 1"
  using length_dropWhile_le [of "\<lambda>c. c = CHR ''0''" "rev s"] by (simp add: fraction_def strip_zeros_def)

lemma twelve_digits_bound:
  assumes "1 / 2 ^ 1074 \<le> x" "x < 2 ^ 1024" and "twelve_digits x = (m, e)"
  shows "length (nat_dec m) \<le> 12" "\<bar>e\<bar> \<le> 325"
proof -
  have pos: "0 < x" using assms(1) by (rule less_le_trans [rotated]) simp
  let ?y = "scale10 (11 - dec_exponent x) x"
  have "round_half_even ?y \<le> round_half_even (of_int (10 ^ 12))"
    using scale10_bound [OF pos] by (intro round_half_even_mono) simp
  then have "nat (round_half_even ?y) \<le> 10 ^ 12" unfolding round_half_even_of_int by (simp add: nat_le_iff)
  then have "m < 10 ^ 12" using assms(3) by (auto simp: twelve_digits_def Let_def split: if_splits)
  then show "length (nat_dec m) \<le> 12" by (intro nat_dec_length) simp_all
  show "\<bar>e\<bar> \<le> 325" using dec_exponent_bound [OF assms(1,2)] assms(3) by (auto simp: twelve_digits_def Let_def split: if_splits)
qed

lemma g12_text_length:
  assumes "1 / 2 ^ 1074 \<le> x" "x < 2 ^ 1024"
  shows "length (g12_text x) \<le> 18"
proof -
  obtain m e where me: "twelve_digits x = (m, e)" by force
  note b = twelve_digits_bound [OF assms me]
  have "length (nat_dec (nat \<bar>e\<bar>)) \<le> 3" using b(2) by (intro nat_dec_length) (simp_all add: nat_less_iff)
  then have p: "length (pad_left (CHR ''0'') 2 (nat_dec (nat \<bar>e\<bar>))) \<le> 3" by (simp add: pad_left_def)
  have f: "length (fraction (drop k (nat_dec m))) \<le> 13 - k" if "k \<le> 12" for k
    using fraction_length [of "drop k (nat_dec m)"] b(1) that by (cases "k < length (nat_dec m)") (auto simp: fraction_def strip_zeros_def)
  have g: "length (fraction (replicate (nat (- e) - 1) (CHR ''0'') @ nat_dec m)) \<le> 16" if "-4 \<le> e"
    using fraction_length [of "replicate (nat (- e) - 1) (CHR ''0'') @ nat_dec m"] b(1) that by simp
  have h: "length (take (nat e + 1) (nat_dec m)) + length (fraction (drop (nat e + 1) (nat_dec m))) \<le> 14" if "0 \<le> e" "e < 12"
  proof -
    have "nat e \<le> 11" using that by linarith
    then show ?thesis using f [of "nat e + 1"] by simp
  qed
  show ?thesis using me p f [of 1] g h
    by (auto simp: g12_text_def Let_def)
qed

lemma double_text_length:
  assumes "is_double v"
  shows "length (double_text v) \<le> 19"
proof (cases v)
  case (Finite neg x)
  have "length (g12_text x) \<le> 18"
    using assms Finite g12_text_length [of x] by (cases "x = 0") (auto simp: g12_text_def)
  then show ?thesis using Finite by simp
qed auto

text \<open>Numbers fit: wherever a line has room for the 32 bytes an insertion reserves, every value of every integer type is
  appended as its decimal text, and every \<open>double\<close>, infinities and not-a-numbers included, as the text of \<open>%.12g\<close>, which
  never has more than 19 characters, so that \<open>snprintf\<close> cuts nothing off and the length it returns is what was written.\<close>

theorem log_stream_numbers:
  assumes room: "fb_curr b + k_max_numeric_size \<le> length (fb_data b)" and v: "is_double v"
  shows "(\<exists>b'. LogStream_short i16 b = Inr b' \<and> held b' = held b @ int_dec (sint i16)) \<and>
    (\<exists>b'. LogStream_unsigned_short i16 b = Inr b' \<and> held b' = held b @ int_dec (uint i16)) \<and>
    (\<exists>b'. LogStream_int i32 b = Inr b' \<and> held b' = held b @ int_dec (sint i32)) \<and>
    (\<exists>b'. LogStream_unsigned_int i32 b = Inr b' \<and> held b' = held b @ int_dec (uint i32)) \<and>
    (\<exists>b'. LogStream_long i64 b = Inr b' \<and> held b' = held b @ int_dec (sint i64)) \<and>
    (\<exists>b'. LogStream_unsigned_long i64 b = Inr b' \<and> held b' = held b @ int_dec (uint i64)) \<and>
    (\<exists>b'. LogStream_double v b = Inr b' \<and> held b' = held b @ double_text v) \<and> length (double_text v) \<le> 19"
proof -
  note int = FormatInteger_decimal [OF _ _ room]
  have s64: "- (2 ^ 63) \<le> sint w \<and> sint w < 2 ^ 64" for w :: "64 word" using sint_range_size [of w] by (simp add: word_size)
  have s32: "- (2 ^ 63) \<le> sint w \<and> sint w < 2 ^ 64" for w :: "32 word" using sint_range_size [of w] by (simp add: word_size)
  have u64: "- (2 ^ 63) \<le> uint w \<and> uint w < 2 ^ 64" for w :: "64 word"
    using uint_bounded [of w] uint_nonnegative [of w] by (simp, linarith)
  have u32: "- (2 ^ 63) \<le> uint w \<and> uint w < 2 ^ 64" for w :: "32 word"
    using uint_bounded [of w] uint_nonnegative [of w] by (simp, linarith)
  have c16: "sint (scast i16 :: 32 word) = sint i16" "uint (ucast i16 :: 32 word) = uint i16"
    by (simp_all add: sint_up_scast is_up uint_up_ucast)
  have len: "length (double_text v) \<le> 19" by (rule double_text_length [OF v])
  then obtain b1 where b1: "store_at (fb_curr b) (double_text v @ [CHR 0x00]) b = Inr b1"
    using room by (simp add: store_at_def k_max_numeric_size_def)
  have "\<exists>b'. LogStream_double v b = Inr b' \<and> held b' = held b @ double_text v"
    using store_held(1) [OF b1] b1 len room
    by (simp add: LogStream_double_def snprintf_buf_def FixedBuffer_Avail_def k_max_numeric_size_def)
  moreover have "- (2 ^ 63) \<le> sint i16 \<and> sint i16 < 2 ^ 64" "- (2 ^ 63) \<le> uint i16 \<and> uint i16 < 2 ^ 64"
    using s32 [of "scast i16"] u32 [of "ucast i16"] unfolding c16 by simp_all
  ultimately show ?thesis using int s64 s32 u64 u32 len
    by (simp add: LogStream_short_def LogStream_unsigned_short_def LogStream_int_def LogStream_unsigned_int_def LogStream_long_def
        LogStream_unsigned_long_def c16)
qed

theorem log_stream_numbers_witness:
  "\<exists>b'. LogStream_double (Finite True (1 / 8)) (FixedBuffer_new (replicate k_small_buffer (CHR 0x00))) = Inr b' \<and> held b' = ''-0.125''"
proof -
  have "round_half_even 125000000000 = 125000000000" using round_half_even_of_int [of 125000000000] by simp
  moreover have "nat_dec 7 = ''7''" "nat_dec 125000000000 = ''125000000000''" by (simp_all add: nat_dec.simps digit_char_eq_iff)
  ultimately have "double_text (Finite True (1 / 8)) = ''-0.125''"
    by (simp add: g12_text_def twelve_digits_def dec_exponent_def scale10_def fraction_def strip_zeros_def Let_def)
  moreover have "is_double (Finite True (1 / 8))" by simp
  ultimately show ?thesis
    using log_stream_numbers [of "FixedBuffer_new (replicate k_small_buffer (CHR 0x00))" "Finite True (1 / 8)"]
    by (simp add: FixedBuffer_new_def k_small_buffer_def k_max_numeric_size_def held_def)
qed

text \<open>A formatted number of at most 31 characters is appended where the line has room for it; a longer one fails the assert
  of \<open>Format\<close>. What another stream holds is appended as it is.\<close>

lemma log_stream_formats:
  assumes "fb_curr b + length xs < length (fb_data b)"
  shows "if length xs < 32 then \<exists>b'. LogStream_Format xs b = Inr b' \<and> held b' = held b @ xs
    else LogStream_Format xs b = Inl Assert_failed"
    and "held v = xs \<Longrightarrow> fb_curr v \<le> length (fb_data v) \<Longrightarrow> \<exists>b'. LogStream_buffer v b = Inr b' \<and> held b' = held b @ xs"
proof -
  have "\<exists>b'. FixedBuffer_Append xs b = Inr b' \<and> held b' = held b @ xs"
    using assms store_held(1) [of b xs "[]"] by (auto simp: FixedBuffer_Append_def FixedBuffer_Avail_def store_at_def)
  then show "if length xs < 32 then \<exists>b'. LogStream_Format xs b = Inr b' \<and> held b' = held b @ xs
      else LogStream_Format xs b = Inl Assert_failed"
    and "held v = xs \<Longrightarrow> fb_curr v \<le> length (fb_data v) \<Longrightarrow> \<exists>b'. LogStream_buffer v b = Inr b' \<and> held b' = held b @ xs"
    by (auto simp: LogStream_Format_def Format_new_def LogStream_Append_def c_assert_def LogStream_buffer_def FixedBuffer_ToString_def
        LogStream_string_def held_def FixedBuffer_Length_def)
qed

end
