(* ===== verification/ConnDefaults.thy ===== *)
theory ConnDefaults
  imports TcpConnection Sockets
begin

text \<open>
  What a connection does without a user: the default callbacks of \<open>dwater/net/tcp_connection.cc\<close>, which trace the
  connection and throw its input away, and the calls that only reach through to the socket (\<open>tcp_connection.cc\<close>,
  \<open>socket_ops.cc\<close>). The lemmas show that a connection with the default callbacks keeps nothing and uses bounded memory.
\<close>

section \<open>Reaching through to the socket\<close>

text \<open>The request made of the kernel, and whether the failure \<open>ret\<close> of it is logged.\<close>

definition socket_Close :: "int \<Rightarrow> sock_request \<times> bool" where
  "socket_Close ret = (Close_fd, ret < 0)"

definition socket_ShutdownWrite :: "int \<Rightarrow> sock_request \<times> bool" where
  "socket_ShutdownWrite ret = (Shutdown_wr, ret < 0)"

definition TcpConnection_SetTcpNoDelay :: "bool \<Rightarrow> sock_request" where
  "TcpConnection_SetTcpNoDelay on = Socket_SetTcpNoDelay on"

definition TcpConnection_GetTcpInfo :: "tcp_info option \<Rightarrow> tcp_info option" where
  "TcpConnection_GetTcpInfo getsockopt = Socket_GetTcpInfo getsockopt"

text \<open>The buffer of 1024 bytes is empty unless the kernel answers.\<close>

definition TcpConnection_GetTcpInfoString :: "tcp_info option \<Rightarrow> string" where
  "TcpConnection_GetTcpInfoString getsockopt =
     (case Socket_GetTcpInfoString 1024 getsockopt of None \<Rightarrow> '''' | Some text \<Rightarrow> text)"

section \<open>The default callbacks\<close>

text \<open>\<open>trace\<close> says whether the level of the logger lets \<open>LOG_TRACE\<close> through; the text is that of the line.\<close>

definition DefaultConnectionCallback ::
  "(nat list \<Rightarrow> string) \<Rightarrow> bool \<Rightarrow> sockaddr \<Rightarrow> sockaddr \<Rightarrow> tcp_connection \<Rightarrow> string option result" where
  "DefaultConnectionCallback ntop6 trace local_addr peer_addr conn =
     (if trace
      then bindr (InetAddress_ToIpPort ntop6 local_addr) (\<lambda>l.
           bindr (InetAddress_ToIpPort ntop6 peer_addr) (\<lambda>p.
             Inr (Some (l @ '' -> '' @ p @ '' is '' @ (if TcpConnection_Connected conn then ''UP'' else ''DOWN'')))))
      else Inr None)"

definition DefaultMessageCallback :: "buffer \<Rightarrow> buffer" where
  "DefaultMessageCallback buf = Buffer_RetrieveAll buf"

text \<open>\<open>HandleRead\<close> with the default callbacks, tracing off.\<close>

definition default_HandleRead :: "int + string \<Rightarrow> tcp_connection \<Rightarrow> tcp_connection result" where
  "default_HandleRead readv c =
     bindr (Buffer_ReadFd (socket_Readv readv (readv_capacity (tc_input c))) (tc_input c)) (\<lambda>(n, saved_errno, b).
       let c1 = c\<lparr>tc_input := b\<rparr> in
       if n > 0 then Inr ((emit Message_callback c1)\<lparr>tc_input := DefaultMessageCallback b\<rparr>)
       else if n = 0 then TcpConnection_HandleClose True [] c1
       else Inr (TcpConnection_HandleError (emit Log_error c1)))"

fun default_reads :: "(int + string) list \<Rightarrow> tcp_connection \<Rightarrow> tcp_connection result" where
  "default_reads [] c = Inr c"
| "default_reads (readv # rs) c = bindr (default_HandleRead readv c) (default_reads rs)"

section \<open>Bounded memory\<close>

definition default_memory :: nat where
  "default_memory = kcheap_prepend + 3 * extrabuf_size"

text \<open>The input is empty, with all the room behind it, and the vector does not exceed the bound.\<close>

definition drained :: "tcp_connection \<Rightarrow> bool" where
  "drained c \<longleftrightarrow> readable (tc_input c) = [] \<and> buf_writer_index (tc_input c) = kcheap_prepend \<and>
     length (buf_buffer (tc_input c)) \<le> default_memory"

lemma ReadFd_within:
  assumes inv: "buf_inv b" and r: "Buffer_ReadFd (Inr d) b = Inr (n, e, b')" and "length d \<le> Buffer_WritableBytes b"
  shows "length (buf_buffer b') = length (buf_buffer b)"
proof -
  have "length (overwrite (buf_buffer b) (buf_writer_index b) d) = length (buf_buffer b)"
    using buf_invD [OF inv] assms(3) by (simp add: buf_sizes inv)
  then show ?thesis using r assms(3) by (auto simp: Buffer_ReadFd_def Let_def)
qed

lemma ReadFd_memory:
  assumes inv: "buf_inv b" and w: "buf_writer_index b = kcheap_prepend" and len: "length (buf_buffer b) \<le> default_memory"
    and r: "Buffer_ReadFd (Inr d) b = Inr (n, e, b')" and d: "length d \<le> readv_capacity b"
  shows "length (buf_buffer b') \<le> default_memory"
proof (cases "length d \<le> Buffer_WritableBytes b")
  case True
  then show ?thesis using ReadFd_within [OF inv r] len by simp
next
  case False
  have wr: "Buffer_WritableBytes b = length (buf_buffer b) - kcheap_prepend" using w by (simp add: buf_sizes inv)
  have small: "Buffer_WritableBytes b < extrabuf_size" "length d \<le> Buffer_WritableBytes b + extrabuf_size"
    using False d by (auto simp: readv_capacity_def Let_def split: if_splits)
  have "max kcheap_prepend (length (buf_buffer b)) + extrabuf_size \<le> max_vector"
    using len by (simp add: default_memory_def kcheap_prepend_def extrabuf_size_def max_vector_def)
  from ReadFd_length [OF inv d r this] small wr show ?thesis
    by (simp add: default_memory_def)
qed

lemma default_read_ok:
  assumes ok: "conn_ok m c" "drained c" and m: "m + 4 * extrabuf_size \<le> conn_capacity" and readv: "readv \<noteq> Inr []"
  shows "\<exists>c'. default_HandleRead readv c = Inr c' \<and> conn_ok m c' \<and> drained c' \<and>
    tc_accepted c' = tc_accepted c \<and> tc_state c' = tc_state c"
proof (cases readv)
  case (Inl err)
  have "c\<lparr>tc_input := tc_input c\<rparr> = c" by simp
  then show ?thesis using Inl ok
    by (simp add: default_HandleRead_def Buffer_ReadFd_def Let_def TcpConnection_HandleError_def drained_def conn_emit)
next
  case (Inr d)
  let ?d = "take (readv_capacity (tc_input c)) d"
  have inv: "buf_inv (tc_input c)" by (rule conn_bufs(1) [OF ok(1)])
  have D: "buf_writer_index (tc_input c) = kcheap_prepend" "length (buf_buffer (tc_input c)) \<le> default_memory"
    using ok(2) by (simp_all add: drained_def)
  have room: "max kcheap_prepend (length (buf_buffer (tc_input c))) + extrabuf_size \<le> max_vector"
    using D(2) by (simp add: default_memory_def kcheap_prepend_def extrabuf_size_def max_vector_def)
  have cap: "length ?d \<le> readv_capacity (tc_input c)" by simp
  obtain b where b: "Buffer_ReadFd (Inr ?d) (tc_input c) = Inr (int (length ?d), None, b)" "buf_inv b"
    using ReadFd_ok [OF inv cap room] by blast
  have len: "length (buf_buffer b) \<le> default_memory" by (rule ReadFd_memory [OF inv D b(1) cap])
  let ?b = "Buffer_RetrieveAll b"
  have fits: "length (buf_buffer ?b) + extrabuf_size + m \<le> max_vector"
    using len m by (simp add: Buffer_RetrieveAll_def default_memory_def conn_capacity_def kcheap_prepend_def extrabuf_size_def
        kinitial_size_def max_vector_def)
  have "conn_ok m (c\<lparr>tc_input := ?b\<rparr>)" by (rule conn_input_buffer [OF ok(1) RetrieveAll_inv(1) [OF b(2)] fits le_refl])
  then have conn: "conn_ok m (emit Message_callback (c\<lparr>tc_input := ?b\<rparr>))" by (simp add: conn_emit)
  have "readv_capacity (tc_input c) > 0" by (simp add: readv_capacity_def Let_def extrabuf_size_def)
  then have "0 < length ?d" using readv Inr by (cases d) auto
  then have run: "default_HandleRead readv c = Inr (emit Message_callback (c\<lparr>tc_input := ?b\<rparr>))"
    using b(1) Inr by (simp add: default_HandleRead_def Let_def DefaultMessageCallback_def emit_def)
  show ?thesis using run conn len RetrieveAll_inv(2) [OF b(2)] by (simp add: drained_def Buffer_RetrieveAll_def)
qed

text \<open>C30. With the default callbacks a connection takes any amount of input, in any pieces and with any errors of \<open>readv\<close> in
  between, without a fault: it keeps none of it, answers nothing, stays in its state, and its input buffer never has more
  than \<open>default_memory\<close> bytes.\<close>

theorem default_callbacks_bounded:
  assumes "conn_ok m c" "drained c" and "m + 4 * extrabuf_size \<le> conn_capacity" and "list_all (\<lambda>r. r \<noteq> Inr []) rs"
  shows "\<exists>c'. default_reads rs c = Inr c' \<and> conn_ok m c' \<and> readable (tc_input c') = [] \<and> tc_accepted c' = tc_accepted c \<and>
    tc_state c' = tc_state c \<and> length (buf_buffer (tc_input c')) \<le> default_memory"
proof -
  have "\<exists>c'. default_reads rs c = Inr c' \<and> conn_ok m c' \<and> drained c' \<and> tc_accepted c' = tc_accepted c \<and> tc_state c' = tc_state c"
    using assms(1,2,4)
  proof (induction rs arbitrary: c)
    case (Cons r rs)
    then obtain c1 where "default_HandleRead r c = Inr c1" "conn_ok m c1" "drained c1" "tc_accepted c1 = tc_accepted c"
      "tc_state c1 = tc_state c" using default_read_ok [OF _ _ assms(3), of c r] by auto
    with Cons.IH [of c1] Cons.prems(3) show ?case by auto
  qed auto
  then show ?thesis by (auto simp: drained_def)
qed

text \<open>The kernel's numbers have 32 bits, so the description of a socket fits its buffer.\<close>

definition info_fits :: "tcp_info \<Rightarrow> bool" where
  "info_fits i \<longleftrightarrow> list_all (\<lambda>n. n < 2 ^ 32)
     [tcpi_retransmits i, tcpi_rto i, tcpi_ato i, tcpi_snd_mss i, tcpi_rcv_mss i, tcpi_lost i, tcpi_retrans i, tcpi_rtt i,
      tcpi_rttvar i, tcpi_snd_ssthresh i, tcpi_snd_cwnd i, tcpi_total_retrans i]"

lemma tcp_info_complete:
  assumes "info_fits i" and "1024 \<le> len"
  shows "Some (TcpConnection_GetTcpInfoString (Some i)) = Socket_GetTcpInfoString len (Some i)"
proof -
  have "length (nat_dec n) \<le> 10" if "n < 2 ^ 32" for n using that by (intro nat_dec_length) simp_all
  then have w: "length (nat_dec (tcpi_retransmits i)) \<le> 10" "length (nat_dec (tcpi_rto i)) \<le> 10" "length (nat_dec (tcpi_ato i)) \<le> 10"
    "length (nat_dec (tcpi_snd_mss i)) \<le> 10" "length (nat_dec (tcpi_rcv_mss i)) \<le> 10" "length (nat_dec (tcpi_lost i)) \<le> 10"
    "length (nat_dec (tcpi_retrans i)) \<le> 10" "length (nat_dec (tcpi_rtt i)) \<le> 10" "length (nat_dec (tcpi_rttvar i)) \<le> 10"
    "length (nat_dec (tcpi_snd_ssthresh i)) \<le> 10" "length (nat_dec (tcpi_snd_cwnd i)) \<le> 10" "length (nat_dec (tcpi_total_retrans i)) \<le> 10"
    using assms(1) by (simp_all add: info_fits_def)
  then show ?thesis using assms(2)
    by (simp add: TcpConnection_GetTcpInfoString_def Socket_GetTcpInfoString_def Socket_GetTcpInfo_def snprintf_buf_def)
qed

text \<open>A connection that has just been established is drained.\<close>

theorem default_callbacks_bounded_witness:
  "\<exists>c c'. drained c \<and> default_reads [Inr (replicate 100000 (CHR ''x'')), Inl 4, Inr ''y''] c = Inr c' \<and> readable (tc_input c') = [] \<and>
    length (buf_buffer (tc_input c')) \<le> default_memory"
proof -
  obtain c where c: "TcpConnection_new 5 = Inr c" "conn_ok conn_capacity c" using TcpConnection_new_ok [of 5] by auto
  obtain b where "Buffer_new kinitial_size = Inr b" "readable b = []" "buf_writer_index b = kcheap_prepend"
    "length (buf_buffer b) = kcheap_prepend + kinitial_size"
    using Buffer_new_ok [of kinitial_size] by (auto simp: kinitial_size_def kcheap_prepend_def max_vector_def)
  then have "drained c"
    using c(1) by (auto simp: TcpConnection_new_def res_simps drained_def default_memory_def kinitial_size_def extrabuf_size_def)
  moreover have "conn_ok 0 c" by (rule conn_mono [OF c(2)]) simp
  moreover have "4 * extrabuf_size \<le> conn_capacity" using conn_capacity_big by (simp add: extrabuf_size_def)
  ultimately show ?thesis
    using default_callbacks_bounded [of 0 c "[Inr (replicate 100000 (CHR ''x'')), Inl 4, Inr ''y'']"] by auto
qed

end
