(* ===== verification/Spec2Isabelle.thy ===== *)
theory Spec2Isabelle
  imports HttpSession TcpServer TcpClient Logging SiFormat ProcessInfo BufferCalls DefaultPoller Utilities BlockingQueues
    Reactor LoopLifetime NumberStream ConnDefaults
begin

text \<open>
  \<^bold>\<open>A verification of the dwater network library.\<close>

  dwater (\<open>src/dwater\<close>) is a C++ library for event-driven TCP servers and clients in the style of one event loop per
  thread. A \<open>Channel\<close> says which events of a file descriptor matter to its owner; a \<open>Poller\<close> (epoll or poll) waits for
  them; an \<open>EventLoop\<close> polls, hands the events to the channels and then runs the functors other threads queued for it; a
  \<open>TimerQueue\<close> turns one timer descriptor into many timers. \<open>Acceptor\<close> and \<open>Connector\<close> make sockets, a \<open>TcpConnection\<close>
  moves the bytes of one socket between two \<open>Buffer\<close>s and the user's callbacks, \<open>TcpServer\<close> and \<open>TcpClient\<close> own
  connections, and \<open>HttpServer\<close> parses requests and prints responses on top of a \<open>TcpServer\<close>. Below all this lie threads,
  monitors and queues, dates and time zones, and a logging front end with rolling files.

  \<^bold>\<open>Theories and sources.\<close> Every definition has the name of the function it translates, with the class in front
  (\<open>TcpConnection_HandleRead\<close>); a class is a \<open>record\<close> with its members, an enumeration a \<open>datatype\<close>.

  \<^item> \<open>Prelude\<close>: faults and results, \<open>size_t\<close> arithmetic, ranges of characters. \<open>Format\<close>: \<open>snprintf\<close> and \<open>std::map\<close>, the
    latter by the locale \<open>ordered_map\<close>.
  \<^item> \<open>StringPiece\<close> (\<open>base/string_piece.h\<close>), \<open>Timestamp\<close> (\<open>base/timestamp\<close>), \<open>Calendar\<close> (\<open>base/date\<close>), \<open>TimeZone\<close>
    (\<open>base/time_zone\<close>).
  \<^item> \<open>Buffer\<close> (\<open>net/endian.h\<close>, \<open>net/buffer\<close>): the byte queue, by the locale \<open>byte_queue\<close>; \<open>BufferCalls\<close>: every call of its
    interface as one step of a client.
  \<^item> \<open>Channel\<close> and \<open>Poller\<close> (\<open>net/channel\<close>, \<open>net/poller\<close>, \<open>net/poller/\<close>): both pollers implement the locale \<open>poller\<close>, and so
    does the one \<open>DefaultPoller\<close> (\<open>net/poller/default_poller.cc\<close>) picks.
  \<^item> \<open>TimerQueue\<close> (\<open>base/atomic.h\<close>, \<open>net/timer\<close>, \<open>net/timerid.h\<close>, \<open>net/timer_queue\<close>).
  \<^item> \<open>EventLoop\<close> (\<open>net/event_loop\<close>, \<open>net/event_loop_thread_pool\<close>); \<open>LoopLifetime\<close>: the constructors and destructors of
    \<open>EventLoop\<close> and \<open>TimerQueue\<close> with the channels and the poller they own; \<open>Reactor\<close>: the loop over the active channels with
    the epoll poller and the connections of one loop.
  \<^item> \<open>TcpConnection\<close> and \<open>ConnDefaults\<close> (\<open>net/tcp_connection\<close>), \<open>Sockets\<close> (\<open>net/inet_address\<close>, \<open>net/socket\<close>, \<open>net/socket_ops\<close>),
    \<open>Connector\<close> (\<open>net/connector\<close>), \<open>TcpServer\<close> (\<open>net/acceptor\<close>, \<open>net/tcp_server\<close>), \<open>TcpClient\<close> (\<open>net/tcp_client\<close>).
  \<^item> \<open>Http\<close> (\<open>net/http/http_request.h\<close>, \<open>http_context\<close>, \<open>http_response\<close>) and \<open>HttpServer\<close> (\<open>net/http/http_server\<close>); \<open>HttpSession\<close>: the
    events of a connection with the callbacks of the server.
  \<^item> \<open>Monitor\<close> (\<open>base/mutex.h\<close>, \<open>base/condition\<close>; the locale \<open>blocking_monitor\<close>), \<open>BlockingQueues\<close>
    (\<open>base/blocking_queue.h\<close>, \<open>base/bounded_blocking_queue.h\<close>, \<open>base/thread_pool\<close>), \<open>Threads\<close> (\<open>base/count_down_latch\<close>,
    \<open>base/thread\<close>, \<open>base/current_thread\<close>, \<open>net/event_loop_thread\<close>).
  \<^item> \<open>LogStream\<close>, \<open>NumberStream\<close> and \<open>SiFormat\<close> (\<open>base/log_stream\<close>), \<open>Logging\<close> (\<open>base/logging\<close>, \<open>Timestamp::ToFormattedString\<close>), \<open>LogFile\<close>
    (\<open>base/file_util\<close>, \<open>base/log_file\<close>, \<open>base/async_logging\<close>).
  \<^item> \<open>ProcessInfo\<close> (\<open>base/file_util\<close>, \<open>base/process_info\<close>), \<open>Utilities\<close> (\<open>base/singleton.h\<close>, \<open>base/weak_callback.h\<close>,
    \<open>base/exception\<close>, \<open>StackTrace\<close> of \<open>base/current_thread.cc\<close>).

  \<^bold>\<open>Conventions.\<close> A failed \<open>assert\<close>, an exception of the standard library, an access outside an object and the end of the
  process by \<open>LOG_FATAL\<close> or \<open>LOG_SYSFATAL\<close> are values of \<open>fault\<close>; an operation that can do one of them returns a
  \<open>result\<close>, so that a theorem whose conclusion has \<open>Inr\<close> says that none of them happens. \<open>Log_fatal\<close> stands for what these
  macros mean to do. What the operating system answers is an argument of the operation that asks. A user callback is a
  flag, a script of the calls it makes, or a function. What an object does to others (updates in its poller, functors
  queued, sockets closed) is appended to a history of the record, and theorems that span components replay that history
  in the other component, as \<open>rx_become\<close> does after every handler with the epoll poller. Where threads meet, the stretches
  between lock and unlock are the steps of an inductive relation or of a list of inputs, and the invariants hold in every
  interleaving of them.

  \<^bold>\<open>What is shown.\<close>

  \<^item> Bytes: the buffer is a byte queue under every sequence of calls, its asserts fail exactly on over-reads, integers make
    the round trip in network order, \<open>ReadFd\<close> loses nothing, and no call of the interface reaches outside the vector.
  \<^item> HTTP: the incremental parser refines a reference parser, is independent of how the input is cut, reads back a printed
    request; the contexts on which it does not return and the requests it rejects are characterised; the server answers
    a request with exactly the text of the response, and over a whole session, however the bytes arrive, the requests
    sent in their order, at most one for each piece that arrives.
  \<^item> Events: both pollers, and the one the environment selects, watch exactly the enabled channels after every legal sequence of
    updates. A loop with its poller and its connections stays free of faults under every input, the kernel watches exactly
    what the connections ask for, and each event reported reaches its connection once, in order, as if there were neither
    loop nor poller between them.
  \<^item> Timers: no sequence of calls and expirations, with callbacks that add and cancel timers, fails an assert or touches a
    deleted timer; due timers run once and in order; the descriptor stays armed for the first timer.
  \<^item> Loops: no wake-up is lost, functors run in order and each once, and a loop left alone gets to every queued functor.
    From its constructor to its destructor a loop leaks no timer and leaves nothing in its poller.
  \<^item> Connections: no reachable connection can be brought to a fault by any input; the bytes accepted from the user are the
    bytes sent followed by the output buffer; a shutdown waits for the output; the callbacks come in their order;
    destruction leaves nothing in the poller; with the default callbacks the input takes bounded memory. The exceptions, which are faults of the code, are theorems of their own.
  \<^item> Clients and servers: the connector schedules at most one attempt, loses no socket and backs off from 500 milliseconds
    to 30 seconds; a server establishes and destroys every connection once and in its loop; a client has one connection
    at a time.
  \<^item> Threads: the queues are first in first out, bounded and lose no notification, because their critical sections satisfy
    the contract of \<open>blocking_monitor\<close>, proved once; \<open>Thread::Start\<close> publishes the thread id.
  \<^item> Time: dates and broken-down times make the round trip; a time zone file is read back; the search for the offset in
    force is off by one.
  \<^item> Logging: every enabled statement gives one line with the right time, thread, level and place, and none at all when a
    time zone is set; what is logged is what the log files hold, across rolls (\<open>log_pipeline\<close> below); numbers of every
    type print within the space reserved for them, integers in decimal and sizes in a few characters; a line that is too long is written beyond its buffer; the asynchronous logger
    fails in its second round.
  \<^item> Utilities: what the process reads about itself is what the kernel wrote, however the reads are cut; a singleton is made
    once and deleted at exit.

  \<^bold>\<open>Bounds.\<close> \<open>size_t\<close> wraps at \<open>2 ^ 64\<close> in the buffer; \<open>int\<close> is mathematical where the values are shown or assumed to stay in
  its range, and a word where bits matter (byte order, event masks, addresses, pointers). Loops are structural recursions
  or have a termination proof; only the parse loop, which may run forever, is a partial function with \<open>None\<close> for not
  returning, and it is proved to return where it does. Rounds of the event loop and of the logging thread are counted by
  lists of inputs, of any length. Doubles are rationals with the rounding of binary64.

  \<^bold>\<open>Not modelled.\<close> Functions that return one system value (\<open>Pid\<close>, \<open>Uid\<close>, \<open>PageSize\<close>); \<open>SetOutput\<close> and \<open>SetFlush\<close>, whose
  functions are fixed in the model (the texts handed to the output are a list, which \<open>log_to_file\<close> hands on); the code
  that is compiled for valgrind only; the aliases of \<open>types.h\<close> and \<open>callbacks.h\<close> and the marker classes \<open>copyable\<close> and
  \<open>noncopyable\<close>, which have no behaviour; the tests and the demo.
\<close>

section \<open>From a log statement to the log file\<close>

text \<open>
  \<open>Logger::SetOutput\<close> given \<open>LogFile::Append\<close>: each statement hands its line to the file before the next one runs. With each
  statement come the outcomes of the writes, the clock and the environment of the file, and the process may abort.
\<close>

fun log_to_file ::
  "(int \<Rightarrow> string) \<Rightarrow> (log_statement \<times> nat list \<times> int \<times> log_env) list \<Rightarrow> log_state \<Rightarrow> log_file \<Rightarrow> (log_state \<times> log_file) result" where
  "log_to_file strerror_tl [] st l = Inr (st, l)"
| "log_to_file strerror_tl ((ls, outs, now, env) # rest) st l =
     bindr (log_statement_run strerror_tl ls st) (\<lambda>st'.
     bindr (log_lines (map (\<lambda>text. (outs, now, env, text)) (drop (length (g_output st)) (g_output st'))) l) (\<lambda>l'.
       if g_aborted st' then Inr (st', l') else log_to_file strerror_tl rest st' l'))"

lemma log_to_file_keeps:
  assumes "log_state_ok tid st" and "log_file_ok l" and tid: "0 < tid" "tid < 2 ^ 31"
    and "list_all (\<lambda>(ls, outs, now, env). statement_ok strerror_tl tid ls \<and> call_ok (outs, now, env, [])) stmts"
  shows "\<exists>st' l'. log_to_file strerror_tl stmts st l = Inr (st', l') \<and> log_file_ok l' \<and>
    logged l' = logged l @
      concat (map (line_text strerror_tl) (filter (\<lambda>ls. macro_enabled (g_log_level st) (ls_macro ls)) (map fst stmts)))"
  using assms(1,2,5)
proof (induction stmts arbitrary: st l)
  case (Cons s stmts)
  obtain ls outs now env where s: "s = (ls, outs, now, env)" by (metis prod_cases4)
  let ?new = "if macro_enabled (g_log_level st) (ls_macro ls) then [line_text strerror_tl ls] else []"
  obtain st1 where st1: "log_statement_run strerror_tl ls st = Inr st1" "log_state_ok tid st1" "g_log_level st1 = g_log_level st"
    "g_output st1 = g_output st @ ?new"
    using statement_step [OF Cons.prems(1) _ tid, of strerror_tl ls] Cons.prems(3) s by auto
  have new: "list_all call_ok (map (\<lambda>text. (outs, now, env, text)) ?new)" using Cons.prems(3) by (simp add: s call_ok_def)
  obtain l1 where l1: "log_lines (map (\<lambda>text. (outs, now, env, text)) ?new) l = Inr l1" "logged l1 = logged l @ concat ?new" "log_file_ok l1"
    using log_lines_keep [OF Cons.prems(2), of "map (\<lambda>text. (outs, now, env, text)) ?new"] new by (auto simp: comp_def)
  from Cons.IH [OF st1(2) l1(3)] Cons.prems(3) obtain st2 l2 where
    "log_to_file strerror_tl stmts st1 l1 = Inr (st2, l2)" "log_file_ok l2"
    "logged l2 = logged l1 @ concat (map (line_text strerror_tl) (filter (\<lambda>ls. macro_enabled (g_log_level st) (ls_macro ls)) (map fst stmts)))"
    using st1(3) by auto
  then show ?case using st1 l1 log_state_running [OF st1(2)] by (auto simp: s simp del: log_lines.simps)
qed auto

text \<open>C37. What a program logs is what its log files hold. Take a thread with no time zone set that makes any sequence of log
  statements. When the lines go to a \<open>LogFile\<close>, with files that can be opened and writes that make progress, no call fails,
  and the files in the order they were opened hold exactly the lines of the enabled statements, in order, across every
  roll of the file. When they go to an \<open>AsyncLogging\<close> and fit its buffer, the first round of the background thread leaves
  the same text in its file.\<close>

theorem log_pipeline:
  assumes st: "log_state_ok tid st" "g_output st = []" and tid: "0 < tid" "tid < 2 ^ 31"
    and stmts: "list_all (\<lambda>(ls, outs, now, env). statement_ok strerror_tl tid ls \<and> call_ok (outs, now, env, [])) stmts"
    and env: "0 < le_now env" "le_opened env" "CHR ''/'' \<notin> set basename"
    and call: "writes 1 = (outs, now, env')" "call_ok (outs, now, env', [])"
    and lines: "lines = map (line_text strerror_tl) (filter (\<lambda>ls. macro_enabled (g_log_level st) (ls_macro ls)) (map fst stmts))"
  shows "(\<exists>l0 st1 l. LogFile_new env basename roll_size flush_interval check_every_n = Inr l0 \<and>
      log_to_file strerror_tl stmts st l0 = Inr (st1, l) \<and> logged l = concat lines) \<and>
    (\<exists>st'. log_statements_run strerror_tl (map fst stmts) st = Inr st' \<and>
      (lines_fit lines \<longrightarrow>
       (\<exists>a out. AsyncLogging_ThreadFunc env [\<lparr>ar_lines = g_output st', ar_when = stamp, ar_call = writes\<rparr>]
           (AsyncLogging_Start (AsyncLogging_new basename roll_size flush_interval)) = Inr a \<and>
         al_output a = Some out \<and> logged out = concat lines)))"
proof
  obtain l0 where l0: "LogFile_new env basename roll_size flush_interval check_every_n = Inr l0"
    using env by (auto simp: LogFile_new_def LogFile_RollFile_def AppendFile_new_def Let_def)
  then show "\<exists>l0 st1 l. LogFile_new env basename roll_size flush_interval check_every_n = Inr l0 \<and>
      log_to_file strerror_tl stmts st l0 = Inr (st1, l) \<and> logged l = concat lines"
    using log_to_file_keeps [OF st(1) LogFile_new_ok(1) [OF l0 env(1)] tid stmts] LogFile_new_ok(2) [OF l0 env(1)] lines by auto
  have "list_all (statement_ok strerror_tl tid) (map fst stmts)"
    using stmts by (auto simp: list_all_iff)
  from statements_run_ok [OF st(1) this tid] obtain st' where
    st': "log_statements_run strerror_tl (map fst stmts) st = Inr st'" "g_output st' = lines"
    using st(2) lines by auto
  then show "\<exists>st'. log_statements_run strerror_tl (map fst stmts) st = Inr st' \<and>
      (lines_fit lines \<longrightarrow>
       (\<exists>a out. AsyncLogging_ThreadFunc env [\<lparr>ar_lines = g_output st', ar_when = stamp, ar_call = writes\<rparr>]
           (AsyncLogging_Start (AsyncLogging_new basename roll_size flush_interval)) = Inr a \<and>
         al_output a = Some out \<and> logged out = concat lines))"
    using async_one_round [OF env, of "\<lparr>ar_lines = lines, ar_when = stamp, ar_call = writes\<rparr>" outs now env'] call
    by (auto simp: call_ok_def)
qed

theorem log_pipeline_witness:
  "\<exists>l0 st1 l. LogFile_new \<lparr>le_now = 100, le_hostname = ''h'', le_pid = 1, le_opened = True\<rparr> ''app'' 4 3 1024 = Inr l0 \<and>
    log_to_file (\<lambda>_. ''again'')
      (replicate 2 (sample_statement, [2], 100, \<lparr>le_now = 200, le_hostname = ''h'', le_pid = 1, le_opened = True\<rparr>)) sample_log_state l0 =
      Inr (st1, l) \<and>
    logged l = concat (replicate 2 (''19700102 00:00:00.000042Z    42ERROR again (errno = 11) hi  - net/a.cc:7'' @ [CHR 0x0A]))"
  using log_pipeline [of 42 sample_log_state "\<lambda>_. ''again''"
      "replicate 2 (sample_statement, [2], 100, \<lparr>le_now = 200, le_hostname = ''h'', le_pid = 1, le_opened = True\<rparr>)"
      "\<lparr>le_now = 100, le_hostname = ''h'', le_pid = 1, le_opened = True\<rparr>" "''app''"
      "\<lambda>_. ([2], 100, \<lparr>le_now = 200, le_hostname = ''h'', le_pid = 1, le_opened = True\<rparr>)", OF _ _ _ _ _ _ _ _ refl _ refl,
      of 4 3 1024] sample_log_state_ok sample_statement_ok sample_line
  by (simp add: call_ok_def numeral_2_eq_2 sample_enabled)

end
